(* ===== verification/Chunix_Base.thy ===== *)
theory Chunix_Base
  imports Main "HOL-Library.Word"
begin

text \<open>
  The prelude of the ChuniX development: the C integer types of \<^verbatim>\<open>inc/types.h\<close> as machine
  words, the byte-addressed memory of the 32-bit machine with its little-endian 32-bit loads and
  stores, address ranges, the results of kernel operations that may panic or fault, and the
  generic lemmas the components share.
\<close>

unbundle bit_operations_syntax

section \<open>The C integer types\<close>

text \<open>\<^verbatim>\<open>inc/types.h\<close>, lines 13--24. Unsigned arithmetic wraps as word arithmetic does.\<close>

type_synonym u8 = "8 word"
type_synonym u16 = "16 word"
type_synonym u32 = "32 word"
type_synonym u64 = "64 word"

section \<open>Results of kernel operations\<close>

text \<open>
  The ways in which a kernel operation does not return: \<^verbatim>\<open>panic\<close> (and \<^verbatim>\<open>assert_failed\<close>) print
  and loop forever, so the model stops with the message; a dereference of \<^verbatim>\<open>NULL\<close> or of an object
  outside its array is a fault of the C program; a loop with no exit is \<open>Hang\<close>; a task that goes to
  sleep does not come back to the operation (\<open>Asleep\<close>); a host program may exit (\<open>Exits\<close>).
\<close>

datatype kerr = Panic string | Fault string | Hang string | Asleep string | Exits int

type_synonym 'a res = "kerr + 'a"

definition bnd :: "'a res \<Rightarrow> ('a \<Rightarrow> 'b res) \<Rightarrow> 'b res" where
  "bnd m f = (case m of Inl e \<Rightarrow> Inl e | Inr x \<Rightarrow> f x)"

lemma bnd_Inl [simp]: "bnd (Inl e) f = Inl e"
  by (simp add: bnd_def)

lemma bnd_Inr [simp]: "bnd (Inr x) f = f x"
  by (simp add: bnd_def)

lemma bnd_eq_Inr_iff: "bnd m f = Inr y \<longleftrightarrow> (\<exists>x. m = Inr x \<and> f x = Inr y)"
  by (cases m) simp_all

lemma bnd_eq_Inl_iff: "bnd m f = Inl e \<longleftrightarrow> m = Inl e \<or> (\<exists>x. m = Inr x \<and> f x = Inl e)"
  by (cases m) simp_all

lemma bnd_InrE [elim!]:
  assumes "bnd m f = Inr y"
  obtains x where "m = Inr x" and "f x = Inr y"
  using assms by (auto simp: bnd_eq_Inr_iff)

lemma bnd_assoc: "bnd (bnd m f) g = bnd m (\<lambda>x. bnd (f x) g)"
  by (cases m) simp_all

lemma bnd_cong [fundef_cong]:
  "m = m' \<Longrightarrow> (\<And>x. m' = Inr x \<Longrightarrow> f x = g x) \<Longrightarrow> bnd m f = bnd m' g"
  by (cases m') auto

text \<open>A loop that never ends is \<open>None\<close>; to its caller it is the outcome \<open>Hang\<close>.\<close>

definition ended :: "string \<Rightarrow> 'a res option \<Rightarrow> 'a res" where
  "ended name r = (case r of None \<Rightarrow> Inl (Hang name) | Some x \<Rightarrow> x)"

lemma ended_Some [simp]: "ended name (Some r) = r"
  by (simp add: ended_def)

section \<open>Byte-addressed memory\<close>

type_synonym mem = "u32 \<Rightarrow> u8"

named_theorems mem_simps \<open>loads from memories after stores\<close>

text \<open>A 32-bit object (a \<^verbatim>\<open>uint32_t\<close>, a pointer, a page-table entry) at any byte address.\<close>

definition ld32 :: "mem \<Rightarrow> u32 \<Rightarrow> u32" where
  "ld32 m a = ucast (m a) OR push_bit 8 (ucast (m (a + 1)))
     OR push_bit 16 (ucast (m (a + 2))) OR push_bit 24 (ucast (m (a + 3)))"

definition st32 :: "mem \<Rightarrow> u32 \<Rightarrow> u32 \<Rightarrow> mem" where
  "st32 m a v = m(a := ucast v, a + 1 := ucast (drop_bit 8 v),
     a + 2 := ucast (drop_bit 16 v), a + 3 := ucast (drop_bit 24 v))"

definition rng :: "u32 \<Rightarrow> nat \<Rightarrow> u32 set" where
  "rng a n = {x. unat (x - a) < n}"

lemma u32_less: "unat (x :: u32) < 4294967296"
  using unsigned_less [of x] by simp

lemma unat_m1 [simp]: "unat (- 1 :: u32) = 4294967295"
  by (simp add: unsigned_minus_1_eq_mask mask_eq_exp_minus_1)

lemma unat_of_nat32 [simp]: "n < 4294967296 \<Longrightarrow> unat (of_nat n :: u32) = n"
  by (simp add: unat_of_nat)

lemma of_nat32_eq: "n < 4294967296 \<Longrightarrow> (of_nat n = (w :: u32)) \<longleftrightarrow> n = unat w"
  using unat_of_nat32 [of n] by auto

lemma u32_eq_iff: "(a :: u32) = b \<longleftrightarrow> unat a = unat b"
  using unsigned_word_eqI [of a b] by auto

lemma sint_u32: "sint (n :: u32) = (if 2 ^ 31 \<le> uint n then uint n - 2 ^ 32 else uint n)"
proof -
  have u: "uint n < 2 ^ 32" "0 \<le> uint n" using uint_lt2p [of n] by simp_all
  have "bit (uint n) 31 \<longleftrightarrow> 2 ^ 31 \<le> uint n"
  proof (cases "2 ^ 31 \<le> uint n")
    case True
    then have "uint n div 2 ^ 31 = 1" using u by simp
    then show ?thesis using True by (simp only: bit_iff_odd) simp
  next
    case False
    then have "uint n div 2 ^ 31 = 0" using u by simp
    then show ?thesis using False by (simp only: bit_iff_odd) simp
  qed
  moreover have "take_bit 32 (uint n) = uint n" using u by (simp add: take_bit_int_eq_self)
  ultimately show ?thesis by (simp add: sint_uint signed_take_bit_eq_take_bit_minus)
qed

lemma sint_u32_small: "unat (n :: u32) < 2 ^ 31 \<Longrightarrow> sint n = int (unat n)"
proof -
  assume "unat n < 2 ^ 31"
  then have "int (unat n) < int (2 ^ 31)" by (rule of_nat_less_iff [THEN iffD2])
  then have "uint n < 2 ^ 31" by simp
  then show ?thesis by (simp add: sint_u32)
qed

lemma rng_iff: "unat a + n \<le> 2 ^ 32 \<Longrightarrow> x \<in> rng a n \<longleftrightarrow> unat a \<le> unat x \<and> unat x < unat a + n"
  using u32_less [of x] by (auto simp: rng_def unat_sub_if' split: if_splits)

lemma rng_mono: "n \<le> k \<Longrightarrow> rng a n \<subseteq> rng a k"
  by (auto simp: rng_def)

lemma rng_0 [simp]: "rng a 0 = {}"
  by (simp add: rng_def)

lemma rng_self [simp]: "a \<in> rng a n \<longleftrightarrow> 0 < n"
  by (simp add: rng_def)

lemma rng_disjointI:
  assumes "unat a + n \<le> unat b \<or> unat b + k \<le> unat a"
    and "unat a + n \<le> 2 ^ 32" and "unat b + k \<le> 2 ^ 32"
  shows "rng a n \<inter> rng b k = {}"
  using assms by (auto simp: rng_iff)

lemma join_bytes:
  "ucast (ucast v :: u8) OR push_bit 8 (ucast (ucast (drop_bit 8 v) :: u8))
     OR push_bit 16 (ucast (ucast (drop_bit 16 v) :: u8))
     OR push_bit 24 (ucast (ucast (drop_bit 24 v) :: u8)) = (v :: u32)"
proof (rule bit_word_eqI)
  fix n :: nat
  assume "n < LENGTH(32)"
  then consider "n < 8" | "8 \<le> n" "n < 16" | "16 \<le> n" "n < 24" | "24 \<le> n" "n < 32"
    by fastforce
  then show "bit (ucast (ucast v :: u8) OR push_bit 8 (ucast (ucast (drop_bit 8 v) :: u8))
     OR push_bit 16 (ucast (ucast (drop_bit 16 v) :: u8))
     OR push_bit 24 (ucast (ucast (drop_bit 24 v) :: u8)) :: u32) n = bit v n"
    by cases (auto simp: bit_simps)
qed

lemma ld32_st32_same [simp, mem_simps]: "ld32 (st32 m a v) a = v"
  by (simp add: ld32_def st32_def join_bytes)

lemma st32_other: "x \<notin> rng a 4 \<Longrightarrow> st32 m a v x = m x"
  by (auto simp: rng_def st32_def)

lemma ld32_cong: "(\<And>x. x \<in> rng a 4 \<Longrightarrow> m x = m' x) \<Longrightarrow> ld32 m a = ld32 m' a"
  by (simp add: ld32_def rng_def)

lemma ld32_st32_disj [mem_simps]:
  "rng a 4 \<inter> rng b 4 = {} \<Longrightarrow> ld32 (st32 m a v) b = ld32 m b"
  by (rule ld32_cong) (auto intro: st32_other)

end
