(* ===== verification/Kern_String.thy ===== *)
theory Kern_String
  imports Chunix_Base
begin

text \<open>
  The C library routines of \<^verbatim>\<open>kern/string.c\<close> over the byte-addressed memory. Addresses and
  counts are 32-bit words and wrap as the C code's do; characters are the signed \<^verbatim>\<open>char\<close> of the
  compiler, so differences of characters are taken on \<^const>\<open>sint\<close>. A loop that runs until it
  meets a NUL byte may not end, and is a \<^theory_text>\<open>partial_function (option)\<close>; the lemmas show that
  it ends on a NUL-terminated string. The routines that return their first argument leave it out.
\<close>

section \<open>Moving and filling memory\<close>

text \<open>The two loops of \<^verbatim>\<open>memmove\<close>: \<^verbatim>\<open>*d++ = *s++\<close> and \<^verbatim>\<open>*--d = *--s\<close>, run \<open>n\<close> times.\<close>

primrec copy_up :: "mem \<Rightarrow> u32 \<Rightarrow> u32 \<Rightarrow> nat \<Rightarrow> mem" where
  "copy_up m d s 0 = m"
| "copy_up m d s (Suc n) = copy_up (m(d := m s)) (d + 1) (s + 1) n"

primrec copy_down :: "mem \<Rightarrow> u32 \<Rightarrow> u32 \<Rightarrow> nat \<Rightarrow> mem" where
  "copy_down m d s 0 = m"
| "copy_down m d s (Suc n) = copy_down (m(d - 1 := m (s - 1))) (d - 1) (s - 1) n"

definition memmove :: "mem \<Rightarrow> u32 \<Rightarrow> u32 \<Rightarrow> u32 \<Rightarrow> mem" where
  "memmove m dst src n =
     (if src < dst \<and> dst < src + n then copy_down m (dst + n) (src + n) (unat n)
      else copy_up m dst src (unat n))"

text \<open>\<^verbatim>\<open>memset\<close> is one \<^verbatim>\<open>rep stosb\<close>: \<open>n\<close> bytes from \<open>s\<close> upwards become \<open>c\<close>.\<close>

definition stosb :: "mem \<Rightarrow> u32 \<Rightarrow> u8 \<Rightarrow> u32 \<Rightarrow> mem" where
  "stosb m addr val cnt = (\<lambda>x. if unat (x - addr) < unat cnt then val else m x)"

definition memset :: "mem \<Rightarrow> u32 \<Rightarrow> u8 \<Rightarrow> u32 \<Rightarrow> mem" where
  "memset m s c n = stosb m s c n"

section \<open>Strings\<close>

definition strncpy :: "mem \<Rightarrow> u32 \<Rightarrow> u32 \<Rightarrow> u32 \<Rightarrow> mem" where
  "strncpy m d s n = (copy_up m d s (unat n))(d + n := 0)"

partial_function (option) strcpy :: "mem \<Rightarrow> u32 \<Rightarrow> u32 \<Rightarrow> mem option" where
  "strcpy m d s =
     (let m' = m(d := m s)
      in if m' s \<noteq> 0 then strcpy m' (d + 1) (s + 1) else Some m')"

partial_function (option) strlen_loop :: "mem \<Rightarrow> u32 \<Rightarrow> u32 \<Rightarrow> u32 option" where
  "strlen_loop m s len = (if m s \<noteq> 0 then strlen_loop m (s + 1) (len + 1) else Some len)"

definition strlen :: "mem \<Rightarrow> u32 \<Rightarrow> u32 option" where
  "strlen m s = strlen_loop m s 0"

partial_function (option) strcmp :: "mem \<Rightarrow> u32 \<Rightarrow> u32 \<Rightarrow> int option" where
  "strcmp m s t =
     (if m s \<noteq> 0 \<and> m t \<noteq> 0 \<and> m s = m t then strcmp m (s + 1) (t + 1)
      else if m s = 0 \<and> m t = 0 then Some 0
      else if m s = 0 then Some (- 1)
      else if m t = 0 then Some 1
      else Some (sint (m s) - sint (m t)))"

function strncmp :: "mem \<Rightarrow> u32 \<Rightarrow> u32 \<Rightarrow> int \<Rightarrow> int" where
  "strncmp m s t n =
     (if s \<noteq> 0 \<and> t \<noteq> 0 \<and> m s = m t \<and> n > 0 then strncmp m (s + 1) (t + 1) (n - 1)
      else if n = 0 then 0
      else if s = 0 \<and> t = 0 then 0
      else if s = 0 then - 1
      else if t = 0 then 1
      else sint (m s) - sint (m t))"
  by pat_completeness auto
termination
  by (relation "measure (\<lambda>(m, s, t, n). nat n)") auto

declare strncmp.simps [simp del]

section \<open>Moving memory: the loops against their closed form\<close>

text \<open>The memory in which the \<open>n\<close> bytes at \<open>d\<close> are those found at \<open>s\<close> before.\<close>

definition blit :: "mem \<Rightarrow> u32 \<Rightarrow> u32 \<Rightarrow> nat \<Rightarrow> mem" where
  "blit m d s n = (\<lambda>x. if x \<in> rng d n then m (s + (x - d)) else m x)"

lemma rng_Suc: "n < 2 ^ 32 \<Longrightarrow> x \<in> rng d (Suc n) \<longleftrightarrow> x = d \<or> x \<in> rng (d + 1) n"
proof -
  assume n: "n < 2 ^ 32"
  have "x - d = (x - (d + 1)) + 1" by simp
  then have "unat (x - d) = (if x = d then 0 else Suc (unat (x - (d + 1))))"
    using unatSuc [of "x - (d + 1)"] by (auto simp: add.commute)
  moreover have "x = d \<Longrightarrow> unat (x - (d + 1)) = 2 ^ 32 - 1" by simp
  ultimately show ?thesis using n by (auto simp: rng_def)
qed

lemma rng_Suc_notin: "n < 2 ^ 32 \<Longrightarrow> d \<notin> rng (d + 1) n"
  by (simp add: rng_def)

lemma rng_of_nat:
  assumes "x \<in> rng d n" "n \<le> 2 ^ 32"
  obtains j where "j < n" and "x = d + of_nat j"
proof
  show "unat (x - d) < n" using assms by (simp add: rng_def)
  show "x = d + of_nat (unat (x - d))" by simp
qed

lemma copy_up_blit:
  assumes "n < 2 ^ 32" and "\<And>j. 0 < j \<Longrightarrow> j < n \<Longrightarrow> s + of_nat j \<noteq> d"
  shows "copy_up m d s n = blit m d s n"
  using assms
proof (induction n arbitrary: m d s)
  case 0
  show ?case by (simp add: blit_def)
next
  case (Suc n)
  have IH: "copy_up (m(d := m s)) (d + 1) (s + 1) n = blit (m(d := m s)) (d + 1) (s + 1) n"
  proof (rule Suc.IH)
    show "n < 2 ^ 32" using Suc.prems(1) by simp
    show "s + 1 + of_nat j \<noteq> d + 1" if "0 < j" "j < n" for j
      using Suc.prems(2) [of j] that by (simp add: add.commute add.left_commute)
  qed
  show ?case
  proof
    fix x
    show "copy_up m d s (Suc n) x = blit m d s (Suc n) x"
    proof (cases "x \<in> rng (d + 1) n")
      case True
      then obtain j where j: "j < n" and x: "x = d + 1 + of_nat j"
        using Suc.prems(1) by (elim rng_of_nat) auto
      have "s + of_nat (Suc j) \<noteq> d" using Suc.prems(2) [of "Suc j"] j by simp
      then have "(m(d := m s)) (s + 1 + of_nat j) = m (s + 1 + of_nat j)"
        by (simp add: add.commute add.left_commute)
      with True x Suc.prems(1) show ?thesis
        by (simp add: IH blit_def rng_Suc add.assoc)
    next
      case False
      with Suc.prems(1) show ?thesis
        by (auto simp: IH blit_def rng_Suc rng_Suc_notin)
    qed
  qed
qed

lemma copy_down_blit:
  assumes "n < 2 ^ 32" and "\<And>j. 0 < j \<Longrightarrow> j < n \<Longrightarrow> s - of_nat j \<noteq> d"
  shows "copy_down m d s n = blit m (d - of_nat n) (s - of_nat n) n"
  using assms
proof (induction n arbitrary: m d s)
  case 0
  show ?case by (simp add: blit_def)
next
  case (Suc n)
  let ?D = "d - 1 - of_nat n" and ?S = "s - 1 - of_nat n"
  have IH: "copy_down (m(d - 1 := m (s - 1))) (d - 1) (s - 1) n
      = blit (m(d - 1 := m (s - 1))) ?D ?S n"
  proof (rule Suc.IH)
    show "n < 2 ^ 32" using Suc.prems(1) by simp
    show "s - 1 - of_nat j \<noteq> d - 1" if "0 < j" "j < n" for j
      using Suc.prems(2) [of j] that by (simp add: algebra_simps)
  qed
  have split: "x \<in> rng ?D (Suc n) \<longleftrightarrow> x = d - 1 \<or> x \<in> rng ?D n" for x
  proof -
    have "unat (x - ?D) = n \<longleftrightarrow> x - ?D = of_nat n"
      using Suc.prems(1) by (auto simp: of_nat32_eq eq_commute [of _ "of_nat n"])
    also have "\<dots> \<longleftrightarrow> x = d - 1" by (auto simp: algebra_simps)
    finally show ?thesis by (auto simp: rng_def less_Suc_eq)
  qed
  have last: "d - 1 \<notin> rng ?D n"
    using Suc.prems(1) by (simp add: rng_def unat_of_nat)
  show ?case
  proof
    fix x
    show "copy_down m d s (Suc n) x = blit m (d - of_nat (Suc n)) (s - of_nat (Suc n)) (Suc n) x"
    proof (cases "x \<in> rng ?D n")
      case True
      then obtain j where j: "j < n" and x: "x = ?D + of_nat j"
        using Suc.prems(1) by (elim rng_of_nat) auto
      have "s - of_nat (n - j) \<noteq> d" using Suc.prems(2) [of "n - j"] j by simp
      then have "(m(d - 1 := m (s - 1))) (?S + of_nat j) = m (?S + of_nat j)"
        using j by (auto simp: of_nat_diff algebra_simps)
      with True x split show ?thesis
        by (simp add: IH blit_def diff_diff_add)
    next
      case False
      with split last show ?thesis
        by (auto simp: IH blit_def diff_diff_add)
    qed
  qed
qed

text \<open>
  \<^const>\<open>memmove\<close> chooses the direction so that no source byte is overwritten before it is read,
  provided that neither block runs over the top of the address space.
\<close>

lemma memmove_blit:
  assumes s: "unat src + unat n < 2 ^ 32" and d: "unat dst + unat n \<le> 2 ^ 32"
  shows "memmove m dst src n = blit m dst src (unat n)"
proof (cases "src < dst \<and> dst < src + n")
  case True
  have sn: "unat (src + n) = unat src + unat n" using s by (simp add: unat_plus_if')
  have "copy_down m (dst + n) (src + n) (unat n)
      = blit m (dst + n - of_nat (unat n)) (src + n - of_nat (unat n)) (unat n)"
  proof (rule copy_down_blit)
    show "unat n < 2 ^ 32" using u32_less [of n] by simp
    show "src + n - of_nat j \<noteq> dst + n" if j: "0 < j" "j < unat n" for j
    proof
      assume "src + n - of_nat j = dst + n"
      then have "of_nat j = src - dst" by (simp add: algebra_simps)
      moreover have "j < 2 ^ 32" using j u32_less [of n] by simp
      ultimately have "j = unat (src - dst)" by (simp add: of_nat32_eq)
      moreover have "unat (src - dst) = unat src + 2 ^ 32 - unat dst"
        using True by (simp add: unat_sub_if' word_less_nat_alt)
      ultimately show False using j d True sn by (simp add: word_less_nat_alt)
    qed
  qed
  with True show ?thesis by (simp add: memmove_def)
next
  case False
  have sn: "unat (src + n) = unat src + unat n" using s by (simp add: unat_plus_if')
  have "copy_up m dst src (unat n) = blit m dst src (unat n)"
  proof (rule copy_up_blit)
    show "unat n < 2 ^ 32" using u32_less [of n] by simp
    show "src + of_nat j \<noteq> dst" if j: "0 < j" "j < unat n" for j
    proof
      assume eq: "src + of_nat j = dst"
      have "unat (src + of_nat j) = unat src + j"
        using j s u32_less [of n] by (simp add: unat_plus_if')
      with eq have "unat dst = unat src + j" by simp
      with False sn j show False by (auto simp: word_less_nat_alt)
    qed
  qed
  with False show ?thesis by (auto simp: memmove_def)
qed

lemma blit_in: "x \<in> rng d n \<Longrightarrow> blit m d s n x = m (s + (x - d))"
  by (simp add: blit_def)

lemma blit_out: "x \<notin> rng d n \<Longrightarrow> blit m d s n x = m x"
  by (simp add: blit_def)

lemma memset_in: "x \<in> rng s (unat n) \<Longrightarrow> memset m s c n x = c"
  by (simp add: memset_def stosb_def rng_def)

lemma memset_out: "x \<notin> rng s (unat n) \<Longrightarrow> memset m s c n x = m x"
  by (simp add: memset_def stosb_def rng_def)

section \<open>NUL-terminated strings\<close>

primrec cstr :: "mem \<Rightarrow> u32 \<Rightarrow> u8 list \<Rightarrow> bool" where
  "cstr m a [] \<longleftrightarrow> m a = 0"
| "cstr m a (x # xs) \<longleftrightarrow> x \<noteq> 0 \<and> m a = x \<and> cstr m (a + 1) xs"

lemma cstr_unique: "cstr m a xs \<Longrightarrow> cstr m a ys \<Longrightarrow> xs = ys"
  by (induction xs arbitrary: a ys) (case_tac ys; auto)+

lemma cstr_nonzero: "cstr m a xs \<Longrightarrow> 0 \<notin> set xs"
  by (induction xs arbitrary: a) auto

lemma strlen_loop_cstr: "cstr m s xs \<Longrightarrow> strlen_loop m s len = Some (len + of_nat (length xs))"
  by (induction xs arbitrary: s len) (auto simp: strlen_loop.simps add_ac)

lemma strlen_cstr: "cstr m s xs \<Longrightarrow> strlen m s = Some (of_nat (length xs))"
  by (simp add: strlen_def strlen_loop_cstr)

text \<open>The order \<^const>\<open>strcmp\<close> decides: bytes compared as signed characters.\<close>

fun str_diff :: "u8 list \<Rightarrow> u8 list \<Rightarrow> int" where
  "str_diff [] [] = 0"
| "str_diff [] (y # ys) = - 1"
| "str_diff (x # xs) [] = 1"
| "str_diff (x # xs) (y # ys) = (if x = y then str_diff xs ys else sint x - sint y)"

lemma str_diff_0: "str_diff xs ys = 0 \<longleftrightarrow> xs = ys"
  by (induction xs ys rule: str_diff.induct) (auto simp: signed_word_eqI)

lemma strcmp_cstr: "cstr m s xs \<Longrightarrow> cstr m t ys \<Longrightarrow> strcmp m s t = Some (str_diff xs ys)"
  by (induction xs ys arbitrary: s t rule: str_diff.induct) (auto simp: strcmp.simps)

lemma cstr_frame:
  "\<forall>j \<le> length xs. m' (a + of_nat j) = m (a + of_nat j) \<Longrightarrow> cstr m' a xs = cstr m a xs"
proof (induction xs arbitrary: a)
  case Nil
  then show ?case by simp
next
  case (Cons x xs)
  have "\<forall>j \<le> length xs. m' (a + 1 + of_nat j) = m (a + 1 + of_nat j)"
  proof (intro allI impI)
    fix j
    assume "j \<le> length xs"
    with Cons.prems have "m' (a + of_nat (Suc j)) = m (a + of_nat (Suc j))"
      by (metis Suc_le_mono length_Cons)
    then show "m' (a + 1 + of_nat j) = m (a + 1 + of_nat j)" by (simp add: add.assoc)
  qed
  moreover have "m' a = m a" using Cons.prems [rule_format, of 0] by simp
  ultimately show ?case using Cons.IH by simp
qed

lemma strcpy_copy_up:
  assumes "cstr m s xs" and "\<forall>i \<le> length xs. \<forall>j \<le> length xs. d + of_nat i \<noteq> s + of_nat j"
  shows "strcpy m d s = Some (copy_up m d s (Suc (length xs)))"
  using assms
proof (induction xs arbitrary: m d s)
  case Nil
  then show ?case by (simp add: strcpy.simps fun_upd_def)
next
  case (Cons x xs)
  let ?m = "m(d := m s)"
  have sep: "d + of_nat i \<noteq> s + of_nat j" if "i \<le> Suc (length xs)" "j \<le> Suc (length xs)" for i j
    using Cons.prems(2) that by simp
  have "cstr ?m (s + 1) xs = cstr m (s + 1) xs"
  proof (rule cstr_frame, intro allI impI)
    fix j
    assume "j \<le> length xs"
    then have "d \<noteq> s + 1 + of_nat j" using sep [of 0 "Suc j"] by (simp add: add.assoc)
    then show "?m (s + 1 + of_nat j) = m (s + 1 + of_nat j)" by simp
  qed
  moreover have "\<forall>i \<le> length xs. \<forall>j \<le> length xs. d + 1 + of_nat i \<noteq> s + 1 + of_nat j"
    using sep by (simp add: le_SucI)
  ultimately have "strcpy ?m (d + 1) (s + 1) = Some (copy_up ?m (d + 1) (s + 1) (Suc (length xs)))"
    using Cons by simp
  moreover have "?m s \<noteq> 0" using Cons.prems(1) by simp
  ultimately show ?case by (subst strcpy.simps) (simp add: Let_def)
qed

lemma rng_disjoint_offsets:
  assumes "rng d n \<inter> rng s k = {}" "n \<le> 2 ^ 32" "k \<le> 2 ^ 32" "i < n" "j < k"
  shows "d + of_nat i \<noteq> s + of_nat j"
proof
  assume "d + of_nat i = s + of_nat j"
  moreover have "d + of_nat i \<in> rng d n" using assms by (simp add: rng_def)
  moreover have "s + of_nat j \<in> rng s k" using assms by (simp add: rng_def)
  ultimately show False using assms(1) by auto
qed

lemma strcpy_blit:
  assumes str: "cstr m s xs" and len: "Suc (length xs) < 2 ^ 32"
    and sep: "rng d (Suc (length xs)) \<inter> rng s (Suc (length xs)) = {}"
  shows "strcpy m d s = Some (blit m d s (Suc (length xs)))"
proof -
  have ne: "d + of_nat i \<noteq> s + of_nat j" if "i \<le> length xs" "j \<le> length xs" for i j
    using rng_disjoint_offsets [OF sep, of i j] len that by simp
  have "strcpy m d s = Some (copy_up m d s (Suc (length xs)))"
    using strcpy_copy_up [OF str] ne by simp
  also have "copy_up m d s (Suc (length xs)) = blit m d s (Suc (length xs))"
    using ne [of 0] len by (intro copy_up_blit) (auto simp: eq_commute [of _ d])
  finally show ?thesis .
qed

lemma blit_cstr:
  assumes "cstr m s xs" and "Suc (length xs) < 2 ^ 32"
  shows "cstr (blit m d s (Suc (length xs))) d xs"
proof -
  have shift: "\<forall>j \<le> length xs. m' (d + of_nat j) = m (s + of_nat j) \<Longrightarrow> cstr m s xs \<Longrightarrow> cstr m' d xs"
    for m' m :: mem and d s xs
  proof (induction xs arbitrary: d s)
    case Nil
    then show ?case by simp
  next
    case (Cons x xs)
    have "m' (d + 1 + of_nat j) = m (s + 1 + of_nat j)" if "j \<le> length xs" for j
      using Cons.prems(1) [rule_format, of "Suc j"] that by (simp add: add.assoc)
    moreover have "m' d = m s" using Cons.prems(1) [rule_format, of 0] by simp
    ultimately show ?case using Cons.IH [of "d + 1" "s + 1"] Cons.prems(2) by simp
  qed
  show ?thesis
    using assms by (intro shift [of xs _ d m s]) (auto simp: blit_def rng_def)
qed

lemma strncmp_0_iff:
  assumes "0 < k \<Longrightarrow> 0 < unat s \<and> unat s + k \<le> 2 ^ 32 \<and> 0 < unat t \<and> unat t + k \<le> 2 ^ 32"
  shows "strncmp m s t (int k) = 0 \<longleftrightarrow> (\<forall>j < k. m (s + of_nat j) = m (t + of_nat j))"
  using assms
proof (induction k arbitrary: s t)
  case 0
  show ?case by (simp add: strncmp.simps)
next
  case (Suc k)
  have st: "s \<noteq> 0" "t \<noteq> 0" using Suc.prems by auto
  have step: "strncmp m (s + 1) (t + 1) (int k) = 0
      \<longleftrightarrow> (\<forall>j < k. m (s + 1 + of_nat j) = m (t + 1 + of_nat j))"
    using Suc.prems by (intro Suc.IH) (auto simp: unat_plus_if')
  have "strncmp m s t (int (Suc k)) =
      (if m s = m t then strncmp m (s + 1) (t + 1) (int k) else sint (m s) - sint (m t))"
    using st by (simp add: strncmp.simps [of m s t "1 + int k"])
  then show ?case
    using step by (auto simp: All_less_Suc2 add.assoc signed_word_eqI)
qed

section \<open>Properties\<close>

text \<open>
  C19. \<^const>\<open>memmove\<close> is correct for overlapping blocks in both directions: if neither block
  passes the top of the address space, the destination holds exactly the bytes the source held
  before the call, and no byte outside the destination changes.
\<close>

theorem memmove_correct:
  assumes "unat src + unat n < 2 ^ 32" and "unat dst + unat n \<le> 2 ^ 32"
  shows "(\<forall>i < unat n. memmove m dst src n (dst + of_nat i) = m (src + of_nat i)) \<and>
    (\<forall>x. x \<notin> rng dst (unat n) \<longrightarrow> memmove m dst src n x = m x)"
proof -
  have "dst + of_nat i \<in> rng dst (unat n)" if "i < unat n" for i
    using that u32_less [of n] by (simp add: rng_def)
  then show ?thesis by (simp add: memmove_blit [OF assms] blit_def)
qed

theorem memmove_correct_witness:
  "map (memmove (\<lambda>x. ucast x) 102 100 4) [101, 102, 103, 104, 105, 106] = [101, 100, 101, 102, 103, 106]"
proof -
  have h: "unat (100 :: u32) + unat (4 :: u32) < 2 ^ 32"
    "unat (102 :: u32) + unat (4 :: u32) \<le> 2 ^ 32" by simp_all
  note c = memmove_correct [OF h, of "\<lambda>x. ucast x"]
  have "(106 :: u32) \<notin> rng 102 (unat (4 :: u32))" "(101 :: u32) \<notin> rng 102 (unat (4 :: u32))"
    by (simp_all add: rng_def)
  moreover have "memmove (\<lambda>x. ucast x) 102 100 4 (102 + of_nat i) = ucast (100 + of_nat i :: u32)" if "i < 4" for i
    using c that by simp
  note this [of 0] this [of 1] this [of 2] this [of 3]
  ultimately show ?thesis using c by simp
qed

text \<open>
  C20. \<^const>\<open>strcpy\<close> returns on every NUL-terminated source string that does not overlap the
  destination; the copy compares equal to the source under \<^const>\<open>strcmp\<close>, has the same
  \<^const>\<open>strlen\<close>, and no byte outside the \<open>length xs + 1\<close> bytes at the destination changes.
\<close>

theorem strcpy_roundtrip:
  assumes str: "cstr m s xs" and len: "Suc (length xs) < 2 ^ 32"
    and sep: "rng d (Suc (length xs)) \<inter> rng s (Suc (length xs)) = {}"
  shows "\<exists>m'. strcpy m d s = Some m' \<and> strcmp m' d s = Some 0
    \<and> strlen m' d = Some (of_nat (length xs))
    \<and> (\<forall>x. x \<notin> rng d (Suc (length xs)) \<longrightarrow> m' x = m x)"
proof -
  let ?m = "blit m d s (Suc (length xs))"
  have out: "\<forall>x. x \<notin> rng d (Suc (length xs)) \<longrightarrow> ?m x = m x" by (simp add: blit_out)
  have "\<forall>j \<le> length xs. ?m (s + of_nat j) = m (s + of_nat j)"
  proof (intro allI impI)
    fix j
    assume "j \<le> length xs"
    then have "s + of_nat j \<in> rng s (Suc (length xs))" using len by (simp add: rng_def)
    with sep out show "?m (s + of_nat j) = m (s + of_nat j)" by blast
  qed
  then have "cstr ?m s xs" using str by (rule cstr_frame [THEN iffD2])
  moreover have "cstr ?m d xs" using blit_cstr [OF str len] .
  ultimately show ?thesis
    using strcpy_blit [OF str len sep] out by (auto simp: strcmp_cstr str_diff_0 strlen_cstr)
qed

theorem strcpy_roundtrip_witness:
  "\<exists>m'. strcpy ((\<lambda>_. 7)(10 := 65, 11 := 66, 12 := 0)) 20 10 = Some m'
    \<and> strcmp m' 20 10 = Some 0 \<and> strlen m' 20 = Some 2
    \<and> (\<forall>x. x \<notin> rng 20 3 \<longrightarrow> m' x = ((\<lambda>_. 7)(10 := 65, 11 := 66, 12 := 0)) x)"
proof -
  have str: "cstr ((\<lambda>_. 7)(10 := 65, 11 := 66, 12 := 0)) 10 [65, 66]" by simp
  have len: "Suc (length [65, 66 :: u8]) < 2 ^ 32" by simp
  have sep: "rng 20 (Suc (length [65, 66 :: u8])) \<inter> rng 10 (Suc (length [65, 66 :: u8])) = {}"
    by (rule rng_disjointI) simp_all
  have n: "Suc (length [65, 66 :: u8]) = 3" "of_nat (length [65, 66 :: u8]) = (2 :: u32)"
    by simp_all
  show ?thesis using strcpy_roundtrip [OF str len sep] unfolding n .
qed

text \<open>
  \<^const>\<open>strncmp\<close> with a count of \<open>k\<close> compares exactly \<open>k\<close> bytes: it returns 0 if and only
  if the two blocks of \<open>k\<close> bytes are equal, whether or not a NUL byte occurs among them. (The
  ISO function stops at a common NUL.) The blocks must not start at address 0 nor pass the top of
  the address space.
\<close>

theorem strncmp_compares_blocks:
  assumes "0 < unat s" "unat s + k \<le> 2 ^ 32" "0 < unat t" "unat t + k \<le> 2 ^ 32"
  shows "strncmp m s t (int k) = 0 \<longleftrightarrow> (\<forall>j < k. m (s + of_nat j) = m (t + of_nat j))"
  using assms by (intro strncmp_0_iff) simp

theorem strncmp_compares_blocks_witness:
  "strncmp ((\<lambda>_. 0)(10 := 65, 12 := 9, 20 := 65, 22 := 8)) 10 20 (int 3) \<noteq> 0"
proof -
  have h: "0 < unat (10 :: u32)" "unat (10 :: u32) + 3 \<le> 2 ^ 32"
    "0 < unat (20 :: u32)" "unat (20 :: u32) + 3 \<le> 2 ^ 32" by simp_all
  let ?m = "(\<lambda>_ :: u32. 0 :: u8)(10 := 65, 12 := 9, 20 := 65, 22 := 8)"
  have "?m (10 + of_nat 2) \<noteq> ?m (20 + of_nat 2)" by simp
  then have "\<not> (\<forall>j < 3. ?m (10 + of_nat j) = ?m (20 + of_nat j))"
    by (auto simp del: fun_upd_apply intro!: exI [of _ 2])
  then show ?thesis using strncmp_compares_blocks [OF h, of ?m] by blast
qed

end
