(* ===== verification/Kern_Mm.thy ===== *)
theory Kern_Mm
  imports Kern_String
begin

text \<open>
  Physical pages and page tables: \<^verbatim>\<open>inc/mmu.h\<close> and \<^verbatim>\<open>kern/mm.c\<close>. The state is the kernel's
  view of memory together with the file's globals. Free pages, page directories and page tables
  live in that memory, as they do in the C code: the free list is threaded through the first word
  of each free page, and a page-table entry is a 32-bit word at a computed address.
\<close>

section \<open>Addresses and page-table entries (\<^verbatim>\<open>inc/mmu.h\<close>)\<close>

abbreviation PGSIZE :: u32 where "PGSIZE \<equiv> 4096"
abbreviation EXTMEM :: u32 where "EXTMEM \<equiv> 0x100000"
abbreviation KERNBASE :: u32 where "KERNBASE \<equiv> 0x80000000"
abbreviation KERNLINK :: u32 where "KERNLINK \<equiv> KERNBASE + EXTMEM"
abbreviation USTACKTOP :: u32 where "USTACKTOP \<equiv> KERNBASE"

abbreviation PTE_P :: u32 where "PTE_P \<equiv> 1"
abbreviation PTE_W :: u32 where "PTE_W \<equiv> 2"
abbreviation PTE_U :: u32 where "PTE_U \<equiv> 4"

definition PTX :: "u32 \<Rightarrow> u32" where
  "PTX va = drop_bit 12 va AND 0x3ff"

definition PDX :: "u32 \<Rightarrow> u32" where
  "PDX va = drop_bit 22 va AND 0x3ff"

definition PGADDR :: "u32 \<Rightarrow> u32 \<Rightarrow> u32 \<Rightarrow> u32" where
  "PGADDR d t f = push_bit 22 d OR push_bit 12 t OR f"

definition PTE_ADDR :: "u32 \<Rightarrow> u32" where
  "PTE_ADDR pte = pte AND NOT 0xFFF"

definition PTE_FLAGS :: "u32 \<Rightarrow> u32" where
  "PTE_FLAGS pte = pte AND 0xFFF"

definition V2P :: "u32 \<Rightarrow> u32" where
  "V2P a = a - KERNBASE"

definition P2V :: "u32 \<Rightarrow> u32" where
  "P2V a = a + KERNBASE"

definition PGROUNDUP :: "u32 \<Rightarrow> u32" where
  "PGROUNDUP a = (a + PGSIZE - 1) AND NOT (PGSIZE - 1)"

definition PGROUNDDOWN :: "u32 \<Rightarrow> u32" where
  "PGROUNDDOWN a = a AND NOT (PGSIZE - 1)"

section \<open>The state of \<^verbatim>\<open>mm.c\<close>\<close>

text \<open>
  \<open>cr3\<close> is the register \<^verbatim>\<open>lcr3\<close> loads; \<open>data\<close> is the linker symbol of \<^verbatim>\<open>kernel.ld\<close>. Address 0
  is \<^verbatim>\<open>NULL\<close>.
\<close>

record mm =
  mem :: mem
  free_list :: u32
  memsz :: u32
  mem_start :: u32
  kpgdir :: u32
  cr3 :: u32

subsection \<open>The page allocator\<close>

definition kalloc_page :: "mm \<Rightarrow> u32 \<times> mm" where
  "kalloc_page s =
     (let fp = free_list s
      in if fp \<noteq> 0 then (fp, s\<lparr>free_list := ld32 (mem s) fp\<rparr>) else (fp, s))"

definition kfree_page :: "u32 \<Rightarrow> mm \<Rightarrow> mm res" where
  "kfree_page v s =
     (if v mod PGSIZE \<noteq> 0 \<or> v < mem_start s \<or> v > V2P (memsz s * 1024)
      then Inl (Panic ''kfree_page'')
      else Inr (s\<lparr>mem := st32 (memset (mem s) v 1 PGSIZE) v (free_list s), free_list := v\<rparr>))"

partial_function (option) kfree_range_loop :: "u32 \<Rightarrow> u32 \<Rightarrow> mm \<Rightarrow> mm res option" where
  "kfree_range_loop p e s =
     (if p + PGSIZE \<le> e
      then (case kfree_page p s of
              Inl err \<Rightarrow> Some (Inl err)
            | Inr s' \<Rightarrow> kfree_range_loop (p + PGSIZE) e s')
      else Some (Inr s))"

definition kfree_range :: "u32 \<Rightarrow> u32 \<Rightarrow> mm \<Rightarrow> mm res" where
  "kfree_range start e s = ended ''kfree_range'' (kfree_range_loop (PGROUNDUP start) e s)"

definition kinit :: "u32 \<Rightarrow> u32 \<Rightarrow> mm \<Rightarrow> mm res" where
  "kinit vastart vaend s = kfree_range vastart vaend s"

subsection \<open>Page tables\<close>

definition pgdir_walk :: "u32 \<Rightarrow> u32 \<Rightarrow> bool \<Rightarrow> mm \<Rightarrow> u32 \<times> mm" where
  "pgdir_walk pgdir va alloc s =
     (let pde = pgdir + 4 * PDX va
      in if ld32 (mem s) pde AND PTE_P \<noteq> 0
         then (P2V (PTE_ADDR (ld32 (mem s) pde)) + 4 * PTX va, s)
         else if \<not> alloc then (0, s)
         else (let (pte, s1) = kalloc_page s
               in if pte = 0 then (0, s1)
                  else (pte + 4 * PTX va,
                        s1\<lparr>mem := st32 (memset (mem s1) pte 0 PGSIZE) pde
                             (PTE_ADDR (V2P pte) OR PTE_U OR PTE_W OR PTE_P)\<rparr>)))"

partial_function (option) mappages_loop ::
    "u32 \<Rightarrow> u32 \<Rightarrow> u32 \<Rightarrow> u32 \<Rightarrow> u32 \<Rightarrow> mm \<Rightarrow> (int \<times> mm) res option" where
  "mappages_loop pgdir va e pa perm s =
     (if va \<le> e
      then (case pgdir_walk pgdir va True s of (pte, s1) \<Rightarrow>
              if pte = 0 then Some (Inr (- 1, s1))
              else if ld32 (mem s1) pte AND PTE_P \<noteq> 0
              then Some (Inl (Panic ''mappages: re-map''))
              else mappages_loop pgdir (va + PGSIZE) e (pa + PGSIZE) perm
                     (s1\<lparr>mem := st32 (mem s1) pte (PTE_ADDR pa OR perm OR PTE_P)\<rparr>))
      else Some (Inr (0, s)))"

definition mappages :: "u32 \<Rightarrow> u32 \<Rightarrow> u32 \<Rightarrow> u32 \<Rightarrow> u32 \<Rightarrow> mm \<Rightarrow> (int \<times> mm) res" where
  "mappages pgdir va pa sz perm s =
     ended ''mappages''
       (mappages_loop pgdir (PGROUNDDOWN va) (PGROUNDDOWN (va + sz - 1)) pa perm s)"

definition unmap_page :: "u32 \<Rightarrow> u32 \<Rightarrow> mm \<Rightarrow> mm res" where
  "unmap_page pgdir va s =
     (case pgdir_walk pgdir va False s of (pte, s1) \<Rightarrow>
        if pte = 0 then Inl (Panic ''unmap_page: not mapped'')
        else if ld32 (mem s1) pte AND PTE_P = 0 then Inl (Panic ''unmap_page: not present'')
        else kfree_page (V2P (PTE_ADDR (ld32 (mem s1) pte))) (s1\<lparr>mem := st32 (mem s1) pte 0\<rparr>))"

definition mapkvm :: "u32 \<Rightarrow> mm \<Rightarrow> (u32 \<times> mm) res" where
  "mapkvm data s =
     (case kalloc_page s of (pgdir, s1) \<Rightarrow>
        if pgdir = 0 then Inr (0, s1)
        else bnd (mappages pgdir KERNBASE 0 EXTMEM PTE_W
                    (s1\<lparr>mem := memset (mem s1) pgdir 0 PGSIZE\<rparr>)) (\<lambda>(r1, s2).
          if r1 < 0 then Inr (0, s2)
          else bnd (mappages pgdir KERNLINK (V2P KERNLINK) (data - KERNLINK) 0 s2) (\<lambda>(r2, s3).
          if r2 < 0 then Inr (0, s3)
          else bnd (mappages pgdir data (V2P data) (memsz s3 * 1024 - V2P data) PTE_W s3)
                 (\<lambda>(r3, s4). if r3 < 0 then Inr (0, s4) else Inr (pgdir, s4)))))"

definition setupkvm :: "u32 \<Rightarrow> mm \<Rightarrow> mm res" where
  "setupkvm data s =
     bnd (mapkvm data s) (\<lambda>(d, s1).
       if d = 0 then Inl (Panic ''kpgdir is NULL!'')
       else Inr (s1\<lparr>kpgdir := d, cr3 := V2P d\<rparr>))"

partial_function (option) region_alloc_loop ::
    "u32 \<Rightarrow> u32 \<Rightarrow> u32 \<Rightarrow> u32 \<Rightarrow> mm \<Rightarrow> mm res option" where
  "region_alloc_loop pgdir va va_end perm s =
     (if va < va_end
      then (case pgdir_walk pgdir va True s of (pte, s1) \<Rightarrow>
              if pte = 0 then Some (Inl (Panic ''region_alloc failed!''))
              else if ld32 (mem s1) pte AND PTE_P \<noteq> 0
              then region_alloc_loop pgdir (va + PGSIZE) va_end perm s1
              else (case kalloc_page s1 of (p, s2) \<Rightarrow>
                      if p = 0 then Some (Inl (Panic ''region_alloc failed!''))
                      else region_alloc_loop pgdir (va + PGSIZE) va_end perm
                             (s2\<lparr>mem := st32 (mem s2) pte
                                (PTE_ADDR (V2P p) OR perm OR PTE_P)\<rparr>)))
      else Some (Inr s))"

definition region_alloc :: "u32 \<Rightarrow> u32 \<Rightarrow> u32 \<Rightarrow> u32 \<Rightarrow> mm \<Rightarrow> mm res" where
  "region_alloc pgdir va len perm s =
     ended ''region_alloc''
       (region_alloc_loop pgdir (PGROUNDDOWN va) (PGROUNDUP (va + len)) perm s)"

text \<open>\<^verbatim>\<open>free_vm\<close>: the loop over the 1024 directory entries, \<open>k\<close> of them left.\<close>

primrec free_vm_loop :: "u32 \<Rightarrow> nat \<Rightarrow> mm \<Rightarrow> mm res" where
  "free_vm_loop pgdir 0 s = Inr s"
| "free_vm_loop pgdir (Suc k) s =
     (let pde = ld32 (mem s) (pgdir + 4 * of_nat (1024 - Suc k))
      in if pde AND PTE_P \<noteq> 0
         then bnd (kfree_page (P2V (PTE_ADDR pde)) s) (free_vm_loop pgdir k)
         else free_vm_loop pgdir k s)"

definition dealloc_uvm :: "u32 \<Rightarrow> u32 \<Rightarrow> u32 \<Rightarrow> mm \<Rightarrow> int \<times> mm" where
  "dealloc_uvm pgdir oldsz newsz s = (0, s)"

definition free_vm :: "u32 \<Rightarrow> mm \<Rightarrow> mm res" where
  "free_vm pgdir s =
     (if pgdir = 0 then Inl (Panic ''free_vm: pgdir is NULL'')
      else case dealloc_uvm pgdir KERNBASE 0 s of (_, s1) \<Rightarrow>
        bnd (free_vm_loop pgdir 1024 s1) (kfree_page pgdir))"

text \<open>\<open>cur\<close> is \<^verbatim>\<open>current->pgdir\<close>.\<close>

definition copy_page :: "u32 \<Rightarrow> u32 \<Rightarrow> u32 \<Rightarrow> mm \<Rightarrow> (u32 \<times> mm) res" where
  "copy_page cur pgdir addr s =
     (case pgdir_walk cur addr False s of (pte, s0) \<Rightarrow>
        if pte = 0 then Inl (Panic ''copy_page: pte doesn't exist'')
        else if ld32 (mem s0) pte AND PTE_P = 0
        then Inl (Panic ''copy_page: page doesn't present'')
        else (let pa = PTE_ADDR (ld32 (mem s0) pte); flags = PTE_FLAGS (ld32 (mem s0) pte)
              in case kalloc_page s0 of (mm, s1) \<Rightarrow>
                if mm = 0 then Inr (0, s1)
                else bnd (mappages pgdir addr (V2P mm) PGSIZE flags
                            (s1\<lparr>mem := memmove (mem s1) mm (P2V pa) PGSIZE\<rparr>)) (\<lambda>(r, s2).
                  if r < 0 then bnd (kfree_page mm s2) (\<lambda>s3. Inr (0, s3))
                  else Inr (pgdir, s2))))"

partial_function (option) copy_uvm_loop ::
    "u32 \<Rightarrow> u32 \<Rightarrow> u32 \<Rightarrow> u32 \<Rightarrow> mm \<Rightarrow> (u32 \<times> mm) res option" where
  "copy_uvm_loop pgdir pde sz i s =
     (if i < sz
      then (case pgdir_walk pgdir i False s of (pte, s0) \<Rightarrow>
        if pte = 0 then Some (Inl (Panic ''copy_uvm: pte doesn't exist''))
        else if ld32 (mem s0) pte AND PTE_P = 0
        then copy_uvm_loop pgdir pde sz (i + PGSIZE) s0
        else (let pa = PTE_ADDR (ld32 (mem s0) pte); flags = PTE_FLAGS (ld32 (mem s0) pte)
              in case kalloc_page s0 of (mm, s1) \<Rightarrow>
                if mm = 0 then Some (bnd (free_vm pde s1) (\<lambda>s2. Inr (0, s2)))
                else (case mappages pde i (V2P mm) PGSIZE flags
                             (s1\<lparr>mem := memmove (mem s1) mm (P2V pa) PGSIZE\<rparr>) of
                        Inl err \<Rightarrow> Some (Inl err)
                      | Inr (r, s2) \<Rightarrow>
                          if r < 0 then Some (bnd (free_vm pde s2) (\<lambda>s3. Inr (0, s3)))
                          else copy_uvm_loop pgdir pde sz (i + PGSIZE) s2)))
      else Some (Inr (pde, s)))"

definition copy_uvm :: "u32 \<Rightarrow> u32 \<Rightarrow> u32 \<Rightarrow> mm \<Rightarrow> (u32 \<times> mm) res" where
  "copy_uvm data pgdir sz s =
     bnd (mapkvm data s) (\<lambda>(pde, s1).
       if pde = 0 then Inr (0, s1)
       else ended ''copy_uvm'' (copy_uvm_loop pgdir pde sz 0 s1))"

definition uva2ka :: "u32 \<Rightarrow> u32 \<Rightarrow> mm \<Rightarrow> u32 res" where
  "uva2ka pgdir uva s =
     (case pgdir_walk pgdir uva False s of (pte, _) \<Rightarrow>
        if pte = 0 then Inl (Fault ''uva2ka: NULL pte'')
        else if ld32 (mem s) pte AND PTE_P = 0 then Inr 0
        else if ld32 (mem s) pte AND PTE_U = 0 then Inr 0
        else Inr (P2V (PTE_ADDR (ld32 (mem s) pte))))"

lemma page_offset_less: "(va :: u32) - PGROUNDDOWN va < 4096"
proof -
  have "va - (va AND NOT 0xFFF) = va AND 0xFFF"
    by (subst disjunctive_diff_eq_and_not) (auto simp: bit_eq_iff bit_simps)
  also have "\<dots> \<le> 0xFFF" by (rule word_and_le1)
  finally show ?thesis by (simp add: PGROUNDDOWN_def word_le_nat_alt word_less_nat_alt)
qed

function copyout :: "u32 \<Rightarrow> u32 \<Rightarrow> u32 \<Rightarrow> u32 \<Rightarrow> mm \<Rightarrow> (int \<times> mm) res" where
  "copyout pgdir va buf len s =
     (if len = 0 then Inr (0, s)
      else let va0 = PGROUNDDOWN va in
        bnd (uva2ka pgdir va0 s) (\<lambda>pa0.
          if pa0 = 0 then Inr (- 1, s)
          else let n = min (PGSIZE - (va - va0)) len in
            copyout pgdir (va0 + PGSIZE) (buf + n) (len - n)
              (s\<lparr>mem := memmove (mem s) (pa0 + (va - va0)) buf n\<rparr>)))"
  by pat_completeness auto
termination copyout
proof (relation "measure (\<lambda>(pgdir, va, buf, len, s). unat len)"; clarsimp)
  fix va len :: u32
  assume len: "len \<noteq> 0"
  have "0 < (4096 :: u32) - (va - PGROUNDDOWN va)"
    using page_offset_less [of va] by (simp add: word_gt_0 eq_diff_eq)
  then have "0 < min (4096 - (va - PGROUNDDOWN va)) len" using len by (simp add: word_gt_0)
  moreover have "0 < unat len" using len by (simp add: unat_gt_0)
  ultimately show "unat (len - min (4096 - (va - PGROUNDDOWN va)) len) < unat len"
    by (simp add: unat_sub word_less_nat_alt)
qed

declare copyout.simps [simp del]

subsection \<open>Start-up\<close>

text \<open>
  The CMOS answers through the ports 0x70 and 0x71; \<open>cmos\<close> is the function from a register to the
  byte read.
\<close>

definition detect_mem :: "(u32 \<Rightarrow> u8) \<Rightarrow> u32" where
  "detect_mem cmos = ucast (cmos 0x17) OR push_bit 8 (ucast (cmos 0x18))"

definition mem_init1 :: "(u32 \<Rightarrow> u8) \<Rightarrow> u32 \<Rightarrow> u32 \<Rightarrow> mm \<Rightarrow> mm res" where
  "mem_init1 cmos start sz s =
     kinit start (P2V (4 * 1024 * 1024))
       (s\<lparr>mem_start := start, memsz := (if sz \<noteq> 0 then sz else detect_mem cmos + 1024)\<rparr>)"

definition mem_init2 :: "mm \<Rightarrow> mm res" where
  "mem_init2 s = kinit (P2V (4 * 1024 * 1024)) (P2V (memsz s * 1024)) s"

section \<open>Address arithmetic\<close>

text \<open>
  On a 32-bit machine with the kernel at 2 GB, subtracting and adding the base agree. This is why
  \<^verbatim>\<open>unmap_page\<close>, \<^verbatim>\<open>kfree_page\<close> and \<^verbatim>\<open>task_run\<close> work although they name the conversion of the
  other direction.
\<close>

lemma V2P_eq_P2V: "V2P a = P2V a"
  by (simp add: V2P_def P2V_def)

lemma P2V_V2P [simp]: "P2V (V2P a) = a" "V2P (P2V a) = a" "P2V (P2V a) = a" "V2P (V2P a) = a"
  by (simp_all add: V2P_def P2V_def)

lemma P2V_inj [simp]: "P2V a = P2V b \<longleftrightarrow> a = b"
  by (simp add: P2V_def)

lemma and_low: "(a :: u32) AND 0xFFF = a mod 4096"
proof -
  have "a AND 0xFFF = take_bit 12 a" by (simp add: take_bit_eq_mask mask_eq_exp_minus_1)
  then show ?thesis by (simp add: take_bit_eq_mod)
qed

lemma and_not_low: "(a :: u32) AND NOT 0xFFF = a - a mod 4096"
proof -
  have "a - (a AND 0xFFF) = a AND NOT (a AND 0xFFF)"
    by (rule disjunctive_diff_eq_and_not) (auto simp: bit_eq_iff bit_simps)
  also have "\<dots> = a AND NOT 0xFFF" by (auto simp: bit_eq_iff bit_simps)
  finally show ?thesis by (simp only: and_low)
qed

lemma PTE_ADDR_eq: "PTE_ADDR a = a - a mod 4096"
  unfolding PTE_ADDR_def by (rule and_not_low)

lemma PTE_FLAGS_eq: "PTE_FLAGS a = a mod 4096"
  unfolding PTE_FLAGS_def by (rule and_low)

lemma PGROUNDDOWN_eq: "PGROUNDDOWN a = PTE_ADDR a"
  by (simp add: PGROUNDDOWN_def PTE_ADDR_def)

lemma PGROUNDUP_eq: "PGROUNDUP a = PTE_ADDR (a + 4095)"
  by (simp add: PGROUNDUP_def PTE_ADDR_def add.commute)

lemma unat_PTE_ADDR: "unat (PTE_ADDR a) = unat a div 4096 * 4096"
proof -
  have "unat (PTE_ADDR a) = unat a - unat a mod 4096"
    unfolding PTE_ADDR_eq by (simp add: unat_sub_if' unat_mod)
  then show ?thesis by (simp add: minus_mod_eq_div_mult)
qed

lemma unat_PDX: "unat (PDX va) = unat va div 4194304"
proof -
  have "PDX va = take_bit 10 (drop_bit 22 va)"
    by (simp add: PDX_def take_bit_eq_mask mask_eq_exp_minus_1)
  then have "unat (PDX va) = unat va div 4194304 mod 1024"
    by (simp add: unat_div unat_mod take_bit_eq_mod drop_bit_eq_div)
  with u32_less [of va] show ?thesis by simp
qed

lemma unat_PTX: "unat (PTX va) = unat va div 4096 mod 1024"
proof -
  have "PTX va = take_bit 10 (drop_bit 12 va)"
    by (simp add: PTX_def take_bit_eq_mask mask_eq_exp_minus_1)
  then show ?thesis
    by (simp add: unat_div unat_mod take_bit_eq_mod drop_bit_eq_div)
qed

lemma unat_PGROUNDUP: "unat a \<le> 4294963200 \<Longrightarrow> unat (PGROUNDUP a) = (unat a + 4095) div 4096 * 4096"
  by (simp add: PGROUNDUP_eq unat_PTE_ADDR unat_plus_if')

definition aligned :: "u32 \<Rightarrow> bool" where
  "aligned a \<longleftrightarrow> a mod PGSIZE = 0"

lemma aligned_unat: "aligned a \<longleftrightarrow> unat a mod 4096 = 0"
proof -
  have "a mod 4096 = 0 \<longleftrightarrow> unat (a mod 4096) = 0" by (simp add: unat_eq_zero)
  then show ?thesis by (simp add: aligned_def unat_mod)
qed

lemma aligned_add: "aligned b \<Longrightarrow> aligned (a + b) \<longleftrightarrow> aligned a"
proof -
  assume "aligned b"
  then have b: "unat b mod 4096 = 0" by (simp add: aligned_unat)
  have "unat (a + b) mod 4096 = (unat a + unat b) mod 4294967296 mod 4096"
    by (simp add: unat_word_ariths)
  also have "\<dots> = (unat a + unat b) mod 4096" by (simp add: mod_mod_cancel)
  also have "\<dots> = unat a mod 4096" using b by (metis add.right_neutral mod_add_right_eq)
  finally show ?thesis by (simp add: aligned_unat)
qed

lemma aligned_const [simp]: "aligned 0" "aligned 4096" "aligned 0x80000000"
  by (simp_all add: aligned_def)

lemma aligned_P2V [simp]: "aligned (P2V a) \<longleftrightarrow> aligned a"
  by (simp add: P2V_def aligned_add)

lemma aligned_V2P [simp]: "aligned (V2P a) \<longleftrightarrow> aligned a"
  by (simp add: V2P_eq_P2V)

lemma aligned_step [simp]: "aligned (a + 4096) \<longleftrightarrow> aligned a"
  by (simp add: aligned_add)

lemma aligned_PTE_ADDR [simp]: "aligned (PTE_ADDR a)"
  by (simp add: aligned_unat unat_PTE_ADDR)

lemma PTE_ADDR_aligned [simp]: "aligned a \<Longrightarrow> PTE_ADDR a = a"
  by (simp add: aligned_def PTE_ADDR_eq)

lemma aligned_room: "aligned p \<Longrightarrow> unat p + 4096 \<le> 4294967296"
proof -
  assume "aligned p"
  then obtain k where k: "unat p = 4096 * k" by (auto simp: aligned_unat)
  with u32_less [of p] have "k < 1048576" by simp
  with k show ?thesis by simp
qed

section \<open>Words of pages\<close>

lemma unat_slot: "aligned p \<Longrightarrow> unat i < 1024 \<Longrightarrow> unat (p + 4 * i) = unat p + 4 * unat i"
  using aligned_room [of p] by (simp add: unat_plus_if' unat_mult_lem [THEN iffD1])

lemma slot_in_page: "aligned p \<Longrightarrow> unat i < 1024 \<Longrightarrow> rng (p + 4 * i) 4 \<subseteq> rng p 4096"
  using aligned_room [of p] by (auto simp: rng_iff unat_slot)

lemma slot_disjoint:
  "aligned p \<Longrightarrow> unat i < 1024 \<Longrightarrow> unat j < 1024 \<Longrightarrow> i \<noteq> j \<Longrightarrow>
   rng (p + 4 * i) 4 \<inter> rng (p + 4 * j) 4 = {}"
proof -
  assume "aligned p" "unat i < 1024" "unat j < 1024" "i \<noteq> j"
  moreover from \<open>i \<noteq> j\<close> have "unat i \<noteq> unat j" by (simp add: u32_eq_iff)
  ultimately show ?thesis
    using aligned_room [of p] by (intro rng_disjointI) (auto simp: unat_slot)
qed

lemma page_disjoint: "aligned p \<Longrightarrow> aligned q \<Longrightarrow> p \<noteq> q \<Longrightarrow> rng p 4096 \<inter> rng q 4096 = {}"
proof -
  assume al: "aligned p" "aligned q" and ne: "p \<noteq> q"
  from al obtain j k where jk: "unat p = 4096 * j" "unat q = 4096 * k"
    by (auto simp: aligned_unat elim!: dvdE)
  with ne have "j \<noteq> k" by (auto simp: u32_eq_iff)
  then have "j + 1 \<le> k \<or> k + 1 \<le> j" by auto
  with jk al show ?thesis
    using aligned_room [of p] aligned_room [of q] by (intro rng_disjointI) auto
qed

lemma ld_st_slot [mem_simps]:
  assumes "aligned p" "aligned q" "unat i < 1024" "unat j < 1024"
  shows "ld32 (st32 m (p + 4 * i) v) (q + 4 * j)
    = (if p = q \<and> i = j then v else ld32 m (q + 4 * j))"
proof (cases "p = q \<and> i = j")
  case True
  then show ?thesis by simp
next
  case False
  have "rng (p + 4 * i) 4 \<inter> rng (q + 4 * j) 4 = {}"
  proof (cases "p = q")
    case True
    with False assms slot_disjoint show ?thesis by blast
  next
    case ne: False
    with assms page_disjoint [of p q] slot_in_page [of p i] slot_in_page [of q j]
    show ?thesis by blast
  qed
  with False show ?thesis by (auto simp: ld32_st32_disj)
qed

lemma ld32_memset_0: "rng a 4 \<subseteq> rng p (unat n) \<Longrightarrow> ld32 (memset m p 0 n) a = 0"
proof -
  assume sub: "rng a 4 \<subseteq> rng p (unat n)"
  have "ld32 (memset m p 0 n) a = ld32 (\<lambda>_. 0) a"
    by (rule ld32_cong) (use sub in \<open>auto intro!: memset_in\<close>)
  then show ?thesis by (simp add: ld32_def)
qed

lemma ld32_memset_out: "rng a 4 \<inter> rng p (unat n) = {} \<Longrightarrow> ld32 (memset m p c n) a = ld32 m a"
  by (rule ld32_cong) (auto intro!: memset_out)

lemma ld_memset_slot [mem_simps]:
  assumes "aligned p" "aligned q" "unat j < 1024"
  shows "ld32 (memset m p 0 PGSIZE) (q + 4 * j) = (if p = q then 0 else ld32 m (q + 4 * j))"
proof (cases "p = q")
  case True
  then show ?thesis using assms slot_in_page [of q j] by (simp add: ld32_memset_0)
next
  case False
  then have "rng (q + 4 * j) 4 \<inter> rng p (unat PGSIZE) = {}"
    using assms page_disjoint [of p q] slot_in_page [of q j] by auto
  with False show ?thesis by (simp add: ld32_memset_out)
qed

section \<open>The free list\<close>

primrec flist :: "mem \<Rightarrow> u32 \<Rightarrow> u32 list \<Rightarrow> bool" where
  "flist m p [] \<longleftrightarrow> p = 0"
| "flist m p (x # xs) \<longleftrightarrow> p \<noteq> 0 \<and> x = p \<and> flist m (ld32 m p) xs"

lemma flist_frame: "(\<And>p. p \<in> set ps \<Longrightarrow> ld32 m' p = ld32 m p) \<Longrightarrow> flist m' a ps = flist m a ps"
  by (induction ps arbitrary: a) auto

lemma flist_nonnull: "flist m a ps \<Longrightarrow> 0 \<notin> set ps"
  by (induction ps arbitrary: a) auto

lemma flist_unique: "flist m a ps \<Longrightarrow> flist m a qs \<Longrightarrow> ps = qs"
  by (induction ps arbitrary: a qs) (case_tac qs; auto)+

definition page_ok :: "mm \<Rightarrow> u32 \<Rightarrow> bool" where
  "page_ok s p \<longleftrightarrow> p \<noteq> 0 \<and> aligned p \<and> mem_start s \<le> p \<and> p \<le> V2P (memsz s * 1024)"

definition free_inv :: "mm \<Rightarrow> u32 list \<Rightarrow> bool" where
  "free_inv s ps \<longleftrightarrow> flist (mem s) (free_list s) ps \<and> distinct ps \<and> (\<forall>p \<in> set ps. page_ok s p)"

lemma free_invD:
  assumes "free_inv s ps"
  shows "distinct ps" and "p \<in> set ps \<Longrightarrow> aligned p" and "p \<in> set ps \<Longrightarrow> page_ok s p"
    and "0 \<notin> set ps"
  using assms by (auto simp: free_inv_def page_ok_def)

lemma page_ok_simps [simp]:
  "page_ok (s\<lparr>mem := m\<rparr>) p = page_ok s p" "page_ok (s\<lparr>free_list := a\<rparr>) p = page_ok s p"
  by (simp_all add: page_ok_def)

lemma kalloc_page_Nil: "free_inv s [] \<Longrightarrow> kalloc_page s = (0, s)"
  by (simp add: free_inv_def kalloc_page_def)

lemma kalloc_page_Cons:
  "free_inv s (p # ps) \<Longrightarrow> kalloc_page s = (p, s\<lparr>free_list := ld32 (mem s) p\<rparr>)"
  "free_inv s (p # ps) \<Longrightarrow> free_inv (s\<lparr>free_list := ld32 (mem s) p\<rparr>) ps"
  by (auto simp: free_inv_def kalloc_page_def Let_def)

lemma free_inv_frame:
  assumes inv: "free_inv s ps" and same: "\<And>p x. p \<in> set ps \<Longrightarrow> x \<in> rng p 4096 \<Longrightarrow> m x = mem s x"
  shows "free_inv (s\<lparr>mem := m\<rparr>) ps"
proof -
  have "ld32 m p = ld32 (mem s) p" if "p \<in> set ps" for p
    by (rule ld32_cong) (use same that rng_mono [of 4 4096 p] in auto)
  then have "flist m (free_list s) ps = flist (mem s) (free_list s) ps" by (rule flist_frame)
  with inv show ?thesis by (simp add: free_inv_def)
qed

text \<open>What \<^verbatim>\<open>kfree_page\<close> does to memory: the whole page is filled with 1, then linked.\<close>

definition freed :: "u32 \<Rightarrow> mm \<Rightarrow> mm" where
  "freed p s = s\<lparr>mem := st32 (memset (mem s) p 1 PGSIZE) p (free_list s), free_list := p\<rparr>"

lemma kfree_page_ok: "page_ok s p \<Longrightarrow> kfree_page p s = Inr (freed p s)"
  by (auto simp: kfree_page_def freed_def page_ok_def aligned_def)

lemma freed_out: "aligned p \<Longrightarrow> x \<notin> rng p 4096 \<Longrightarrow> mem (freed p s) x = mem s x"
proof -
  assume "x \<notin> rng p 4096"
  moreover from this have "x \<notin> rng p 4" using rng_mono [of 4 4096 p] by auto
  ultimately show ?thesis by (simp add: freed_def st32_other memset_out)
qed

lemma freed_inv:
  assumes inv: "free_inv s ps" and p: "page_ok s p" and new: "p \<notin> set ps"
  shows "free_inv (freed p s) (p # ps)"
proof -
  have al: "aligned p" using p by (simp add: page_ok_def)
  have "ld32 (mem (freed p s)) q = ld32 (mem s) q" if q: "q \<in> set ps" for q
  proof (rule ld32_cong)
    fix x
    assume "x \<in> rng q 4"
    then have "x \<in> rng q 4096" using rng_mono [of 4 4096 q] by auto
    moreover have "rng p 4096 \<inter> rng q 4096 = {}"
      using page_disjoint [OF al] free_invD(2) [OF inv q] q new by metis
    ultimately show "mem (freed p s) x = mem s x" using freed_out [OF al] by blast
  qed
  then have "flist (mem (freed p s)) (free_list s) ps = flist (mem s) (free_list s) ps"
    by (rule flist_frame)
  with inv p new show ?thesis by (auto simp: free_inv_def freed_def page_ok_def)
qed

section \<open>The page allocator's contract\<close>

text \<open>
  What the rest of the kernel relies on: \<open>repr s ps\<close> says that \<open>ps\<close> are the free pages in the
  order in which they will be handed out.
\<close>

primrec alloc_n :: "('s \<Rightarrow> 'p \<times> 's) \<Rightarrow> nat \<Rightarrow> 's \<Rightarrow> 'p list \<times> 's" where
  "alloc_n al 0 s = ([], s)"
| "alloc_n al (Suc n) s = (let (p, s1) = al s; (ps, s2) = alloc_n al n s1 in (p # ps, s2))"

primrec free_all :: "('p \<Rightarrow> 's \<Rightarrow> 's res) \<Rightarrow> 'p list \<Rightarrow> 's \<Rightarrow> 's res" where
  "free_all rel [] s = Inr s"
| "free_all rel (p # ps) s = bnd (rel p s) (free_all rel ps)"

locale page_stack =
  fixes alloc :: "'s \<Rightarrow> 'p \<times> 's" and release :: "'p \<Rightarrow> 's \<Rightarrow> 's res" and null :: 'p
    and repr :: "'s \<Rightarrow> 'p list \<Rightarrow> bool" and valid :: "'s \<Rightarrow> 'p \<Rightarrow> bool"
  assumes alloc_Nil: "repr s [] \<Longrightarrow> alloc s = (null, s)"
    and alloc_Cons: "repr s (p # ps) \<Longrightarrow>
      \<exists>s'. alloc s = (p, s') \<and> repr s' ps \<and> valid s' = valid s"
    and release: "repr s ps \<Longrightarrow> valid s p \<Longrightarrow> p \<notin> set ps \<Longrightarrow>
      \<exists>s'. release p s = Inr s' \<and> repr s' (p # ps) \<and> valid s' = valid s"
    and repr_pages: "repr s ps \<Longrightarrow> distinct ps \<and> null \<notin> set ps \<and> (\<forall>p \<in> set ps. valid s p)"
begin

lemma alloc_n_take:
  "repr s ps \<Longrightarrow> n \<le> length ps \<Longrightarrow>
   \<exists>s'. alloc_n alloc n s = (take n ps, s') \<and> repr s' (drop n ps) \<and> valid s' = valid s"
proof (induction n arbitrary: s ps)
  case 0
  then show ?case by simp
next
  case (Suc n)
  then obtain p qs where ps: "ps = p # qs" by (cases ps) auto
  with Suc.prems obtain s1 where s1: "alloc s = (p, s1)" "repr s1 qs" "valid s1 = valid s"
    using alloc_Cons by blast
  with Suc.IH [of s1 qs] Suc.prems ps show ?case by auto
qed

lemma alloc_n_distinct:
  assumes "repr s ps" and "n \<le> length ps"
  shows "distinct (fst (alloc_n alloc n s)) \<and> null \<notin> set (fst (alloc_n alloc n s))"
  using alloc_n_take [OF assms] repr_pages [OF assms(1)]
  by (auto dest: in_set_takeD)

lemma free_all_push:
  "repr s ps \<Longrightarrow> distinct (qs @ ps) \<Longrightarrow> \<forall>q \<in> set qs. valid s q \<Longrightarrow>
   \<exists>s'. free_all release qs s = Inr s' \<and> repr s' (rev qs @ ps) \<and> valid s' = valid s"
proof (induction qs arbitrary: s ps)
  case Nil
  then show ?case by simp
next
  case (Cons q qs)
  then obtain s1 where s1: "release q s = Inr s1" "repr s1 (q # ps)" "valid s1 = valid s"
    using release [of s ps q] by auto
  with Cons.IH [of s1 "q # ps"] Cons.prems show ?case by auto
qed

lemma alloc_free_roundtrip:
  assumes "repr s ps" and "n \<le> length ps"
  shows "\<exists>s1 s2. alloc_n alloc n s = (take n ps, s1) \<and>
    free_all release (rev (take n ps)) s1 = Inr s2 \<and> repr s2 ps"
proof -
  obtain s1 where s1: "alloc_n alloc n s = (take n ps, s1)" "repr s1 (drop n ps)"
    and valid: "valid s1 = valid s"
    using alloc_n_take [OF assms] by blast
  have "distinct (take n ps @ drop n ps)" using repr_pages [OF assms(1)] by simp
  then have "distinct (rev (take n ps) @ drop n ps)"
    unfolding distinct_append distinct_rev set_rev .
  moreover have "\<forall>q \<in> set (rev (take n ps)). valid s1 q"
    using repr_pages [OF assms(1)] valid by (auto dest: in_set_takeD)
  ultimately obtain s2 where "free_all release (rev (take n ps)) s1 = Inr s2"
    and "repr s2 (rev (rev (take n ps)) @ drop n ps)"
    using free_all_push [OF s1(2)] by blast
  with s1(1) show ?thesis by simp
qed

end

interpretation kpages: page_stack kalloc_page kfree_page 0 free_inv page_ok
proof unfold_locales
  fix s p ps
  show "free_inv s [] \<Longrightarrow> kalloc_page s = (0, s)" by (rule kalloc_page_Nil)
  show "\<exists>s'. kalloc_page s = (p, s') \<and> free_inv s' ps \<and> page_ok s' = page_ok s"
    if "free_inv s (p # ps)"
    using kalloc_page_Cons [OF that] by (auto simp: fun_eq_iff)
  show "\<exists>s'. kfree_page p s = Inr s' \<and> free_inv s' (p # ps) \<and> page_ok s' = page_ok s"
    if "free_inv s ps" "page_ok s p" "p \<notin> set ps"
    using kfree_page_ok freed_inv that by (auto simp: fun_eq_iff freed_def)
  show "distinct ps \<and> 0 \<notin> set ps \<and> (\<forall>p \<in> set ps. page_ok s p)" if "free_inv s ps"
    using free_invD [OF that] by auto
qed

section \<open>Initialising the free list\<close>

definition pages_from :: "u32 \<Rightarrow> nat \<Rightarrow> u32 list" where
  "pages_from p k = map (\<lambda>i. p + 4096 * of_nat i) [0..<k]"

lemma pages_from_0 [simp]: "pages_from p 0 = []"
  by (simp add: pages_from_def)

lemma pages_from_Suc: "pages_from p (Suc k) = p # pages_from (p + 4096) k"
proof -
  have "[0..<Suc k] = 0 # map Suc [0..<k]" by (simp add: map_Suc_upt upt_conv_Cons del: upt_Suc)
  then show ?thesis by (simp add: pages_from_def algebra_simps del: upt_Suc)
qed

lemma kfree_range_loop_all:
  assumes "unat p + 4096 * k \<le> unat e" "unat e < unat p + 4096 * Suc k"
    and "unat e + 4096 < 2 ^ 32"
  shows "kfree_range_loop p e s = Some (free_all kfree_page (pages_from p k) s)"
  using assms
proof (induction k arbitrary: p s)
  case 0
  then have "\<not> p + 4096 \<le> e" by (simp add: word_le_nat_alt unat_plus_if')
  then show ?case by (subst kfree_range_loop.simps) simp
next
  case (Suc k)
  have nx: "unat (p + 4096) = unat p + 4096" using Suc.prems by (simp add: unat_plus_if')
  have le: "p + 4096 \<le> e" using Suc.prems nx by (simp add: word_le_nat_alt)
  have IH: "kfree_range_loop (p + 4096) e s' = Some (free_all kfree_page (pages_from (p + 4096) k) s')"
    for s' by (rule Suc.IH) (use Suc.prems nx in simp_all)
  show ?case
    using le IH by (subst kfree_range_loop.simps) (simp add: pages_from_Suc split: sum.split)
qed

lemma kfree_range_pages:
  assumes inv: "free_inv s ps"
    and k: "unat (PGROUNDUP start) + 4096 * k \<le> unat e" "unat e < unat (PGROUNDUP start) + 4096 * Suc k"
    and top: "unat e + 4096 < 2 ^ 32"
    and ok: "\<forall>p \<in> set (pages_from (PGROUNDUP start) k). page_ok s p \<and> p \<notin> set ps"
  shows "\<exists>s'. kfree_range start e s = Inr s' \<and>
    free_inv s' (rev (pages_from (PGROUNDUP start) k) @ ps) \<and> page_ok s' = page_ok s"
proof -
  have inj: "inj_on (\<lambda>i. PGROUNDUP start + 4096 * of_nat i) (set [0..<k])"
  proof (rule inj_onI)
    fix i j
    assume ij: "i \<in> set [0..<k]" "j \<in> set [0..<k]"
      and eq: "PGROUNDUP start + 4096 * of_nat i = PGROUNDUP start + 4096 * of_nat j"
    have "4096 * k < 2 ^ 32" using k(1) top by linarith
    then have "unat (4096 * of_nat n :: u32) = 4096 * n" if "n < k" for n
      using that by (simp add: unat_word_ariths)
    with ij eq show "i = j" by (metis add_left_cancel atLeastLessThan_iff mult_left_cancel
          nat_mult_eq_cancel_disj set_upt zero_neq_numeral)
  qed
  then have "distinct (pages_from (PGROUNDUP start) k @ ps)"
    using ok free_invD(1) [OF inv] by (auto simp: pages_from_def distinct_map)
  then show ?thesis
    using kpages.free_all_push [OF inv] ok kfree_range_loop_all [OF k top]
    by (auto simp: kfree_range_def)
qed

lemma in_pages_from:
  assumes "q \<in> set (pages_from p k)" and "unat p + 4096 * k < 4294967296"
  shows "unat p \<le> unat q" and "unat q + 4096 \<le> unat p + 4096 * k" and "aligned p \<Longrightarrow> aligned q"
proof -
  obtain i where i: "i < k" "q = p + 4096 * of_nat i" using assms(1) by (auto simp: pages_from_def)
  have "unat q = unat p + 4096 * i" using i assms(2) by (simp add: unat_word_ariths)
  with i show "unat p \<le> unat q" "unat q + 4096 \<le> unat p + 4096 * k" "aligned p \<Longrightarrow> aligned q"
    by (auto simp: aligned_unat)
qed

text \<open>The number of whole pages between two addresses.\<close>

definition whole_pages :: "u32 \<Rightarrow> u32 \<Rightarrow> nat" where
  "whole_pages a b = (unat b - unat (PGROUNDUP a)) div 4096"

lemma free_all_keeps:
  "free_all kfree_page ps s = Inr s' \<Longrightarrow> memsz s' = memsz s \<and> mem_start s' = mem_start s"
  by (induction ps arbitrary: s) (auto simp: kfree_page_def split: if_splits)

lemma kfree_range_frees:
  assumes inv: "free_inv s ps" and r: "unat (PGROUNDUP a) \<le> unat b" "unat b < 4294963200"
    and lo: "mem_start s \<le> PGROUNDUP a" "PGROUNDUP a \<noteq> 0" and hi: "b \<le> V2P (memsz s * 1024)"
    and old: "\<forall>p \<in> set ps. unat p < unat (PGROUNDUP a) \<or> unat b \<le> unat p"
  shows "\<exists>s'. kfree_range a b s = Inr s' \<and> memsz s' = memsz s \<and> mem_start s' = mem_start s \<and>
    free_inv s' (rev (pages_from (PGROUNDUP a) (whole_pages a b)) @ ps)"
proof -
  let ?p = "PGROUNDUP a" and ?k = "whole_pages a b"
  have "4096 * ?k + (unat b - unat ?p) mod 4096 = unat b - unat ?p" by (simp add: whole_pages_def)
  moreover have "(unat b - unat ?p) mod 4096 < 4096" by simp
  ultimately have k: "unat ?p + 4096 * ?k \<le> unat b" "unat b < unat ?p + 4096 * Suc ?k"
    using r(1) unfolding mult_Suc_right by linarith+
  have al: "aligned ?p" by (simp add: PGROUNDUP_eq)
  have "page_ok s q \<and> q \<notin> set ps" if q: "q \<in> set (pages_from ?p ?k)" for q
  proof -
    have *: "unat ?p \<le> unat q" "unat q + 4096 \<le> unat b" "aligned q"
      using in_pages_from [OF q] k(1) r(2) al by auto
    with lo hi have "q \<noteq> 0" "mem_start s \<le> q" "q \<le> V2P (memsz s * 1024)"
      by (auto simp: word_le_nat_alt unat_gt_0 unat_eq_zero)
    with * old show ?thesis by (force simp: page_ok_def)
  qed
  then obtain s' where s': "kfree_range a b s = Inr s'" "free_inv s' (rev (pages_from ?p ?k) @ ps)"
    using kfree_range_pages [OF inv k] r(2) by auto
  then have "free_all kfree_page (pages_from ?p ?k) s = Inr s'"
    using kfree_range_loop_all [OF k] r(2) by (simp add: kfree_range_def)
  with s' free_all_keeps show ?thesis by blast
qed

section \<open>Properties\<close>

text \<open>A memory with two free pages, on which the properties are instantiated.\<close>

definition two_pages :: mm where
  "two_pages = \<lparr>mem = st32 (\<lambda>_. 0) 0x80400000 0x80401000, free_list = 0x80400000, memsz = 65536,
     mem_start = 0x80200000, kpgdir = 0, cr3 = 0\<rparr>"

lemma two_pages_free: "free_inv two_pages [0x80400000, 0x80401000]"
  by (simp add: two_pages_def free_inv_def page_ok_def aligned_def V2P_def ld32_def st32_def)

text \<open>
  C17. Pages handed out by \<^verbatim>\<open>kalloc_page\<close> are distinct, non-NULL and come off the free list in order;
  freeing them again in the reverse order with \<^verbatim>\<open>kfree_page\<close> never panics and restores the free list,
  although \<^verbatim>\<open>kfree_page\<close> overwrites the whole page; with no page left \<^verbatim>\<open>kalloc_page\<close> returns NULL.
\<close>

theorem kalloc_kfree_roundtrip:
  assumes "free_inv s ps" and "n \<le> length ps"
  shows "(\<exists>s1 s2. alloc_n kalloc_page n s = (take n ps, s1) \<and>
      free_all kfree_page (rev (take n ps)) s1 = Inr s2 \<and> free_inv s2 ps \<and>
      (n = length ps \<longrightarrow> kalloc_page s1 = (0, s1))) \<and>
    distinct (take n ps) \<and> 0 \<notin> set (take n ps)"
proof -
  obtain s1 where "alloc_n kalloc_page n s = (take n ps, s1)" and s1: "free_inv s1 (drop n ps)"
    using kpages.alloc_n_take [OF assms] by blast
  then show ?thesis
    using kpages.alloc_free_roundtrip [OF assms] kpages.alloc_n_distinct [OF assms] kalloc_page_Nil [of s1]
    by auto
qed

theorem kalloc_kfree_roundtrip_witness:
  "(\<exists>s1 s2. alloc_n kalloc_page 2 two_pages = ([0x80400000, 0x80401000], s1) \<and>
      free_all kfree_page [0x80401000, 0x80400000] s1 = Inr s2 \<and>
      free_inv s2 [0x80400000, 0x80401000] \<and> kalloc_page s1 = (0, s1))"
  using kalloc_kfree_roundtrip [OF two_pages_free, of 2] by simp

text \<open>
  C18. Start-up: \<^verbatim>\<open>mem_init1\<close>, called with an empty free list, frees exactly the whole pages between
  the end of the kernel image and 4 MB, in descending order, and does not panic; the memory size is
  the caller's or, when that is 0, the one read from the CMOS.
\<close>

theorem mem_init1_frees:
  assumes "free_list s = 0" and "0x80000000 < unat start" and "unat start \<le> 0x80400000"
    and "m = (if sz \<noteq> 0 then sz else detect_mem cmos + 1024)"
    and "4096 \<le> unat m" and "unat m \<le> 0x1FFFFF"
  shows "\<exists>s'. mem_init1 cmos start sz s = Inr s' \<and> memsz s' = m \<and> mem_start s' = start \<and>
    free_inv s' (rev (pages_from (PGROUNDUP start) (whole_pages start 0x80400000)))"
proof -
  let ?s = "s\<lparr>mem_start := start, memsz := m\<rparr>"
  have up: "unat (PGROUNDUP start) = (unat start + 4095) div 4096 * 4096"
    using assms(3) by (intro unat_PGROUNDUP) simp
  have le: "unat start \<le> unat (PGROUNDUP start)"
    using div_mult_mod_eq [of "unat start + 4095" 4096] mod_less_divisor [of 4096 "unat start + 4095"]
    unfolding up by linarith
  have "(unat start + 4095) div 4096 \<le> (0x80400000 + 4095) div 4096"
    using assms(3) by (intro div_le_mono) simp
  then have hi: "unat (PGROUNDUP start) \<le> unat (0x80400000 :: u32)" unfolding up by simp
  have "unat (V2P (m * 1024)) = 0x80000000 + unat m * 1024"
    using assms(6) by (simp add: V2P_eq_P2V P2V_def unat_word_ariths)
  then have top: "(0x80400000 :: u32) \<le> V2P (memsz ?s * 1024)"
    using assms(5) by (simp add: word_le_nat_alt)
  have "PGROUNDUP start \<noteq> 0" using le assms(2) by (auto simp: unat_eq_zero)
  moreover have "free_inv ?s []" using assms(1) by (simp add: free_inv_def)
  ultimately have "\<exists>s'. kfree_range start 0x80400000 ?s = Inr s' \<and> memsz s' = m \<and> mem_start s' = start \<and>
      free_inv s' (rev (pages_from (PGROUNDUP start) (whole_pages start 0x80400000)) @ [])"
    using kfree_range_frees [of ?s "[]" start "0x80400000"] hi le top
    by (simp add: word_le_nat_alt)
  then show ?thesis by (simp add: mem_init1_def kinit_def P2V_def assms(4))
qed

theorem mem_init1_frees_witness:
  "\<exists>s'. mem_init1 (\<lambda>_. 0) 0x803FE001 65536 (two_pages\<lparr>free_list := 0\<rparr>) = Inr s' \<and>
    free_inv s' [0x803FF000]"
proof -
  have "whole_pages 0x803FE001 0x80400000 = Suc 0" "PGROUNDUP 0x803FE001 = 0x803FF000"
    by (simp_all add: whole_pages_def PGROUNDUP_def)
  then show ?thesis
    using mem_init1_frees [of "two_pages\<lparr>free_list := 0\<rparr>" "0x803FE001" 65536 65536 "\<lambda>_. 0"]
    by (auto simp: pages_from_Suc)
qed

text \<open>
  \<^verbatim>\<open>mem_init2\<close> pushes exactly the whole pages between 4 MB and the end of memory on top of the
  pages that are already free, and does not panic.
\<close>

theorem mem_init2_frees:
  assumes "free_inv s ps" and "\<forall>p \<in> set ps. unat p < 0x80400000"
    and "unat (mem_start s) \<le> 0x80400000" and "4096 \<le> unat (memsz s)" and "unat (memsz s) < 0x1FFFFC"
  shows "\<exists>s'. mem_init2 s = Inr s' \<and>
    free_inv s' (rev (pages_from 0x80400000 ((unat (memsz s) - 4096) div 4)) @ ps)"
proof -
  let ?b = "P2V (memsz s * 1024)"
  have b: "unat ?b = 0x80000000 + unat (memsz s) * 1024"
    using assms(5) by (simp add: P2V_def unat_word_ariths)
  have a: "PGROUNDUP 0x80400000 = 0x80400000" "unat (0x80400000 :: u32) = 0x80400000"
    by (simp_all add: PGROUNDUP_def)
  have "(unat (memsz s) - 4096) * 1024 div 4096 = (unat (memsz s) - 4096) div 4"
    by (simp add: div_mult2_eq [symmetric])
  then have w: "whole_pages 0x80400000 ?b = (unat (memsz s) - 4096) div 4"
    using assms(4) by (simp add: whole_pages_def a b)
  have "\<exists>s'. kfree_range 0x80400000 ?b s = Inr s' \<and> memsz s' = memsz s \<and> mem_start s' = mem_start s \<and>
      free_inv s' (rev (pages_from 0x80400000 (whole_pages 0x80400000 ?b)) @ ps)"
    using kfree_range_frees [OF assms(1), of "0x80400000" ?b] assms(2-5) b
    by (simp add: a word_le_nat_alt V2P_eq_P2V)
  then show ?thesis unfolding w by (auto simp: mem_init2_def kinit_def P2V_def)
qed

theorem mem_init2_frees_witness:
  "\<exists>s'. mem_init2 (two_pages\<lparr>free_list := 0, memsz := 4100\<rparr>) = Inr s' \<and> free_inv s' [0x80400000]"
proof -
  have "free_inv (two_pages\<lparr>free_list := 0, memsz := 4100\<rparr>) []" by (simp add: free_inv_def)
  from mem_init2_frees [OF this] show ?thesis by (simp add: two_pages_def pages_from_Suc)
qed

end
