(* ===== verification/Kern_Paging.thy ===== *)
theory Kern_Paging
  imports Kern_Mm
begin

text \<open>
  What the page-table operations of \<^verbatim>\<open>kern/mm.c\<close> do, stated on the translation a page directory
  stands for: \<open>entry m dir va\<close> is the page-table entry the hardware finds for \<open>va\<close> (0 where there
  is no page table), and \<open>pt_ok dir s ps\<close> the invariant that a directory, its page tables and the
  free pages do not share memory.
\<close>

section \<open>The translation of a page directory\<close>

definition present :: "u32 \<Rightarrow> bool" where
  "present w \<longleftrightarrow> w AND PTE_P \<noteq> 0"

definition pde_at :: "mem \<Rightarrow> u32 \<Rightarrow> u32 \<Rightarrow> u32" where
  "pde_at m dir i = ld32 m (dir + 4 * i)"

definition tab :: "mem \<Rightarrow> u32 \<Rightarrow> u32 \<Rightarrow> u32" where
  "tab m dir i = P2V (PTE_ADDR (pde_at m dir i))"

definition entry :: "mem \<Rightarrow> u32 \<Rightarrow> u32 \<Rightarrow> u32" where
  "entry m dir va =
     (if present (pde_at m dir (PDX va)) then ld32 m (tab m dir (PDX va) + 4 * PTX va) else 0)"

definition dir_wf :: "mem \<Rightarrow> u32 \<Rightarrow> u32 set \<Rightarrow> bool" where
  "dir_wf m dir F \<longleftrightarrow> aligned dir \<and> dir \<notin> F \<and>
     (\<forall>i. unat i < 1024 \<and> present (pde_at m dir i) \<longrightarrow>
        tab m dir i \<notin> F \<and> tab m dir i \<noteq> dir \<and> tab m dir i \<noteq> 0) \<and>
     (\<forall>i j. unat i < 1024 \<and> unat j < 1024 \<and> present (pde_at m dir i) \<and> present (pde_at m dir j)
        \<and> tab m dir i = tab m dir j \<longrightarrow> i = j)"

definition pt_ok :: "u32 \<Rightarrow> mm \<Rightarrow> u32 list \<Rightarrow> bool" where
  "pt_ok dir s ps \<longleftrightarrow> free_inv s ps \<and> dir_wf (mem s) dir (set ps)"

lemma PDX_less [simp]: "unat (PDX va) < 1024"
  using u32_less [of va] by (simp add: unat_PDX less_mult_imp_div_less)

lemma PTX_less [simp]: "unat (PTX va) < 1024"
  by (simp add: unat_PTX)

lemma aligned_tab [simp]: "aligned (tab m dir i)"
  by (simp add: tab_def)

lemma same_page_iff: "PTE_ADDR v = PTE_ADDR w \<longleftrightarrow> PDX v = PDX w \<and> PTX v = PTX w"
proof -
  have "a div 4096 = b div 4096 \<longleftrightarrow>
      a div 4096 div 1024 = b div 4096 div 1024 \<and> a div 4096 mod 1024 = b div 4096 mod 1024" for a b :: nat
    by (metis div_mult_mod_eq)
  moreover have "a div 4096 div 1024 = a div 4194304" for a :: nat
    by (simp add: div_mult2_eq [symmetric])
  ultimately show ?thesis
    by (simp add: u32_eq_iff unat_PTE_ADDR unat_PDX unat_PTX)
qed

lemma present_simps [simp]:
  "\<not> present 0" "present (a OR 1)" "present (a OR b OR 1)" "present (a OR b OR c OR 1)"
proof -
  have "present (a OR 1)" for a
    by (simp add: present_def bit.conj_disj_distrib2 or_eq_0_iff)
  then show "present (a OR 1)" "present (a OR b OR 1)" "present (a OR b OR c OR 1)" for a b c
    by (metis or.assoc)+
qed (simp add: present_def)

lemma present_flags: "present (a OR 7)"
  by (simp add: present_def bit.conj_disj_distrib2 or_eq_0_iff)

lemma PTE_ADDR_or_flags:
  assumes "aligned a" and "f mod 4096 = f"
  shows "PTE_ADDR (a OR f) = a" and "PTE_FLAGS (a OR f) = f"
proof -
  have "a AND 0xFFF = 0" using assms(1) by (simp only: and_low aligned_def)
  moreover have f: "f AND 0xFFF = f" using assms(2) by (simp only: and_low)
  ultimately have "(a OR f) AND 0xFFF = f" by (simp add: bit.conj_disj_distrib2)
  then show flags: "PTE_FLAGS (a OR f) = f" by (simp add: PTE_FLAGS_def)
  have "a AND f = (a AND 0xFFF) AND f" by (subst f [symmetric]) (simp only: ac_simps)
  then have "a AND f = 0" using \<open>a AND 0xFFF = 0\<close> by simp
  then have "a OR f = a + f" by (simp add: disjunctive_add_eq_or)
  with flags show "PTE_ADDR (a OR f) = a"
    by (simp add: PTE_ADDR_eq PTE_FLAGS_eq)
qed

lemma pt_okD:
  assumes "pt_ok dir s ps"
  shows "free_inv s ps" "aligned dir" "dir \<notin> set ps"
    and "unat i < 1024 \<Longrightarrow> present (pde_at (mem s) dir i) \<Longrightarrow>
      tab (mem s) dir i \<notin> set ps \<and> tab (mem s) dir i \<noteq> dir \<and> tab (mem s) dir i \<noteq> 0"
    and "unat i < 1024 \<Longrightarrow> unat j < 1024 \<Longrightarrow> present (pde_at (mem s) dir i) \<Longrightarrow>
      present (pde_at (mem s) dir j) \<Longrightarrow> tab (mem s) dir i = tab (mem s) dir j \<longleftrightarrow> i = j"
    and "p \<in> set ps \<Longrightarrow> aligned p"
  using assms by (auto simp: pt_ok_def dir_wf_def dest: free_invD(2))

section \<open>Storing one page-table entry\<close>

text \<open>
  The address of the entry of \<open>va\<close> and the memory with a new value stored there; only the
  translation of the addresses on the page of \<open>va\<close> changes.
\<close>

definition slot :: "mem \<Rightarrow> u32 \<Rightarrow> u32 \<Rightarrow> u32" where
  "slot m dir va = tab m dir (PDX va) + 4 * PTX va"

lemma slot_nonnull:
  assumes "pt_ok dir s ps" and "present (pde_at (mem s) dir (PDX va))"
  shows "slot (mem s) dir va \<noteq> 0"
proof -
  have "tab (mem s) dir (PDX va) \<noteq> 0" using pt_okD(4) [OF assms(1) _ assms(2)] by simp
  then have "0 < unat (tab (mem s) dir (PDX va))" by (simp add: unat_gt_0)
  then have "0 < unat (slot (mem s) dir va)" by (simp add: slot_def unat_slot)
  then show ?thesis by (simp add: unat_gt_0)
qed

lemma ld32_slot:
  "present (pde_at m dir (PDX va)) \<Longrightarrow> ld32 m (slot m dir va) = entry m dir va"
  by (simp add: slot_def entry_def)

lemma set_entry_mem:
  assumes ok: "pt_ok dir s ps" and pr: "present (pde_at (mem s) dir (PDX va))"
    and m': "m' = st32 (mem s) (slot (mem s) dir va) w"
  shows "unat i < 1024 \<Longrightarrow> pde_at m' dir i = pde_at (mem s) dir i"
    and "unat i < 1024 \<Longrightarrow> tab m' dir i = tab (mem s) dir i"
    and "x \<notin> rng (tab (mem s) dir (PDX va)) 4096 \<Longrightarrow> m' x = mem s x"
    and "entry m' dir v = (if PTE_ADDR v = PTE_ADDR va then w else entry (mem s) dir v)"
proof -
  let ?t = "tab (mem s) dir (PDX va)"
  have t: "?t \<noteq> dir" "?t \<notin> set ps" using pt_okD(4) [OF ok _ pr] by simp_all
  show pde: "pde_at m' dir i = pde_at (mem s) dir i" if "unat i < 1024" for i
    using that t pt_okD(2) [OF ok] by (simp add: m' pde_at_def slot_def ld_st_slot)
  then show tb: "tab m' dir i = tab (mem s) dir i" if "unat i < 1024" for i
    using that by (simp add: tab_def)
  show "m' x = mem s x" if "x \<notin> rng ?t 4096"
    using that slot_in_page [of ?t "PTX va"] by (auto simp: m' slot_def intro!: st32_other)
  show "entry m' dir v = (if PTE_ADDR v = PTE_ADDR va then w else entry (mem s) dir v)"
  proof (cases "present (pde_at (mem s) dir (PDX v))")
    case True
    then have "tab (mem s) dir (PDX v) = ?t \<longleftrightarrow> PDX v = PDX va"
      using pt_okD(5) [OF ok] pr by simp
    then have "ld32 m' (tab (mem s) dir (PDX v) + 4 * PTX v) =
        (if PTE_ADDR v = PTE_ADDR va then w else ld32 (mem s) (tab (mem s) dir (PDX v) + 4 * PTX v))"
      by (auto simp: m' slot_def ld_st_slot same_page_iff)
    with True show ?thesis by (simp add: entry_def pde tb)
  next
    case False
    with pr have "PTE_ADDR v \<noteq> PTE_ADDR va" by (auto simp: same_page_iff)
    with False show ?thesis by (simp add: entry_def pde)
  qed
qed

lemma set_entry_ok:
  assumes ok: "pt_ok dir s ps" and pr: "present (pde_at (mem s) dir (PDX va))"
  shows "pt_ok dir (s\<lparr>mem := st32 (mem s) (slot (mem s) dir va) w\<rparr>) ps"
proof -
  let ?m = "st32 (mem s) (slot (mem s) dir va) w" and ?t = "tab (mem s) dir (PDX va)"
  have "?m x = mem s x" if "p \<in> set ps" "x \<in> rng p 4096" for p x
  proof -
    have "p \<noteq> ?t" using pt_okD(4) [OF ok _ pr] that by auto
    then have "rng p 4096 \<inter> rng ?t 4096 = {}"
      using page_disjoint pt_okD(6) [OF ok] that by simp
    with that show ?thesis by (intro set_entry_mem(3) [OF ok pr refl]) auto
  qed
  then have "free_inv (s\<lparr>mem := ?m\<rparr>) ps" by (rule free_inv_frame [OF pt_okD(1) [OF ok]])
  moreover have "dir_wf ?m dir (set ps)"
    using ok set_entry_mem(1,2) [OF ok pr refl, of _ w]
    by (simp add: pt_ok_def dir_wf_def cong: conj_cong)
  ultimately show ?thesis by (simp add: pt_ok_def)
qed

section \<open>Walking a page directory\<close>

lemma walk_present:
  "present (pde_at (mem s) dir (PDX va)) \<Longrightarrow> pgdir_walk dir va alloc s = (slot (mem s) dir va, s)"
  by (simp add: pgdir_walk_def present_def pde_at_def slot_def tab_def Let_def)

lemma walk_absent:
  "\<not> present (pde_at (mem s) dir (PDX va)) \<Longrightarrow> pgdir_walk dir va False s = (0, s)"
  by (simp add: pgdir_walk_def present_def pde_at_def Let_def)

text \<open>The state after a missing page table was taken from the free page \<open>p\<close>.\<close>

definition with_table :: "u32 \<Rightarrow> u32 \<Rightarrow> u32 \<Rightarrow> mm \<Rightarrow> mm" where
  "with_table dir va p s =
     s\<lparr>free_list := ld32 (mem s) p,
       mem := st32 (memset (mem s) p 0 PGSIZE) (dir + 4 * PDX va)
                (PTE_ADDR (V2P p) OR PTE_U OR PTE_W OR PTE_P)\<rparr>"

lemma walk_alloc:
  assumes "pt_ok dir s (p # ps)" and "\<not> present (pde_at (mem s) dir (PDX va))"
  shows "pgdir_walk dir va True s = (p + 4 * PTX va, with_table dir va p s)"
  using assms kalloc_page_Cons(1) [OF pt_okD(1) [OF assms(1)]] free_invD(4) [OF pt_okD(1) [OF assms(1)]]
  by (auto simp: pgdir_walk_def present_def pde_at_def with_table_def Let_def)

lemma walk_alloc_none:
  assumes "pt_ok dir s []" and "\<not> present (pde_at (mem s) dir (PDX va))"
  shows "pgdir_walk dir va True s = (0, s)"
  using assms kalloc_page_Nil [OF pt_okD(1) [OF assms(1)]]
  by (simp add: pgdir_walk_def present_def pde_at_def Let_def)

lemma with_table_mem:
  assumes ok: "pt_ok dir s (p # ps)" and ab: "\<not> present (pde_at (mem s) dir (PDX va))"
    and m': "m' = mem (with_table dir va p s)"
  shows "unat i < 1024 \<Longrightarrow> present (pde_at m' dir i) \<longleftrightarrow> i = PDX va \<or> present (pde_at (mem s) dir i)"
    and "unat i < 1024 \<Longrightarrow> tab m' dir i = (if i = PDX va then p else tab (mem s) dir i)"
    and "x \<notin> rng dir 4096 \<Longrightarrow> x \<notin> rng p 4096 \<Longrightarrow> m' x = mem s x"
    and "entry m' dir v = entry (mem s) dir v"
proof -
  let ?w = "PTE_ADDR (V2P p) OR PTE_U OR PTE_W OR PTE_P"
  have al: "aligned dir" "aligned p" and ne: "p \<noteq> dir" "dir \<noteq> p"
    using pt_okD(2,3,6) [OF ok] by auto
  have "PTE_ADDR (V2P p OR (7 :: u32)) = V2P p" by (rule PTE_ADDR_or_flags) (simp_all add: al)
  then have w: "PTE_ADDR ?w = V2P p" using al by (simp add: or.assoc)
  have pde: "pde_at m' dir i = (if i = PDX va then ?w else pde_at (mem s) dir i)" if "unat i < 1024" for i
    using that al ne by (simp add: m' with_table_def pde_at_def ld_st_slot ld_memset_slot)
  then show pr: "present (pde_at m' dir i) \<longleftrightarrow> i = PDX va \<or> present (pde_at (mem s) dir i)"
    if "unat i < 1024" for i using that by (simp add: present_flags)
  show tb: "tab m' dir i = (if i = PDX va then p else tab (mem s) dir i)" if "unat i < 1024" for i
    using that w pde by (simp add: tab_def)
  show "m' x = mem s x" if "x \<notin> rng dir 4096" "x \<notin> rng p 4096"
  proof -
    have "x \<notin> rng (dir + 4 * PDX va) 4" using that slot_in_page [OF al(1), of "PDX va"] by auto
    then show ?thesis using that by (simp add: m' with_table_def st32_other memset_out)
  qed
  show "entry m' dir v = entry (mem s) dir v"
  proof (cases "PDX v = PDX va")
    case True
    have "ld32 m' (p + 4 * PTX v) = 0"
      using al ne by (simp add: m' with_table_def ld_st_slot ld_memset_slot)
    with True ab show ?thesis by (simp add: entry_def pr tb)
  next
    case False
    have "ld32 m' (tab (mem s) dir (PDX v) + 4 * PTX v) = ld32 (mem s) (tab (mem s) dir (PDX v) + 4 * PTX v)"
      if "present (pde_at (mem s) dir (PDX v))"
      using pt_okD(4) [OF ok _ that] al by (auto simp: m' with_table_def ld_st_slot ld_memset_slot)
    with False show ?thesis by (simp add: entry_def pr tb)
  qed
qed

lemma with_table_ok:
  assumes ok: "pt_ok dir s (p # ps)" and ab: "\<not> present (pde_at (mem s) dir (PDX va))"
  shows "pt_ok dir (with_table dir va p s) ps"
proof -
  let ?s = "with_table dir va p s"
  have inv: "free_inv s (p # ps)" by (rule pt_okD(1) [OF ok])
  have "mem ?s x = mem s x" if "q \<in> set ps" "x \<in> rng q 4096" for q x
  proof (rule with_table_mem(3) [OF ok ab refl])
    have "aligned q" "aligned dir" "aligned p" "q \<noteq> dir" "q \<noteq> p"
      using that pt_okD(2,3,6) [OF ok] free_invD(1) [OF inv] by auto
    then have "rng q 4096 \<inter> rng dir 4096 = {}" "rng q 4096 \<inter> rng p 4096 = {}"
      by (simp_all add: page_disjoint)
    then show "x \<notin> rng dir 4096" "x \<notin> rng p 4096" using that by auto
  qed
  then have "free_inv (s\<lparr>free_list := ld32 (mem s) p, mem := mem ?s\<rparr>) ps"
    using free_inv_frame [OF kalloc_page_Cons(2) [OF inv], of "mem ?s"] by simp
  then have "free_inv ?s ps" by (simp add: with_table_def)
  moreover have "dir_wf (mem ?s) dir (set ps)"
    unfolding dir_wf_def
  proof (intro conjI allI impI)
    note old = pt_okD(4,5) [OF ok]
    note new = with_table_mem(1,2) [OF ok ab refl]
    have p: "p \<noteq> dir" "p \<notin> set ps" "p \<noteq> 0" using pt_okD(3) [OF ok] free_invD(1,4) [OF inv] by auto
    show "aligned dir" "dir \<notin> set ps" using pt_okD(2,3) [OF ok] by auto
    fix i assume i: "unat i < 1024 \<and> present (pde_at (mem ?s) dir i)"
    then show "tab (mem ?s) dir i \<notin> set ps" "tab (mem ?s) dir i \<noteq> dir" "tab (mem ?s) dir i \<noteq> 0"
      using p new [of i] old(1) [of i] by (auto split: if_splits)
  next
    note old = pt_okD(4,5) [OF ok]
    note new = with_table_mem(1,2) [OF ok ab refl]
    fix i j assume ij: "unat i < 1024 \<and> unat j < 1024 \<and> present (pde_at (mem ?s) dir i) \<and>
      present (pde_at (mem ?s) dir j) \<and> tab (mem ?s) dir i = tab (mem ?s) dir j"
    moreover have "tab (mem s) dir k \<noteq> p" if "unat k < 1024" "present (pde_at (mem s) dir k)" for k
      using old(1) [OF that] by auto
    ultimately show "i = j"
      using new [of i] new [of j] old(2) [of i j] by metis
  qed
  ultimately show ?thesis by (simp add: pt_ok_def)
qed

section \<open>What an operation on a page directory may touch\<close>

text \<open>
  The pages a directory is stored in, and the relation between the states before and after an
  operation that took the pages \<open>us\<close> off the free list for page tables: nothing outside the pages of
  the directory has changed, and no other kernel variable.
\<close>

definition pt_pages :: "mem \<Rightarrow> u32 \<Rightarrow> u32 set" where
  "pt_pages m dir = insert dir {tab m dir i |i. unat i < 1024 \<and> present (pde_at m dir i)}"

definition pt_step :: "u32 \<Rightarrow> u32 list \<Rightarrow> mm \<Rightarrow> mm \<Rightarrow> bool" where
  "pt_step dir us s s' \<longleftrightarrow>
     pt_pages (mem s') dir = pt_pages (mem s) dir \<union> set us \<and>
     (\<forall>x. (\<forall>p \<in> pt_pages (mem s') dir. x \<notin> rng p 4096) \<longrightarrow> mem s' x = mem s x) \<and>
     memsz s' = memsz s \<and> mem_start s' = mem_start s \<and> kpgdir s' = kpgdir s \<and> cr3 s' = cr3 s"

lemma pt_step_refl [simp]: "pt_step dir [] s s"
  by (simp add: pt_step_def)

lemma pt_step_trans:
  assumes "pt_step dir us s s'" and "pt_step dir vs s' s''"
  shows "pt_step dir (us @ vs) s s''"
  using assms by (auto simp: pt_step_def)

lemma set_entry_step:
  assumes "pt_ok dir s ps" and "present (pde_at (mem s) dir (PDX va))"
  shows "pt_step dir [] s (s\<lparr>mem := st32 (mem s) (slot (mem s) dir va) w\<rparr>)"
proof -
  let ?m = "st32 (mem s) (slot (mem s) dir va) w"
  note m = set_entry_mem [OF assms refl, of _ w]
  have "pt_pages ?m dir = pt_pages (mem s) dir"
    unfolding pt_pages_def using m(1,2) by (metis (no_types, lifting))
  moreover have "tab (mem s) dir (PDX va) \<in> pt_pages (mem s) dir"
    using assms(2) PDX_less by (auto simp: pt_pages_def)
  ultimately show ?thesis using m(3) by (auto simp: pt_step_def)
qed

lemma with_table_step:
  assumes ok: "pt_ok dir s (p # ps)" and ab: "\<not> present (pde_at (mem s) dir (PDX va))"
  shows "pt_step dir [p] s (with_table dir va p s)"
proof -
  let ?s = "with_table dir va p s"
  note m = with_table_mem [OF ok ab refl]
  have "pt_pages (mem ?s) dir = insert p (pt_pages (mem s) dir)"
  proof (rule set_eqI)
    fix q
    have "q \<in> pt_pages (mem ?s) dir \<longleftrightarrow>
        q = dir \<or> (\<exists>i. unat i < 1024 \<and> (i = PDX va \<or> present (pde_at (mem s) dir i)) \<and>
                     q = (if i = PDX va then p else tab (mem s) dir i))"
      unfolding pt_pages_def mem_Collect_eq insert_iff using m(1,2) by (metis (no_types, lifting))
    also have "\<dots> \<longleftrightarrow> q = dir \<or> q = p \<or>
        (\<exists>i. unat i < 1024 \<and> present (pde_at (mem s) dir i) \<and> q = tab (mem s) dir i)"
      using ab PDX_less [of va] by (metis (no_types, lifting))
    finally show "q \<in> pt_pages (mem ?s) dir \<longleftrightarrow> q \<in> insert p (pt_pages (mem s) dir)"
      by (auto simp: pt_pages_def)
  qed
  moreover have "dir \<in> pt_pages (mem s) dir" by (simp add: pt_pages_def)
  ultimately show ?thesis using m(3) by (auto simp: pt_step_def with_table_def)
qed

text \<open>The outcomes of a walk that may create the page table.\<close>

lemma walk_cases:
  assumes ok: "pt_ok dir s ps"
  obtains
    (oom) "ps = []" "\<not> present (pde_at (mem s) dir (PDX va))" "pgdir_walk dir va True s = (0, s)"
  | (found) s1 us ps1 where "pgdir_walk dir va True s = (slot (mem s1) dir va, s1)"
      "ps = us @ ps1" "length us \<le> 1" "pt_ok dir s1 ps1" "pt_step dir us s s1"
      "present (pde_at (mem s1) dir (PDX va))" "\<And>v. entry (mem s1) dir v = entry (mem s) dir v"
proof (cases "present (pde_at (mem s) dir (PDX va))")
  case True
  show thesis by (rule found [of s "[]" ps]) (use True ok walk_present in auto)
next
  case ab: False
  show thesis
  proof (cases ps)
    case Nil
    with ok ab walk_alloc_none show thesis by (intro oom) auto
  next
    case (Cons p ps1)
    note ok' = ok [unfolded Cons]
    let ?s = "with_table dir va p s"
    have "slot (mem ?s) dir va = p + 4 * PTX va"
      by (simp add: slot_def with_table_mem(2) [OF ok' ab refl])
    then show thesis
      by (intro found [of ?s "[p]" ps1])
        (simp_all add: walk_alloc [OF ok' ab] Cons with_table_ok [OF ok' ab] with_table_step [OF ok' ab]
          with_table_mem(1,4) [OF ok' ab refl])
  qed
qed

section \<open>Mapping a range\<close>

lemma map_step:
  assumes ok: "pt_ok dir s ps" and le: "va \<le> e" and un: "\<not> present (entry (mem s) dir va)"
  obtains
    (oom) "ps = []" "mappages_loop dir va e pa perm s = Some (Inr (- 1, s))"
  | (mapped) s2 us ps2 where
      "mappages_loop dir va e pa perm s = mappages_loop dir (va + PGSIZE) e (pa + PGSIZE) perm s2"
      "ps = us @ ps2" "length us \<le> 1" "pt_ok dir s2 ps2" "pt_step dir us s s2"
      "\<And>v. entry (mem s2) dir v =
        (if PTE_ADDR v = PTE_ADDR va then PTE_ADDR pa OR perm OR PTE_P else entry (mem s) dir v)"
proof (rule walk_cases [OF ok, of va])
  assume "ps = []" "pgdir_walk dir va True s = (0, s)"
  with le show thesis by (intro oom) (simp_all add: mappages_loop.simps [of dir va])
next
  fix s1 us ps1
  assume w: "pgdir_walk dir va True s = (slot (mem s1) dir va, s1)"
      "ps = us @ ps1" "length us \<le> 1" and ok1: "pt_ok dir s1 ps1" and st: "pt_step dir us s s1"
      and pr: "present (pde_at (mem s1) dir (PDX va))"
      and en: "\<And>v. entry (mem s1) dir v = entry (mem s) dir v"
  let ?w = "PTE_ADDR pa OR perm OR PTE_P"
  let ?s = "s1\<lparr>mem := st32 (mem s1) (slot (mem s1) dir va) ?w\<rparr>"
  have "ld32 (mem s1) (slot (mem s1) dir va) AND PTE_P = 0"
    using un by (simp add: ld32_slot [OF pr] en present_def)
  then have "mappages_loop dir va e pa perm s = mappages_loop dir (va + PGSIZE) e (pa + PGSIZE) perm ?s"
    using le w(1) slot_nonnull [OF ok1 pr] by (simp add: mappages_loop.simps [of dir va])
  moreover have "pt_step dir (us @ []) s ?s"
    by (rule pt_step_trans [OF st set_entry_step [OF ok1 pr]])
  ultimately show thesis
    using w set_entry_ok [OF ok1 pr] set_entry_mem(4) [OF ok1 pr refl] en
    by (intro mapped [of ?s us ps1]) auto
qed

text \<open>
  \<open>mapped n\<close>: the \<open>n\<close> pages from \<open>va\<close> translate to the consecutive frames from \<open>pa\<close> and every other
  address translates as before.
\<close>

definition mapped :: "u32 \<Rightarrow> mem \<Rightarrow> mem \<Rightarrow> nat \<Rightarrow> u32 \<Rightarrow> u32 \<Rightarrow> u32 \<Rightarrow> bool" where
  "mapped dir m m' n va pa perm \<longleftrightarrow>
     (\<forall>v. entry m' dir v =
        (if unat va \<le> unat v \<and> unat v < unat va + 4096 * n
         then PTE_ADDR (pa + (PTE_ADDR v - va)) OR perm OR PTE_P else entry m dir v))"

definition unmapped :: "u32 \<Rightarrow> mem \<Rightarrow> nat \<Rightarrow> u32 \<Rightarrow> bool" where
  "unmapped dir m n va \<longleftrightarrow>
     (\<forall>v. unat va \<le> unat v \<and> unat v < unat va + 4096 * n \<longrightarrow> \<not> present (entry m dir v))"

lemma PTE_ADDR_range:
  assumes "aligned va"
  shows "PTE_ADDR v = va \<longleftrightarrow> unat va \<le> unat v \<and> unat v < unat va + 4096"
proof -
  obtain k where k: "unat va = 4096 * k" using assms by (auto simp: aligned_unat elim: dvdE)
  have "PTE_ADDR v = va \<longleftrightarrow> unat v div 4096 * 4096 = 4096 * k"
    by (simp add: u32_eq_iff unat_PTE_ADDR k)
  also have "\<dots> \<longleftrightarrow> 4096 * k \<le> unat v \<and> unat v < 4096 * k + 4096"
    using div_mult_mod_eq [of "unat v" 4096] mod_less_divisor [of 4096 "unat v"] by auto
  finally show ?thesis unfolding k .
qed

lemma mapped_0: "mapped dir m m 0 va pa perm"
  by (auto simp: mapped_def)

lemma mapped_Suc:
  assumes al: "aligned va" and lt: "unat (va + 4096) = unat va + 4096"
    and one: "\<And>v. entry m1 dir v = (if PTE_ADDR v = va then PTE_ADDR pa OR perm OR PTE_P else entry m dir v)"
    and more: "mapped dir m1 m2 n (va + 4096) (pa + 4096) perm"
  shows "mapped dir m m2 (Suc n) va pa perm"
  unfolding mapped_def
proof
  fix v
  have "pa + 4096 + (PTE_ADDR v - (va + 4096)) = pa + (PTE_ADDR v - va)" by simp
  then have "entry m2 dir v =
      (if unat va + 4096 \<le> unat v \<and> unat v < unat va + 4096 + 4096 * n
       then PTE_ADDR (pa + (PTE_ADDR v - va)) OR perm OR PTE_P else entry m1 dir v)"
    using more unfolding mapped_def lt by simp
  moreover have "PTE_ADDR v = va \<longleftrightarrow> unat va \<le> unat v \<and> unat v < unat va + 4096"
    by (rule PTE_ADDR_range [OF al])
  ultimately show "entry m2 dir v =
      (if unat va \<le> unat v \<and> unat v < unat va + 4096 * Suc n
       then PTE_ADDR (pa + (PTE_ADDR v - va)) OR perm OR PTE_P else entry m dir v)"
    unfolding one by auto
qed

lemma unmapped_Suc:
  assumes al: "aligned va" and lt: "unat (va + 4096) = unat va + 4096"
    and one: "\<And>v. entry m1 dir v = (if PTE_ADDR v = va then w else entry m dir v)"
    and un: "unmapped dir m (Suc n) va"
  shows "unmapped dir m1 n (va + 4096)"
  using un PTE_ADDR_range [OF al] unfolding unmapped_def lt one by auto

lemma unat_add_page: "unat va + 4096 < 4294967296 \<Longrightarrow> unat (va + (4096 :: u32)) = unat va + 4096"
  by (simp add: unat_word_ariths)

lemma mappages_loop_spec:
  assumes "pt_ok dir s ps" and "aligned va" and "unmapped dir (mem s) n va"
    and "unat e + 4096 = unat va + 4096 * n" and "unat va + 4096 * n < 4294967296"
  shows "\<exists>r s' us ps' j. mappages_loop dir va e pa perm s = Some (Inr (r, s')) \<and>
    ps = us @ ps' \<and> length us \<le> j \<and> pt_ok dir s' ps' \<and> pt_step dir us s s' \<and>
    mapped dir (mem s) (mem s') j va pa perm \<and>
    (r = 0 \<and> j = n \<or> r = - 1 \<and> j < n \<and> ps' = [])"
  using assms
proof (induction n arbitrary: s ps va pa)
  case 0
  then have "\<not> va \<le> e" by (simp add: word_le_nat_alt)
  with 0 show ?case by (auto simp: mappages_loop.simps [of dir va] mapped_0 intro!: exI [of _ 0])
next
  case (Suc n)
  have lt: "unat (va + 4096) = unat va + 4096" using Suc.prems by (intro unat_add_page) simp
  have le: "va \<le> e" using Suc.prems by (simp add: word_le_nat_alt)
  have un: "\<not> present (entry (mem s) dir va)" using Suc.prems(3) by (simp add: unmapped_def)
  have pva: "PTE_ADDR va = va" using Suc.prems(2) by (simp add: PTE_ADDR_aligned)
  show ?case
  proof (rule map_step [OF Suc.prems(1) le un, of pa perm])
    assume "ps = []" "mappages_loop dir va e pa perm s = Some (Inr (- 1, s))"
    with Suc.prems(1) show ?case by (auto simp: mapped_0 intro!: exI [of _ 0])
  next
    fix s2 us ps2
    assume step: "mappages_loop dir va e pa perm s =
        mappages_loop dir (va + PGSIZE) e (pa + PGSIZE) perm s2"
      and ps: "ps = us @ ps2" "length us \<le> 1" and ok2: "pt_ok dir s2 ps2" and st: "pt_step dir us s s2"
      and en: "\<And>v. entry (mem s2) dir v =
        (if PTE_ADDR v = PTE_ADDR va then PTE_ADDR pa OR perm OR PTE_P else entry (mem s) dir v)"
    note one = en [unfolded pva]
    have "unmapped dir (mem s2) n (va + 4096)"
      by (rule unmapped_Suc [OF Suc.prems(2) lt one Suc.prems(3)])
    from Suc.IH [OF ok2 _ this, of "pa + 4096"] obtain r s' vs ps' j where
      res: "mappages_loop dir (va + 4096) e (pa + 4096) perm s2 = Some (Inr (r, s'))"
        "ps2 = vs @ ps'" "length vs \<le> j" "pt_ok dir s' ps'"
      and st': "pt_step dir vs s2 s'" and mp: "mapped dir (mem s2) (mem s') j (va + 4096) (pa + 4096) perm"
      and r: "r = 0 \<and> j = n \<or> r = - 1 \<and> j < n \<and> ps' = []"
      using Suc.prems by (auto simp: lt)
    have "mapped dir (mem s) (mem s') (Suc j) va pa perm"
      by (rule mapped_Suc [OF Suc.prems(2) lt one mp])
    with step res ps r pt_step_trans [OF st st'] show ?case
      by (intro exI [of _ r] exI [of _ s'] exI [of _ "us @ vs"] exI [of _ ps'] exI [of _ "Suc j"]) auto
  qed
qed

text \<open>The number of pages the bytes \<open>va .. va + sz - 1\<close> lie on.\<close>

definition span :: "u32 \<Rightarrow> u32 \<Rightarrow> nat" where
  "span va sz = (unat va + unat sz - 1) div 4096 + 1 - unat va div 4096"

lemma mappages_spec:
  assumes ok: "pt_ok dir s ps" and un: "unmapped dir (mem s) (span va sz) (PGROUNDDOWN va)"
    and sz: "0 < unat sz" "unat va + unat sz \<le> 4294963200"
  shows "\<exists>r s' us ps' j. mappages dir va pa sz perm s = Inr (r, s') \<and>
    ps = us @ ps' \<and> length us \<le> j \<and> pt_ok dir s' ps' \<and> pt_step dir us s s' \<and>
    mapped dir (mem s) (mem s') j (PGROUNDDOWN va) pa perm \<and>
    (r = 0 \<and> j = span va sz \<or> r = - 1 \<and> j < span va sz \<and> ps' = [])"
proof -
  let ?e = "PGROUNDDOWN (va + sz - 1)" and ?n = "span va sz"
  have "va + sz - 1 = of_nat (unat va + unat sz - 1)" using sz(1) by (simp add: of_nat_diff)
  then have "unat (va + sz - 1) = unat va + unat sz - 1"
    using unat_of_nat32 [of "unat va + unat sz - 1"] sz by simp
  then have e: "unat ?e = (unat va + unat sz - 1) div 4096 * 4096"
    by (simp add: PGROUNDDOWN_eq unat_PTE_ADDR)
  have b: "unat (PGROUNDDOWN va) = unat va div 4096 * 4096"
    by (simp add: PGROUNDDOWN_eq unat_PTE_ADDR)
  have le: "unat va div 4096 \<le> (unat va + unat sz - 1) div 4096"
    using sz(1) by (intro div_le_mono) simp
  have lt: "(unat va + unat sz - 1) div 4096 < 1048575"
    using sz by (intro less_mult_imp_div_less) simp
  have "unat ?e + 4096 = unat (PGROUNDDOWN va) + 4096 * ?n"
    "unat (PGROUNDDOWN va) + 4096 * ?n < 4294967296"
    using le lt unfolding e b span_def by linarith+
  moreover have "aligned (PGROUNDDOWN va)" by (simp add: PGROUNDDOWN_eq)
  ultimately obtain r s' us ps' j where "mappages_loop dir (PGROUNDDOWN va) ?e pa perm s = Some (Inr (r, s'))"
    "ps = us @ ps' \<and> length us \<le> j \<and> pt_ok dir s' ps' \<and> pt_step dir us s s' \<and>
      mapped dir (mem s) (mem s') j (PGROUNDDOWN va) pa perm \<and>
      (r = 0 \<and> j = ?n \<or> r = - 1 \<and> j < ?n \<and> ps' = [])"
    using mappages_loop_spec [OF ok _ un, of ?e pa perm] by blast
  then show ?thesis
    by (intro exI [of _ r] exI [of _ s'] exI [of _ us] exI [of _ ps'] exI [of _ j])
      (simp add: mappages_def ended_def)
qed

section \<open>Removing a mapping\<close>

lemma pt_frame:
  assumes al: "aligned dir" and same: "\<forall>p \<in> pt_pages m dir. \<forall>x \<in> rng p 4096. m' x = m x"
  shows "unat i < 1024 \<Longrightarrow> pde_at m' dir i = pde_at m dir i"
    and "unat i < 1024 \<Longrightarrow> tab m' dir i = tab m dir i"
    and "entry m' dir v = entry m dir v"
    and "pt_pages m' dir = pt_pages m dir"
proof -
  have ld: "ld32 m' (p + 4 * i) = ld32 m (p + 4 * i)"
    if "p \<in> pt_pages m dir" "aligned p" "unat i < 1024" for p i
    using that slot_in_page [of p i] same by (auto intro!: ld32_cong)
  show pde: "pde_at m' dir i = pde_at m dir i" if "unat i < 1024" for i
    using that ld [of dir i] al by (simp add: pde_at_def pt_pages_def)
  then show tb: "tab m' dir i = tab m dir i" if "unat i < 1024" for i
    using that by (simp add: tab_def)
  have "tab m dir (PDX v) \<in> pt_pages m dir" if "present (pde_at m dir (PDX v))"
    using that PDX_less by (auto simp: pt_pages_def)
  then show "entry m' dir v = entry m dir v"
    using ld [of "tab m dir (PDX v)" "PTX v"] by (simp add: entry_def pde tb)
  show "pt_pages m' dir = pt_pages m dir"
    unfolding pt_pages_def using pde tb by (metis (no_types, lifting))
qed

lemma pt_ok_pages:
  assumes "pt_ok dir s ps" and "p \<in> pt_pages (mem s) dir"
  shows "aligned p" and "p \<notin> set ps"
  using assms pt_okD(2,3,4) [OF assms(1)] by (auto simp: pt_pages_def)

text \<open>The frame an address is mapped to, at its kernel address.\<close>

definition frame_of :: "mem \<Rightarrow> u32 \<Rightarrow> u32 \<Rightarrow> u32" where
  "frame_of m dir va = P2V (PTE_ADDR (entry m dir va))"

lemma aligned_frame_of [simp]: "aligned (frame_of m dir va)"
  by (simp add: frame_of_def)

lemma freed_pt:
  assumes ok: "pt_ok dir s ps" and f: "page_ok s f" "f \<notin> set ps" "f \<notin> pt_pages (mem s) dir"
  shows "pt_ok dir (freed f s) (f # ps)" and "entry (mem (freed f s)) dir v = entry (mem s) dir v"
    and "pt_pages (mem (freed f s)) dir = pt_pages (mem s) dir"
proof -
  let ?m = "mem (freed f s)"
  have al: "aligned f" using f(1) by (simp add: page_ok_def)
  have "?m x = mem s x" if "p \<in> pt_pages (mem s) dir" "x \<in> rng p 4096" for p x
  proof -
    have "rng p 4096 \<inter> rng f 4096 = {}"
      using that f(3) by (intro page_disjoint pt_ok_pages(1) [OF ok] al) auto
    with that show ?thesis by (intro freed_out al) auto
  qed
  then have "\<forall>p \<in> pt_pages (mem s) dir. \<forall>x \<in> rng p 4096. ?m x = mem s x" by blast
  note fr = pt_frame [OF pt_okD(2) [OF ok] this]
  show "entry ?m dir v = entry (mem s) dir v" "pt_pages ?m dir = pt_pages (mem s) dir"
    by (rule fr)+
  have "dir_wf ?m dir (set (f # ps)) \<longleftrightarrow> dir_wf (mem s) dir (set (f # ps))"
    using fr(1,2) by (simp add: dir_wf_def cong: conj_cong)
  moreover have "dir_wf (mem s) dir (set (f # ps))"
    using ok f(3) unfolding pt_ok_def dir_wf_def pt_pages_def by auto
  ultimately show "pt_ok dir (freed f s) (f # ps)"
    using freed_inv [OF pt_okD(1) [OF ok] f(1,2)] by (simp add: pt_ok_def)
qed

lemma unmap_page_eq:
  assumes ok: "pt_ok dir s ps" and pr: "present (entry (mem s) dir va)"
    and f: "f = frame_of (mem s) dir va" "page_ok s f"
  shows "unmap_page dir va s = Inr (freed f (s\<lparr>mem := st32 (mem s) (slot (mem s) dir va) 0\<rparr>))"
    and "present (pde_at (mem s) dir (PDX va))"
proof -
  show pd: "present (pde_at (mem s) dir (PDX va))"
    using pr by (cases "present (pde_at (mem s) dir (PDX va))") (simp_all add: entry_def)
  let ?s = "s\<lparr>mem := st32 (mem s) (slot (mem s) dir va) 0\<rparr>"
  have "page_ok ?s f" using f(2) by (simp add: page_ok_def)
  moreover have "unmap_page dir va s = kfree_page f ?s"
    using pr slot_nonnull [OF ok pd] walk_present [OF pd, of False]
    by (simp add: unmap_page_def ld32_slot [OF pd] present_def f(1) frame_of_def V2P_eq_P2V)
  ultimately show "unmap_page dir va s = Inr (freed f ?s)" using kfree_page_ok by simp
qed

lemma unmap_page_spec:
  assumes ok: "pt_ok dir s ps" and pr: "present (entry (mem s) dir va)"
    and f: "f = frame_of (mem s) dir va" "page_ok s f" "f \<notin> set ps" "f \<notin> pt_pages (mem s) dir"
  shows "\<exists>s'. unmap_page dir va s = Inr s' \<and> pt_ok dir s' (f # ps) \<and>
    (\<forall>v. entry (mem s') dir v = (if PTE_ADDR v = PTE_ADDR va then 0 else entry (mem s) dir v)) \<and>
    pt_pages (mem s') dir = pt_pages (mem s) dir \<and> memsz s' = memsz s \<and> mem_start s' = mem_start s \<and>
    (\<forall>x. x \<notin> rng f 4096 \<and> (\<forall>p \<in> pt_pages (mem s) dir. x \<notin> rng p 4096) \<longrightarrow> mem s' x = mem s x)"
proof -
  note eq = unmap_page_eq [OF ok pr f(1,2)]
  note pd = eq(2)
  let ?s = "s\<lparr>mem := st32 (mem s) (slot (mem s) dir va) 0\<rparr>"
  have ok1: "pt_ok dir ?s ps" by (rule set_entry_ok [OF ok pd])
  have pg: "pt_pages (mem ?s) dir = pt_pages (mem s) dir"
    using set_entry_step [OF ok pd, of 0] by (simp add: pt_step_def)
  have f1: "page_ok ?s f" "f \<notin> pt_pages (mem ?s) dir" using f(2,4) unfolding pg by (simp_all add: page_ok_def)
  note fp = freed_pt [OF ok1 f1(1) f(3) f1(2)]
  have "entry (mem (freed f ?s)) dir v = (if PTE_ADDR v = PTE_ADDR va then 0 else entry (mem s) dir v)" for v
    using fp(2) [of v] set_entry_mem(4) [OF ok pd refl, of 0 v] by simp
  moreover have "mem (freed f ?s) x = mem s x" if "x \<notin> rng f 4096" "\<forall>p \<in> pt_pages (mem s) dir. x \<notin> rng p 4096" for x
  proof -
    have "tab (mem s) dir (PDX va) \<in> pt_pages (mem s) dir" using pd PDX_less by (auto simp: pt_pages_def)
    then have "mem ?s x = mem s x" using that(2) set_entry_mem(3) [OF ok pd refl, of x 0] by simp
    then show ?thesis using freed_out [of f x ?s] that(1) f(2) by (simp add: page_ok_def)
  qed
  moreover have "memsz (freed f ?s) = memsz s" "mem_start (freed f ?s) = mem_start s" by (simp_all add: freed_def)
  ultimately show ?thesis using eq(1) fp(1,3) pg by (intro exI [of _ "freed f ?s"]) simp
qed

section \<open>Copying into another address space\<close>

text \<open>
  \<open>uaddr m dir v\<close> is the kernel address of the byte a task with directory \<open>dir\<close> sees at \<open>v\<close>;
  \<open>ubuf\<close> says that the \<open>n\<close> bytes from \<open>va\<close> are user memory of \<open>dir\<close>: mapped, accessible, on frames
  that hold no page table, are not free (in \<open>F\<close>) and are not shared by two of the pages.
\<close>

definition uaddr :: "mem \<Rightarrow> u32 \<Rightarrow> u32 \<Rightarrow> u32" where
  "uaddr m dir v = frame_of m dir v + (v - PTE_ADDR v)"

definition ubuf :: "u32 \<Rightarrow> mem \<Rightarrow> u32 set \<Rightarrow> u32 \<Rightarrow> nat \<Rightarrow> bool" where
  "ubuf dir m F va n \<longleftrightarrow>
     (\<forall>v \<in> rng va n. present (entry m dir v) \<and> entry m dir v AND PTE_U \<noteq> 0 \<and>
        frame_of m dir v \<noteq> 0 \<and> frame_of m dir v \<notin> pt_pages m dir \<and> frame_of m dir v \<notin> F) \<and>
     (\<forall>v \<in> rng va n. \<forall>w \<in> rng va n.
        frame_of m dir v = frame_of m dir w \<longrightarrow> PTE_ADDR v = PTE_ADDR w)"

definition ubytes :: "u32 \<Rightarrow> mem \<Rightarrow> u32 \<Rightarrow> nat \<Rightarrow> u32 set" where
  "ubytes dir m va n = uaddr m dir ` rng va n"

lemma uva2ka_present:
  assumes ok: "pt_ok dir s ps" and pr: "present (entry (mem s) dir v)"
    and u: "entry (mem s) dir v AND PTE_U \<noteq> 0"
  shows "uva2ka dir v s = Inr (frame_of (mem s) dir v)"
proof -
  have pd: "present (pde_at (mem s) dir (PDX v))"
    using pr by (cases "present (pde_at (mem s) dir (PDX v))") (simp_all add: entry_def)
  then show ?thesis
    using pr u slot_nonnull [OF ok pd] walk_present [OF pd, of False]
    by (simp add: uva2ka_def ld32_slot [OF pd] present_def frame_of_def)
qed

lemma entry_page: "PTE_ADDR v = PTE_ADDR w \<Longrightarrow> entry m dir v = entry m dir w"
  by (simp add: entry_def same_page_iff)

lemma page_offset: "unat (v - PTE_ADDR v) = unat v mod 4096"
  by (simp add: PTE_ADDR_eq unat_mod)

lemma uaddr_in_frame: "uaddr m dir v \<in> rng (frame_of m dir v) 4096"
  by (simp add: uaddr_def rng_def page_offset)

text \<open>The bytes of a range that lie on the page of its first byte.\<close>

lemma uaddr_first_page:
  assumes "j < 4096 - unat va mod 4096"
  shows "PTE_ADDR (va + of_nat j) = PTE_ADDR va"
    and "uaddr m dir (va + of_nat j) = uaddr m dir va + of_nat j"
proof -
  have "unat va = unat va div 4096 * 4096 + unat va mod 4096" by simp
  with assms have *: "unat va + j < unat va div 4096 * 4096 + 4096" by linarith
  have "unat (PTE_ADDR va) + 4096 \<le> 4294967296" by (rule aligned_room) simp
  with * have "unat (va + of_nat j) = unat va + j" by (simp add: unat_PTE_ADDR unat_word_ariths)
  then show p: "PTE_ADDR (va + of_nat j) = PTE_ADDR va"
    using * by (subst PTE_ADDR_range) (simp_all add: unat_PTE_ADDR)
  show "uaddr m dir (va + of_nat j) = uaddr m dir va + of_nat j"
    by (simp add: uaddr_def frame_of_def entry_page [OF p] p)
qed

lemma split_first_page:
  assumes "unat va + n \<le> 4294967296" and k: "k = min (4096 - unat va mod 4096) n"
    and nx: "nx = PTE_ADDR va + 4096"
  shows "v \<in> rng va n \<longleftrightarrow> (\<exists>j < k. v = va + of_nat j) \<or> v \<in> rng nx (n - k)"
    and "v \<in> rng nx (n - k) \<Longrightarrow> PTE_ADDR v \<noteq> PTE_ADDR va \<and> v - nx = v - va - of_nat k"
    and "unat nx + (n - k) \<le> 4294967296"
proof -
  have "unat va = unat (PTE_ADDR va) + unat va mod 4096" by (simp add: unat_PTE_ADDR)
  moreover have "unat va mod 4096 < 4096" by simp
  ultimately have pg: "unat (PTE_ADDR va) + 4096 = unat va + k" if "k < n"
    using that k by linarith
  with assms(1) have u: "unat nx = unat va + k" if "k < n"
    using that unfolding nx by (simp add: unat_add_page)
  show bound: "unat nx + (n - k) \<le> 4294967296"
    using assms(1) u u32_less [of nx] by (cases "k < n") simp_all
  have first: "v \<in> rng va k \<longleftrightarrow> (\<exists>j < k. v = va + of_nat j)"
    using assms(1) k by (auto elim!: rng_of_nat simp: rng_def)
  have "v \<in> rng va n \<longleftrightarrow> v \<in> rng va k \<or> v \<in> rng nx (n - k)"
  proof (cases "k < n")
    case True
    with assms(1) u show ?thesis by (auto simp: rng_iff)
  next
    case False
    with k have "n = k" by simp
    then show ?thesis by simp
  qed
  then show "v \<in> rng va n \<longleftrightarrow> (\<exists>j < k. v = va + of_nat j) \<or> v \<in> rng nx (n - k)"
    unfolding first .
  show "PTE_ADDR v \<noteq> PTE_ADDR va \<and> v - nx = v - va - of_nat k" if v: "v \<in> rng nx (n - k)"
  proof -
    have kn: "k < n" using v by (cases "k < n") simp_all
    then have "nx = va + of_nat k"
      using u u32_less [of nx] by (simp add: u32_eq_iff unat_word_ariths)
    moreover have "unat nx \<le> unat v" using v bound by (simp add: rng_iff)
    then have "PTE_ADDR v \<noteq> PTE_ADDR va"
      using u pg kn PTE_ADDR_range [of "PTE_ADDR va" v] by simp
    ultimately show ?thesis by (simp add: algebra_simps)
  qed
qed

lemma user_write_ok:
  assumes ok: "pt_ok dir s ps" and f: "aligned f" "f \<notin> set ps" "f \<notin> pt_pages (mem s) dir"
    and m': "\<forall>x. x \<notin> rng f 4096 \<longrightarrow> m' x = mem s x"
  shows "pt_ok dir (s\<lparr>mem := m'\<rparr>) ps" and "entry m' dir = entry (mem s) dir"
    and "pt_pages m' dir = pt_pages (mem s) dir"
proof -
  have other: "m' x = mem s x" if "aligned p" "p \<noteq> f" "x \<in> rng p 4096" for p x
    using m' page_disjoint [OF that(1) f(1) that(2)] that(3) by auto
  have "\<forall>p \<in> pt_pages (mem s) dir. \<forall>x \<in> rng p 4096. m' x = mem s x"
    using other pt_ok_pages(1) [OF ok] f(3) by metis
  note fr = pt_frame [OF pt_okD(2) [OF ok] this]
  show "entry m' dir = entry (mem s) dir" "pt_pages m' dir = pt_pages (mem s) dir"
    using fr(3,4) by auto
  have "dir_wf m' dir (set ps)"
    using ok fr(1,2) by (simp add: pt_ok_def dir_wf_def cong: conj_cong)
  moreover have "free_inv (s\<lparr>mem := m'\<rparr>) ps"
    using other pt_okD(6) [OF ok] f(2) by (intro free_inv_frame [OF pt_okD(1) [OF ok]]) metis
  ultimately show "pt_ok dir (s\<lparr>mem := m'\<rparr>) ps" by (simp add: pt_ok_def)
qed

text \<open>What one round of the loop of \<^verbatim>\<open>copyout\<close> does: the part of the buffer on the first page.\<close>

lemma copyout_round:
  assumes ok: "pt_ok dir s ps" and ub: "ubuf dir (mem s) (set ps) va (unat len)" and len: "len \<noteq> 0"
    and src: "unat buf + unat len < 4294967296"
    and k: "k = min (4096 - unat va mod 4096) (unat len)"
  shows "copyout dir va buf len s =
    copyout dir (PTE_ADDR va + 4096) (buf + of_nat k) (len - of_nat k)
      (s\<lparr>mem := blit (mem s) (uaddr (mem s) dir va) buf k\<rparr>)"
proof -
  let ?f = "frame_of (mem s) dir va"
  have "va \<in> rng va (unat len)" using len by (simp add: unat_gt_0)
  then have v: "present (entry (mem s) dir va)" "entry (mem s) dir va AND PTE_U \<noteq> 0" "?f \<noteq> 0"
    using ub by (auto simp: ubuf_def)
  have e: "entry (mem s) dir (PTE_ADDR va) = entry (mem s) dir va" by (rule entry_page) simp
  have ka: "uva2ka dir (PTE_ADDR va) s = Inr ?f"
    using uva2ka_present [OF ok, of "PTE_ADDR va"] v(1,2) by (simp add: e frame_of_def)
  have off: "unat (va - PTE_ADDR va) = unat va mod 4096" by (rule page_offset)
  then have "unat (4096 - (va - PTE_ADDR va)) = 4096 - unat va mod 4096"
    by (subst unat_sub) (simp_all add: word_le_nat_alt less_imp_le)
  then have n: "min (4096 - (va - PTE_ADDR va)) len = of_nat k"
    using u32_less [of len] by (simp add: k min_def word_le_nat_alt u32_eq_iff)
  have uk: "unat (of_nat k :: u32) = k" using u32_less [of len] by (simp add: k min_def)
  have "unat (uaddr (mem s) dir va) = unat ?f + unat va mod 4096"
    using aligned_room [of ?f] mod_less_divisor [of 4096 "unat va"] off
    by (simp add: uaddr_def unat_word_ariths)
  then have "unat (uaddr (mem s) dir va) + k \<le> 4294967296"
    using aligned_room [of ?f] mod_less_divisor [of 4096 "unat va"] k by simp
  then have "memmove (mem s) (uaddr (mem s) dir va) buf (of_nat k) = blit (mem s) (uaddr (mem s) dir va) buf k"
    using memmove_blit [of buf "of_nat k" "uaddr (mem s) dir va" "mem s"] src k by (simp add: uk)
  then show ?thesis
    using len v(3) by (subst copyout.simps) (simp add: PGROUNDDOWN_eq Let_def ka n uaddr_def)
qed

text \<open>The part on the first page and the rest of the buffer lie on different frames.\<close>

lemma ubuf_rest:
  assumes ub: "ubuf dir m F va n" and b: "unat va + n \<le> 4294967296" and n: "0 < n"
    and k: "k = min (4096 - unat va mod 4096) n"
    and same: "entry m' dir = entry m dir" "pt_pages m' dir = pt_pages m dir"
  shows "ubuf dir m' F (PTE_ADDR va + 4096) (n - k)"
    and "j < k \<Longrightarrow> uaddr m dir (va + of_nat j) \<notin> ubytes dir m (PTE_ADDR va + 4096) (n - k)"
proof -
  note sp = split_first_page [OF b k refl]
  have fr: "frame_of m' dir = frame_of m dir" by (simp add: frame_of_def same fun_eq_iff)
  have sub: "rng (PTE_ADDR va + 4096) (n - k) \<subseteq> rng va n" using sp(1) by auto
  then show "ubuf dir m' F (PTE_ADDR va + 4096) (n - k)"
    using ub unfolding ubuf_def fr same by blast
  assume j: "j < k"
  then have p: "PTE_ADDR (va + of_nat j) = PTE_ADDR va" using k by (intro uaddr_first_page) simp
  show "uaddr m dir (va + of_nat j) \<notin> ubytes dir m (PTE_ADDR va + 4096) (n - k)"
  proof
    assume "uaddr m dir (va + of_nat j) \<in> ubytes dir m (PTE_ADDR va + 4096) (n - k)"
    then obtain w where w: "w \<in> rng (PTE_ADDR va + 4096) (n - k)"
      and eq: "uaddr m dir (va + of_nat j) = uaddr m dir w" by (auto simp: ubytes_def)
    have "PTE_ADDR (va + of_nat j) \<noteq> PTE_ADDR w" using sp(2) [OF w] p by auto
    moreover have "va + of_nat j \<in> rng va n" "w \<in> rng va n" using sp(1) j w by auto
    ultimately have "frame_of m dir (va + of_nat j) \<noteq> frame_of m dir w"
      using ub unfolding ubuf_def by blast
    then have "rng (frame_of m dir (va + of_nat j)) 4096 \<inter> rng (frame_of m dir w) 4096 = {}"
      by (intro page_disjoint) simp_all
    then show False using uaddr_in_frame [of m dir] eq by (metis disjoint_iff)
  qed
qed

lemma blit_user:
  assumes k: "k \<le> 4096 - unat va mod 4096" and m': "m' = blit m (uaddr m dir va) buf k"
  shows "j < k \<Longrightarrow> m' (uaddr m dir (va + of_nat j)) = m (buf + of_nat j)"
    and "(\<And>j. j < k \<Longrightarrow> x \<noteq> uaddr m dir (va + of_nat j)) \<Longrightarrow> m' x = m x"
    and "x \<notin> rng (frame_of m dir va) 4096 \<Longrightarrow> m' x = m x"
proof -
  have u: "uaddr m dir (va + of_nat j) = uaddr m dir va + of_nat j" if "j < k" for j
    using that k by (intro uaddr_first_page) simp
  show "m' (uaddr m dir (va + of_nat j)) = m (buf + of_nat j)" if "j < k"
    using that k by (simp add: u m' blit_def rng_def)
  show out: "m' x = m x" if no: "\<And>j. j < k \<Longrightarrow> x \<noteq> uaddr m dir (va + of_nat j)" for x
  proof -
    have "x \<notin> rng (uaddr m dir va) k"
    proof
      assume "x \<in> rng (uaddr m dir va) k"
      then obtain j where "j < k" "x = uaddr m dir va + of_nat j" using k by (elim rng_of_nat) simp_all
      with no [of j] u show False by simp
    qed
    then show ?thesis by (simp add: m' blit_out)
  qed
  show "m' x = m x" if "x \<notin> rng (frame_of m dir va) 4096"
  proof (rule out)
    fix j
    assume "j < k"
    then have p: "PTE_ADDR (va + of_nat j) = PTE_ADDR va" using k by (intro uaddr_first_page) simp
    have "frame_of m dir (va + of_nat j) = frame_of m dir va" by (simp add: frame_of_def entry_page [OF p])
    with that uaddr_in_frame [of m dir "va + of_nat j"] show "x \<noteq> uaddr m dir (va + of_nat j)" by auto
  qed
qed

lemma copyout_spec:
  assumes "pt_ok dir s ps" and "ubuf dir (mem s) (set ps) va (unat len)"
    and "unat va + unat len \<le> 4294967296" and "unat buf + unat len < 4294967296"
    and "\<forall>v \<in> rng va (unat len). rng (frame_of (mem s) dir v) 4096 \<inter> rng buf (unat len) = {}"
  shows "\<exists>s'. copyout dir va buf len s = Inr (0, s') \<and> pt_ok dir s' ps \<and>
    entry (mem s') dir = entry (mem s) dir \<and>
    (\<forall>v \<in> rng va (unat len). mem s' (uaddr (mem s) dir v) = mem s (buf + (v - va))) \<and>
    (\<forall>x. x \<notin> ubytes dir (mem s) va (unat len) \<longrightarrow> mem s' x = mem s x)"
  using assms
proof (induction "unat len" arbitrary: va buf len s rule: less_induct)
  case less
  note ok = less.prems(1) and ub = less.prems(2) and b = less.prems(3)
  show ?case
  proof (cases "len = 0")
    case True
    with ok show ?thesis by (subst copyout.simps) simp
  next
    case len: False
    define k where k: "k = min (4096 - unat va mod 4096) (unat len)"
    define m where m: "m = blit (mem s) (uaddr (mem s) dir va) buf k"
    let ?nx = "PTE_ADDR va + 4096" and ?s = "s\<lparr>mem := m\<rparr>" and ?l = "len - of_nat k"
    have n: "0 < unat len" "0 < k" "k \<le> unat len" and kp: "k \<le> 4096 - unat va mod 4096"
      using len k by (simp_all add: unat_gt_0)
    have uk: "unat ?l = unat len - k"
      using n u32_less [of len] by (subst unat_sub) (simp_all add: word_le_nat_alt)
    have va: "va \<in> rng va (unat len)" using n by simp
    have f: "frame_of (mem s) dir va \<notin> set ps" "frame_of (mem s) dir va \<notin> pt_pages (mem s) dir"
      using ub va by (auto simp: ubuf_def)
    note bl = blit_user [OF kp m] and sp = split_first_page [OF b k refl]
    have out: "\<forall>x. x \<notin> rng (frame_of (mem s) dir va) 4096 \<longrightarrow> m x = mem s x" using bl(3) by blast
    note wr = user_write_ok [OF ok aligned_frame_of f out]
    note rest = ubuf_rest [OF ub b n(1) k wr(2,3)]
    have fr: "frame_of m dir v = frame_of (mem s) dir v" for v by (simp add: frame_of_def wr(2))
    have ua: "uaddr m dir v = uaddr (mem s) dir v" for v by (simp add: uaddr_def fr)
    have ub': "ubytes dir m a c = ubytes dir (mem s) a c" for a c by (simp add: ubytes_def ua)
    have rsub: "rng (buf + of_nat k) (unat len - k) \<subseteq> rng buf (unat len)"
      using less.prems(4) n by (auto simp: rng_iff unat_word_ariths)
    have src: "unat (buf + of_nat k) + (unat len - k) < 4294967296"
      using less.prems(4) n by (simp add: unat_word_ariths)
    have dj: "\<forall>v \<in> rng ?nx (unat len - k).
        rng (frame_of m dir v) 4096 \<inter> rng (buf + of_nat k) (unat len - k) = {}"
      using less.prems(5) sp(1) rsub unfolding fr by blast
    obtain s' where s': "copyout dir ?nx (buf + of_nat k) ?l ?s = Inr (0, s')"
        "pt_ok dir s' ps" "entry (mem s') dir = entry m dir"
      and new: "\<forall>v \<in> rng ?nx (unat len - k). mem s' (uaddr m dir v) = m (buf + of_nat k + (v - ?nx))"
      and old: "\<forall>x. x \<notin> ubytes dir m ?nx (unat len - k) \<longrightarrow> mem s' x = m x"
      using less.hyps [of ?l ?s ?nx "buf + of_nat k"] wr(1) rest(1) sp(3) src dj n
      unfolding uk by auto
    have "copyout dir va buf len s = Inr (0, s')"
      using copyout_round [OF ok ub len less.prems(4) k] s'(1) by (simp add: m)
    moreover have "mem s' (uaddr (mem s) dir v) = mem s (buf + (v - va))" if v: "v \<in> rng va (unat len)" for v
    proof (cases "v \<in> rng ?nx (unat len - k)")
      case True
      have "buf + (v - va) \<in> rng buf (unat len)" using v by (simp add: rng_def)
      then have "m (buf + (v - va)) = mem s (buf + (v - va))" using less.prems(5) va out by blast
      moreover have "buf + of_nat k + (v - ?nx) = buf + (v - va)"
        unfolding conjunct2 [OF sp(2) [OF True]] by simp
      moreover have "mem s' (uaddr (mem s) dir v) = m (buf + of_nat k + (v - ?nx))"
        using new True unfolding ua by blast
      ultimately show ?thesis by metis
    next
      case False
      with v sp(1) [of v] obtain j where j: "j < k" "v = va + of_nat j" by blast
      have "mem s' (uaddr (mem s) dir v) = m (uaddr (mem s) dir v)"
        using rest(2) [OF j(1)] old unfolding ub' j(2) by blast
      with bl(1) [OF j(1)] j(2) show ?thesis by simp
    qed
    moreover have "mem s' x = mem s x" if x: "x \<notin> ubytes dir (mem s) va (unat len)" for x
    proof -
      have "x \<notin> ubytes dir m ?nx (unat len - k)" using x sp(1) unfolding ub' unfolding ubytes_def by blast
      moreover have "x \<noteq> uaddr (mem s) dir (va + of_nat j)" if "j < k" for j
        using x sp(1) [of "va + of_nat j"] that unfolding ubytes_def by blast
      then have "m x = mem s x" by (rule bl(2))
      ultimately show ?thesis using old by simp
    qed
    ultimately show ?thesis using s'(2,3) wr(2) by metis
  qed
qed

section \<open>The kernel part of an address space\<close>

lemma fresh_dir:
  assumes inv: "free_inv s (p # ps)"
    and s1: "s1 = s\<lparr>free_list := ld32 (mem s) p, mem := memset (mem s) p 0 PGSIZE\<rparr>"
  shows "pt_ok p s1 ps" and "entry (mem s1) p v = 0"
proof -
  have al: "aligned p" and p: "p \<notin> set ps" using free_invD(1,2) [OF inv] by auto
  have pde: "pde_at (mem s1) p i = 0" if "unat i < 1024" for i
    using that al by (simp add: s1 pde_at_def ld_memset_slot)
  then show "entry (mem s1) p v = 0" by (simp add: entry_def)
  have "memset (mem s) p 0 PGSIZE x = mem s x" if "q \<in> set ps" "x \<in> rng q 4096" for q x
  proof -
    have "rng q 4096 \<inter> rng p 4096 = {}"
      using that p al free_invD(2) [OF inv] by (intro page_disjoint) auto
    with that show ?thesis by (intro memset_out) auto
  qed
  from free_inv_frame [OF kalloc_page_Cons(2) [OF inv], of "memset (mem s) p 0 PGSIZE"] this
  have "free_inv s1 ps" by (simp add: s1)
  with al p pde show "pt_ok p s1 ps" by (simp add: pt_ok_def dir_wf_def cong: conj_cong)
qed

lemma mapped_kernel:
  assumes "mapped dir m m' n va (V2P va) perm" and "aligned va"
    and "unat va \<le> unat v" and "unat v < unat va + 4096 * n"
  shows "entry m' dir v = PTE_ADDR (V2P v) OR perm OR PTE_P"
proof -
  have "V2P va + (PTE_ADDR v - va) = V2P (PTE_ADDR v)" by (simp add: V2P_def)
  moreover have "PTE_ADDR (V2P v) = V2P (PTE_ADDR v)"
  proof -
    have "(unat v + 2147483648) mod 4294967296 mod 4096 = unat v mod 4096"
      using mod_mult_self2 [of "unat v" 4096 524288] by (simp add: mod_mod_cancel)
    then have "P2V v mod 4096 = v mod 4096" by (simp add: u32_eq_iff unat_mod P2V_def unat_word_ariths)
    then show ?thesis by (simp add: PTE_ADDR_eq V2P_eq_P2V) (simp add: P2V_def)
  qed
  ultimately show ?thesis using assms by (simp add: mapped_def)
qed

lemma mapped_else:
  "mapped dir m m' n va pa perm \<Longrightarrow> \<not> (unat va \<le> unat v \<and> unat v < unat va + 4096 * n) \<Longrightarrow>
   entry m' dir v = entry m dir v"
  by (auto simp: mapped_def)

text \<open>
  One \<^verbatim>\<open>mappages\<close> call of \<^verbatim>\<open>mapkvm\<close>: addresses from \<open>va\<close> on that are not mapped yet are mapped to
  the physical addresses they stand for; \<open>-1\<close> only when the free pages are used up.
\<close>

lemma map_kernel_range:
  assumes ok: "pt_ok dir s ps" and al: "aligned va" and sz: "0 < unat sz" "unat va + unat sz \<le> 4294963200"
    and un: "\<forall>v. unat va \<le> unat v \<longrightarrow> entry (mem s) dir v = 0"
    and pa: "pa = V2P va"
  obtains (oom) s' where "mappages dir va pa sz perm s = Inr (- 1, s')" "pt_ok dir s' []"
  | (full) s' ps' where "mappages dir va pa sz perm s = Inr (0, s')" "pt_ok dir s' ps'"
      "memsz s' = memsz s"
      "\<And>v. unat v < unat va \<Longrightarrow> entry (mem s') dir v = entry (mem s) dir v"
      "\<And>v. unat va \<le> unat v \<Longrightarrow> unat v < unat va + unat sz \<Longrightarrow>
        entry (mem s') dir v = PTE_ADDR (V2P v) OR perm OR PTE_P"
      "\<And>v. aligned (va + sz) \<Longrightarrow> unat va + unat sz \<le> unat v \<Longrightarrow> entry (mem s') dir v = 0"
proof -
  have pv: "PGROUNDDOWN va = va" using al by (simp add: PGROUNDDOWN_eq)
  have un': "unmapped dir (mem s) (span va sz) (PGROUNDDOWN va)"
    using un by (auto simp: unmapped_def pv)
  obtain k where k: "unat va = 4096 * k" using al by (auto simp: aligned_unat elim: dvdE)
  have n: "4096 * span va sz = (unat sz - 1) div 4096 * 4096 + 4096"
  proof -
    have "(unat va + unat sz - 1) div 4096 = (unat sz - 1 + k * 4096) div 4096"
      using sz(1) by (simp add: k algebra_simps)
    also have "\<dots> = k + (unat sz - 1) div 4096" by simp
    finally show ?thesis by (simp add: span_def k)
  qed
  have top: "unat va + unat sz \<le> unat va + 4096 * span va sz"
    using div_mult_mod_eq [of "unat sz - 1" 4096] mod_less_divisor [of 4096 "unat sz - 1"] sz(1)
    unfolding n by linarith
  have exact: "4096 * span va sz = unat sz" if "aligned (va + sz)"
  proof -
    have "unat (va + sz) = unat va + unat sz" using sz by (simp add: unat_word_ariths)
    with that k have "unat sz mod 4096 = 0" by (simp add: aligned_unat)
    then obtain j where "unat sz = 4096 * j" by (auto elim: dvdE)
    with sz(1) show ?thesis unfolding n by (cases j) auto
  qed
  obtain r s' us ps' j where res: "mappages dir va pa sz perm s = Inr (r, s')" "pt_ok dir s' ps'"
      "pt_step dir us s s'" and mp: "mapped dir (mem s) (mem s') j va pa perm"
      and r: "r = 0 \<and> j = span va sz \<or> r = - 1 \<and> ps' = []"
    using mappages_spec [OF ok un' sz, of pa perm] unfolding pv by blast
  from r show thesis
  proof
    assume "r = 0 \<and> j = span va sz"
    then show thesis
      using res mapped_else [OF mp] mapped_kernel [OF mp [unfolded pa] al] un top exact
      by (intro full [of s' ps']) (auto simp: pt_step_def)
  next
    assume "r = - 1 \<and> ps' = []"
    with res oom show thesis by auto
  qed
qed

text \<open>
  \<open>kernel_map\<close>: the linear map of the physical memory at \<open>KERNBASE\<close>, writable except for the
  kernel's text and read-only data, with an empty user part.
\<close>

definition kernel_map :: "u32 \<Rightarrow> u32 \<Rightarrow> mem \<Rightarrow> u32 \<Rightarrow> bool" where
  "kernel_map data msz m dir \<longleftrightarrow>
     (\<forall>v. (unat v < 0x80000000 \<longrightarrow> entry m dir v = 0) \<and>
          (0x80000000 \<le> unat v \<and> unat v < 0x80000000 + unat msz * 1024 \<longrightarrow>
             entry m dir v =
               PTE_ADDR (V2P v) OR (if KERNLINK \<le> v \<and> v < data then 0 else PTE_W) OR PTE_P))"

lemma mapkvm_spec:
  assumes inv: "free_inv s (p # ps)" and data: "aligned data" "0x80100000 < unat data"
    and top: "unat data < 0x80000000 + unat (memsz s) * 1024" "unat (memsz s) \<le> 0x1FFFFC"
  shows "(\<exists>s'. mapkvm data s = Inr (0, s') \<and> pt_ok p s' []) \<or>
    (\<exists>s' ps'. mapkvm data s = Inr (p, s') \<and> pt_ok p s' ps' \<and> kernel_map data (memsz s) (mem s') p)"
proof -
  define s1 where s1: "s1 = s\<lparr>free_list := ld32 (mem s) p, mem := memset (mem s) p 0 PGSIZE\<rparr>"
  note fresh = fresh_dir [OF inv s1]
  have p: "p \<noteq> 0" using free_invD(4) [OF inv] by auto
  have ka: "kalloc_page s = (p, s\<lparr>free_list := ld32 (mem s) p\<rparr>)" by (rule kalloc_page_Cons [OF inv])
  have ms: "memsz s1 = memsz s" by (simp add: s1)
  have d1: "unat (data - KERNLINK) = unat data - 0x80100000" "KERNLINK + (data - KERNLINK) = data"
    using data by (simp_all add: unat_sub word_le_nat_alt)
  have "unat (V2P data) = unat data - 0x80000000"
    using data by (simp add: V2P_def unat_sub word_le_nat_alt)
  then have d2: "unat (memsz s * 1024 - V2P data) = 0x80000000 + unat (memsz s) * 1024 - unat data"
    using data top by (subst unat_sub) (simp_all add: word_le_nat_alt unat_word_ariths)
  note run = mapkvm_def ka p s1 [symmetric]
  have zero: "\<forall>v. unat KERNBASE \<le> unat v \<longrightarrow> entry (mem s1) p v = 0" by (simp add: fresh(2))
  have b1: "aligned KERNBASE" "0 < unat EXTMEM" "unat KERNBASE + unat EXTMEM \<le> 4294963200" "0 = V2P KERNBASE"
    by (simp_all add: V2P_def)
  show ?thesis
  proof (cases rule: map_kernel_range [OF fresh(1) b1(1-3) zero b1(4), of PTE_W, case_names oom full])
    case (oom s2)
    then show ?thesis by (simp add: run)
  next
    case m1: (full s2 ps2)
    have high: "\<forall>v. unat KERNLINK \<le> unat v \<longrightarrow> entry (mem s2) p v = 0"
      using m1(6) by (simp add: aligned_def)
    have b2: "aligned KERNLINK" "0 < unat (data - KERNLINK)"
      "unat KERNLINK + unat (data - KERNLINK) \<le> 4294963200"
      using data top d1 by (simp_all add: aligned_def)
    show ?thesis
    proof (cases rule: map_kernel_range [OF m1(2) b2 high refl, of 0, case_names oom full])
      case (oom s3)
      then show ?thesis using m1(1) by (simp add: run)
    next
      case m2: (full s3 ps3)
      have high': "\<forall>v. unat data \<le> unat v \<longrightarrow> entry (mem s3) p v = 0" using m2(6) d1 data by simp
      have sz: "memsz s3 = memsz s" using m2(3) m1(3) ms by simp
      have b3: "0 < unat (memsz s * 1024 - V2P data)"
        "unat data + unat (memsz s * 1024 - V2P data) \<le> 4294963200" using data top d2 by simp_all
      show ?thesis
      proof (cases rule: map_kernel_range [OF m2(2) data(1) b3 high' refl, of PTE_W, case_names oom full])
        case (oom s4)
        then show ?thesis using m1(1) m2(1) sz by (simp add: run)
      next
        case m3: (full s4 ps4)
        have "kernel_map data (memsz s) (mem s4) p"
          unfolding kernel_map_def
          using m1(4,5) m2(4,5) m3(4,5) data top d1 d2 fresh(2)
          by (auto simp: word_le_nat_alt word_less_nat_alt)
        with m1(1) m2(1) m3(1,2) sz show ?thesis by (auto simp: run)
      qed
    qed
  qed
qed

lemma span_page: "aligned va \<Longrightarrow> span va PGSIZE = 1"
proof -
  assume "aligned va"
  then obtain k where "unat va = 4096 * k" by (auto simp: aligned_unat elim: dvdE)
  moreover have "(4096 * k + 4095) div 4096 = k" by simp
  ultimately show ?thesis by (simp add: span_def)
qed

lemma flags_present: "PTE_FLAGS f = f \<Longrightarrow> (f OR PTE_P) mod 4096 = f OR PTE_P"
  unfolding and_low [symmetric] PTE_FLAGS_def by (simp add: bit.conj_disj_distrib2)

section \<open>Properties\<close>

text \<open>An empty page directory at \<open>0x80402000\<close> beside the two free pages.\<close>

lemma two_pages_pde: "unat i < 1024 \<Longrightarrow> pde_at (mem two_pages) 0x80402000 i = 0"
proof -
  assume "unat i < 1024"
  then have "ld32 (st32 (\<lambda>_. 0) (0x80400000 + 4 * 0) 0x80401000) (0x80402000 + 4 * i) = ld32 (\<lambda>_. 0) (0x80402000 + 4 * i)"
    by (subst ld_st_slot) (simp_all add: aligned_def)
  then show ?thesis by (simp add: pde_at_def two_pages_def ld32_def)
qed

lemma two_pages_pt: "pt_ok 0x80402000 two_pages [0x80400000, 0x80401000]"
  and two_pages_entry: "entry (mem two_pages) 0x80402000 v = 0"
  and two_pages_pt_pages: "pt_pages (mem two_pages) 0x80402000 = {0x80402000}"
  using two_pages_free two_pages_pde
  by (simp_all add: pt_ok_def dir_wf_def aligned_def entry_def pt_pages_def cong: conj_cong)

text \<open>
  C2. \<^verbatim>\<open>mappages\<close> on a range no page of which is mapped: with a free page for every page of the range
  it returns 0, every address of the range then translates to its frame (the \<open>k\<close>-th page to the
  \<open>k\<close>-th frame from \<open>pa\<close>) with the permissions given, every other address translates as before, and
  nothing but the page tables changed; it can only return -1 when the free pages are used up, after
  mapping a proper prefix of the range.
\<close>

theorem mappages_maps:
  assumes "pt_ok dir s ps" and "unmapped dir (mem s) (span va sz) (PGROUNDDOWN va)"
    and "0 < unat sz" and "unat va + unat sz \<le> 4294963200"
  shows "\<exists>r s' us ps' j. mappages dir va pa sz perm s = Inr (r, s') \<and>
    ps = us @ ps' \<and> pt_ok dir s' ps' \<and> pt_step dir us s s' \<and>
    mapped dir (mem s) (mem s') j (PGROUNDDOWN va) pa perm \<and>
    (r = 0 \<and> j = span va sz \<or> r = - 1 \<and> j < span va sz \<and> ps' = []) \<and>
    (span va sz \<le> length ps \<longrightarrow> r = 0)"
proof -
  obtain r s' us ps' j where "mappages dir va pa sz perm s = Inr (r, s')" "ps = us @ ps'" "length us \<le> j"
    "pt_ok dir s' ps'" "pt_step dir us s s'" "mapped dir (mem s) (mem s') j (PGROUNDDOWN va) pa perm"
    "r = 0 \<and> j = span va sz \<or> r = - 1 \<and> j < span va sz \<and> ps' = []"
    using mappages_spec [OF assms, of pa perm] by blast
  then show ?thesis
    by (intro exI [of _ r] exI [of _ s'] exI [of _ us] exI [of _ ps'] exI [of _ j]) auto
qed

theorem mappages_maps_witness:
  "\<exists>s'. mappages 0x80402000 0x1234 0x500000 4096 6 two_pages = Inr (0, s') \<and>
    mapped 0x80402000 (mem two_pages) (mem s') 2 0x1000 0x500000 6"
proof -
  have sp: "span 0x1234 4096 = 2" "PGROUNDDOWN 0x1234 = 0x1000" by (simp_all add: span_def PGROUNDDOWN_def)
  have un: "unmapped 0x80402000 (mem two_pages) (span 0x1234 4096) (PGROUNDDOWN 0x1234)"
    by (simp add: unmapped_def two_pages_entry)
  show ?thesis
    using mappages_maps [OF two_pages_pt un, of "0x500000" 6] by (auto simp: sp)
qed

text \<open>
  C16. \<^verbatim>\<open>unmap_page\<close> undoes a mapping: mapping one frame that is in use nowhere else with
  \<^verbatim>\<open>mappages\<close> and unmapping it again gives back the translation there was before, for every address,
  and the frame is the page the next \<^verbatim>\<open>kalloc_page\<close> hands out.
\<close>

theorem map_unmap_roundtrip:
  assumes "pt_ok dir s ps" and "aligned va" and "unat va < 4294959104" and "entry (mem s) dir va = 0"
    and "ps \<noteq> []" and "page_ok s f" and "f \<notin> set ps" and "f \<notin> pt_pages (mem s) dir"
    and "PTE_FLAGS perm = perm"
  shows "\<exists>s1 s2. mappages dir va (V2P f) PGSIZE perm s = Inr (0, s1) \<and>
    frame_of (mem s1) dir va = f \<and> unmap_page dir va s1 = Inr s2 \<and>
    (\<forall>v. entry (mem s2) dir v = entry (mem s) dir v) \<and> fst (kalloc_page s2) = f"
proof -
  note one = span_page [OF assms(2)]
  have rd: "PGROUNDDOWN va = va" using assms(2) by (simp add: PGROUNDDOWN_eq)
  have same: "unat va \<le> unat v \<and> unat v < unat va + 4096 \<longleftrightarrow> PTE_ADDR v = va" for v
    by (rule PTE_ADDR_range [OF assms(2), symmetric])
  have ent: "entry (mem s) dir v = 0" if "PTE_ADDR v = va" for v
    using entry_page [of v va "mem s" dir] that assms(2,4) by simp
  have un: "unmapped dir (mem s) (span va PGSIZE) (PGROUNDDOWN va)"
    unfolding unmapped_def one rd using same ent by simp
  have sz: "0 < unat PGSIZE" "unat va + unat PGSIZE \<le> 4294963200" using assms(3) by simp_all
  obtain r s1 us ps' j where m: "mappages dir va (V2P f) PGSIZE perm s = Inr (r, s1)" "ps = us @ ps'"
    "length us \<le> j" "pt_ok dir s1 ps'" "pt_step dir us s s1" "mapped dir (mem s) (mem s1) j va (V2P f) perm"
    "r = 0 \<and> j = 1 \<or> r = - 1 \<and> j < 1 \<and> ps' = []"
    using mappages_spec [OF assms(1) un sz, of "V2P f" perm] unfolding one rd by blast
  with assms(5) have r: "r = 0" "j = 1" by auto
  have al: "aligned f" using assms(6) by (simp add: page_ok_def)
  have e1: "entry (mem s1) dir v = (if PTE_ADDR v = va then V2P f OR perm OR PTE_P else entry (mem s) dir v)" for v
    using m(6) al unfolding mapped_def r(2) by (simp add: same)
  have pr: "present (entry (mem s1) dir va)" using assms(2) by (simp add: e1)
  have fr: "f = frame_of (mem s1) dir va"
    using assms(2) al by (simp add: frame_of_def e1 PTE_ADDR_or_flags(1) flags_present [OF assms(9)])
  have f1: "page_ok s1 f" "f \<notin> set ps'" "f \<notin> pt_pages (mem s1) dir"
    using assms(6-8) m(2,5) by (auto simp: pt_step_def page_ok_def)
  obtain s2 where u: "unmap_page dir va s1 = Inr s2" "pt_ok dir s2 (f # ps')"
    "\<forall>v. entry (mem s2) dir v = (if PTE_ADDR v = PTE_ADDR va then 0 else entry (mem s1) dir v)"
    using unmap_page_spec [OF m(4) pr fr f1] by blast
  have "entry (mem s2) dir v = entry (mem s) dir v" for v
    using u(3) assms(2) ent by (simp add: e1)
  with m(1) r(1) fr u(1) kalloc_page_Cons(1) [OF pt_okD(1) [OF u(2)]] show ?thesis by auto
qed

theorem map_unmap_roundtrip_witness:
  "\<exists>s1 s2. mappages 0x80402000 0x1000 (V2P 0x80403000) PGSIZE 6 two_pages = Inr (0, s1) \<and>
    unmap_page 0x80402000 0x1000 s1 = Inr s2 \<and> fst (kalloc_page s2) = 0x80403000"
proof -
  have "page_ok two_pages 0x80403000" by (simp add: page_ok_def two_pages_def aligned_def V2P_def)
  then show ?thesis
    using map_unmap_roundtrip [OF two_pages_pt, of "0x1000" "0x80403000" 6]
    by (auto simp: two_pages_entry two_pages_pt_pages aligned_def PTE_FLAGS_def)
qed

text \<open>
  C15. \<^verbatim>\<open>mapkvm\<close> builds the kernel part of a new address space: with no page left for a page table it
  returns NULL; otherwise the whole physical memory appears at \<open>KERNBASE\<close>, writable except for the
  kernel's text and read-only data, and the user part is empty. The call never panics.
\<close>

theorem mapkvm_maps_kernel:
  assumes "free_inv s (p # ps)" and "aligned data" and "0x80100000 < unat data"
    and "unat data < 0x80000000 + unat (memsz s) * 1024" and "unat (memsz s) \<le> 0x1FFFFC"
  shows "(\<exists>s'. mapkvm data s = Inr (0, s') \<and> fst (kalloc_page s') = 0) \<or>
    (\<exists>s' ps'. mapkvm data s = Inr (p, s') \<and> pt_ok p s' ps' \<and> kernel_map data (memsz s) (mem s') p)"
  using mapkvm_spec [OF assms] kalloc_page_Nil pt_okD(1) by fastforce

theorem mapkvm_maps_kernel_witness:
  "(\<exists>s'. mapkvm 0x80110000 two_pages = Inr (0, s') \<and> fst (kalloc_page s') = 0) \<or>
    (\<exists>s' ps'. mapkvm 0x80110000 two_pages = Inr (0x80400000, s') \<and> pt_ok 0x80400000 s' ps' \<and>
       kernel_map 0x80110000 65536 (mem s') 0x80400000)"
proof -
  have "aligned 0x80110000" "memsz two_pages = 65536" by (simp_all add: aligned_def two_pages_def)
  then show ?thesis using mapkvm_maps_kernel [OF two_pages_free, of "0x80110000"] by simp
qed

text \<open>
  C9. \<^verbatim>\<open>copyout\<close> into user memory of another address space returns 0 and is exact: the byte the task
  sees at the \<open>i\<close>-th address of the range is the \<open>i\<close>-th byte of the source, across page boundaries
  and for frames anywhere in memory, and no other byte of memory changes.
\<close>

theorem copyout_copies:
  assumes "pt_ok dir s ps" and "ubuf dir (mem s) (set ps) va (unat len)"
    and "unat va + unat len \<le> 4294967296" and "unat buf + unat len < 4294967296"
    and "\<forall>v \<in> rng va (unat len). rng (frame_of (mem s) dir v) 4096 \<inter> rng buf (unat len) = {}"
  shows "\<exists>s'. copyout dir va buf len s = Inr (0, s') \<and>
    (\<forall>i < unat len. mem s' (uaddr (mem s') dir (va + of_nat i)) = mem s (buf + of_nat i)) \<and>
    (\<forall>x. x \<notin> ubytes dir (mem s) va (unat len) \<longrightarrow> mem s' x = mem s x)"
proof -
  obtain s' where s': "copyout dir va buf len s = Inr (0, s')" "entry (mem s') dir = entry (mem s) dir"
      "\<forall>v \<in> rng va (unat len). mem s' (uaddr (mem s) dir v) = mem s (buf + (v - va))"
      "\<forall>x. x \<notin> ubytes dir (mem s) va (unat len) \<longrightarrow> mem s' x = mem s x"
    using copyout_spec [OF assms] by blast
  have "uaddr (mem s') dir v = uaddr (mem s) dir v" for v by (simp add: uaddr_def frame_of_def s'(2))
  moreover have "va + of_nat i \<in> rng va (unat len)" if "i < unat len" for i
    using that u32_less [of len] by (simp add: rng_def)
  ultimately show ?thesis using s' by (intro exI [of _ s']) auto
qed

text \<open>A task with one user page at \<open>0x1000\<close>, on the frame at \<open>0x80404000\<close>.\<close>

definition one_user_page :: mm where
  "one_user_page =
     (let s = with_table 0x80402000 0x1000 0x80400000 two_pages
      in s\<lparr>mem := st32 (mem s) (slot (mem s) 0x80402000 0x1000) 0x404007\<rparr>)"

lemma one_user_page:
  shows "pt_ok 0x80402000 one_user_page [0x80401000]"
    and "entry (mem one_user_page) 0x80402000 v = (if PTE_ADDR v = 0x1000 then 0x404007 else 0)"
    and "pt_pages (mem one_user_page) 0x80402000 = {0x80402000, 0x80400000}"
proof -
  let ?d = "0x80402000 :: u32"
  let ?s = "with_table ?d 0x1000 0x80400000 two_pages"
  have ab: "\<not> present (pde_at (mem two_pages) ?d (PDX 0x1000))" by (simp add: two_pages_pde)
  note wt = with_table_ok [OF two_pages_pt ab] with_table_step [OF two_pages_pt ab]
  have pr: "present (pde_at (mem ?s) ?d (PDX 0x1000))"
    by (simp add: with_table_mem(1) [OF two_pages_pt ab refl])
  have def: "one_user_page = ?s\<lparr>mem := st32 (mem ?s) (slot (mem ?s) ?d 0x1000) 0x404007\<rparr>"
    by (simp only: one_user_page_def Let_def)
  show "pt_ok 0x80402000 one_user_page [0x80401000]"
    unfolding def by (rule set_entry_ok [OF wt(1) pr])
  show "pt_pages (mem one_user_page) 0x80402000 = {0x80402000, 0x80400000}"
    using wt(2) set_entry_step [OF wt(1) pr, of "0x404007"] two_pages_pt_pages
    unfolding def pt_step_def by auto
  have "PTE_ADDR (0x1000 :: u32) = 0x1000" by (simp add: PTE_ADDR_def)
  then show "entry (mem one_user_page) 0x80402000 v = (if PTE_ADDR v = 0x1000 then 0x404007 else 0)"
    using set_entry_mem(4) [OF wt(1) pr refl, of "0x404007" v] with_table_mem(4) [OF two_pages_pt ab refl, of v]
      two_pages_entry [of v]
    unfolding def by simp
qed

theorem copyout_copies_witness:
  "\<exists>s'. copyout 0x80402000 0x1FF0 0x80405000 16 one_user_page = Inr (0, s') \<and>
    (\<forall>i < 16. mem s' (uaddr (mem s') 0x80402000 (0x1FF0 + of_nat i)) = mem one_user_page (0x80405000 + of_nat i))"
proof -
  let ?d = "0x80402000 :: u32" and ?m = "mem one_user_page"
  have pg: "PTE_ADDR v = 0x1000" if "v \<in> rng 0x1FF0 16" for v
    using that by (subst PTE_ADDR_range) (simp_all add: aligned_def rng_iff)
  have fr: "frame_of ?m ?d v = 0x80404000" if "v \<in> rng 0x1FF0 16" for v
    by (simp add: frame_of_def one_user_page pg [OF that]) (simp add: PTE_ADDR_def P2V_def)
  have ub: "ubuf ?d ?m (set [0x80401000]) 0x1FF0 (unat (16 :: u32))"
    using fr pg by (simp add: ubuf_def one_user_page present_def)
  have dj: "\<forall>v \<in> rng 0x1FF0 (unat (16 :: u32)). rng (frame_of ?m ?d v) 4096 \<inter> rng 0x80405000 (unat (16 :: u32)) = {}"
    using fr by (simp add: rng_disjointI)
  show ?thesis using copyout_copies [OF one_user_page(1) ub _ _ dj] by auto
qed

end
