(* ===== verification/Kern_Switch.thy ===== *)
theory Kern_Switch
  imports Kern_Mm
begin

text \<open>
  The assembly around a trap and a context switch: the entry \<^verbatim>\<open>isr_comm\<close> and the exit \<^verbatim>\<open>trap_ret\<close>
  of \<^verbatim>\<open>kern/isr.s\<close>, and \<^verbatim>\<open>kern/swtch.S\<close>. The processor state is its registers and the memory; the
  stack is in that memory. The memory a trap comes back to is any memory that kept the trap frame.
\<close>

section \<open>The processor\<close>

record cpu =
  r_eax :: u32
  r_ebx :: u32
  r_ecx :: u32
  r_edx :: u32
  r_esi :: u32
  r_edi :: u32
  r_ebp :: u32
  r_esp :: u32
  r_eip :: u32
  r_eflags :: u32
  r_cs :: u32
  r_ss :: u32
  r_ds :: u32
  r_es :: u32
  r_fs :: u32
  r_gs :: u32
  cmem :: mem

abbreviation KER_CODE :: u32 where "KER_CODE \<equiv> 0x08"
abbreviation KER_DATA :: u32 where "KER_DATA \<equiv> 0x10"

definition pushl :: "u32 \<Rightarrow> cpu \<Rightarrow> cpu" where
  "pushl v c = c\<lparr>r_esp := r_esp c - 4, cmem := st32 (cmem c) (r_esp c - 4) v\<rparr>"

definition popl :: "(u32 \<Rightarrow> cpu \<Rightarrow> cpu) \<Rightarrow> cpu \<Rightarrow> cpu" where
  "popl upd c = upd (ld32 (cmem c) (r_esp c)) (c\<lparr>r_esp := r_esp c + 4\<rparr>)"

text \<open>\<^verbatim>\<open>pushal\<close> pushes the value \<^verbatim>\<open>esp\<close> had before; \<^verbatim>\<open>popal\<close> skips it.\<close>

definition pushal :: "cpu \<Rightarrow> cpu" where
  "pushal c =
     pushl (r_edi c) (pushl (r_esi c) (pushl (r_ebp c) (pushl (r_esp c)
       (pushl (r_ebx c) (pushl (r_edx c) (pushl (r_ecx c) (pushl (r_eax c) c)))))))"

definition popal :: "cpu \<Rightarrow> cpu" where
  "popal c =
     popl (\<lambda>v c. c\<lparr>r_eax := v\<rparr>) (popl (\<lambda>v c. c\<lparr>r_ecx := v\<rparr>) (popl (\<lambda>v c. c\<lparr>r_edx := v\<rparr>)
       (popl (\<lambda>v c. c\<lparr>r_ebx := v\<rparr>) (popl (\<lambda>v c. c) (popl (\<lambda>v c. c\<lparr>r_ebp := v\<rparr>)
         (popl (\<lambda>v c. c\<lparr>r_esi := v\<rparr>) (popl (\<lambda>v c. c\<lparr>r_edi := v\<rparr>) c)))))))"

section \<open>Traps\<close>

text \<open>
  An interrupt in user mode: the processor switches to the stack \<^verbatim>\<open>tss.ss0:esp0\<close>, pushes \<^verbatim>\<open>ss\<close>, \<^verbatim>\<open>esp\<close>,
  \<^verbatim>\<open>eflags\<close>, \<^verbatim>\<open>cs\<close> and \<^verbatim>\<open>eip\<close> (and an error code, or the stub of the gate pushes 0), clears the interrupt
  flag, and the stub pushes its number and jumps to \<^verbatim>\<open>isr_comm\<close>.
\<close>

definition isr_stub :: "u32 \<Rightarrow> u32 \<Rightarrow> u32 \<Rightarrow> u32 \<Rightarrow> cpu \<Rightarrow> cpu" where
  "isr_stub esp0 entry en err c =
     pushl en (pushl err (pushl (r_eip c) (pushl (r_cs c) (pushl (r_eflags c) (pushl (r_esp c) (pushl (r_ss c)
       (c\<lparr>r_ss := KER_DATA, r_cs := KER_CODE, r_esp := esp0, r_eip := entry, r_eflags := r_eflags c AND NOT 0x200\<rparr>)))))))"

text \<open>
  \<^verbatim>\<open>isr_comm\<close> up to and including \<^verbatim>\<open>call trap\<close>; \<open>ret\<close> is the address of the instruction after the
  call. The segment registers get the low half of a register, the constant \<^verbatim>\<open>KER_DATA\<close>.
\<close>

definition isr_comm :: "u32 \<Rightarrow> u32 \<Rightarrow> cpu \<Rightarrow> cpu" where
  "isr_comm ret trap c =
     (let c1 = pushal (c\<lparr>r_esp := r_esp c - 4\<rparr>);
          c2 = pushl (r_gs c1) (pushl (r_fs c1) (pushl (r_es c1) (pushl (r_ds c1) c1)));
          c3 = c2\<lparr>r_eax := (r_eax c2 AND NOT 0xffff) OR KER_DATA, r_ds := KER_DATA, r_es := KER_DATA, r_fs := KER_DATA, r_gs := KER_DATA\<rparr>
      in (pushl ret (pushl (r_esp c3) c3))\<lparr>r_eip := trap\<rparr>)"

definition trap_ret :: "cpu \<Rightarrow> cpu" where
  "trap_ret c =
     (let c1 = popal (popl (\<lambda>v c. c\<lparr>r_ds := v\<rparr>) (popl (\<lambda>v c. c\<lparr>r_es := v\<rparr>) (popl (\<lambda>v c. c\<lparr>r_fs := v\<rparr>)
                 (popl (\<lambda>v c. c\<lparr>r_gs := v\<rparr>) c))));
          c2 = c1\<lparr>r_esp := r_esp c1 + 0xC\<rparr>;
          m = cmem c2; a = r_esp c2
      in c2\<lparr>r_eip := ld32 m a, r_cs := ld32 m (a + 4), r_eflags := ld32 m (a + 8),
            r_esp := ld32 m (a + 12), r_ss := ld32 m (a + 16)\<rparr>)"

text \<open>The instructions after \<^verbatim>\<open>call trap\<close> drop the argument and jump to \<^verbatim>\<open>trap_ret\<close>.\<close>

definition after_trap :: "cpu \<Rightarrow> cpu" where
  "after_trap c = trap_ret (c\<lparr>r_esp := r_esp c + 4\<rparr>)"

section \<open>The context switch\<close>

text \<open>\<^verbatim>\<open>swtch(old, new)\<close> from its entry (the return address on the stack) to its \<^verbatim>\<open>ret\<close>.\<close>

definition swtch :: "cpu \<Rightarrow> cpu" where
  "swtch c =
     (let c1 = c\<lparr>r_eax := ld32 (cmem c) (r_esp c + 4), r_edx := ld32 (cmem c) (r_esp c + 8)\<rparr>;
          c2 = pushl (r_edi c1) (pushl (r_esi c1) (pushl (r_ebx c1) (pushl (r_ebp c1) c1)));
          c3 = c2\<lparr>cmem := st32 (cmem c2) (r_eax c2) (r_esp c2), r_esp := r_edx c2\<rparr>
      in popl (\<lambda>v c. c\<lparr>r_eip := v\<rparr>) (popl (\<lambda>v c. c\<lparr>r_ebp := v\<rparr>) (popl (\<lambda>v c. c\<lparr>r_ebx := v\<rparr>)
           (popl (\<lambda>v c. c\<lparr>r_esi := v\<rparr>) (popl (\<lambda>v c. c\<lparr>r_edi := v\<rparr>) c3)))))"

section \<open>Words on the stack\<close>

definition words_at :: "mem \<Rightarrow> u32 \<Rightarrow> u32 list \<Rightarrow> bool" where
  "words_at m a ws \<longleftrightarrow> (\<forall>i < length ws. ld32 m (a + 4 * of_nat i) = ws ! i)"

lemma words_at_Nil [simp]: "words_at m a []"
  by (simp add: words_at_def)

lemma words_at_Cons: "words_at m a (w # ws) \<longleftrightarrow> ld32 m a = w \<and> words_at m (a + 4) ws"
  unfolding words_at_def by (auto simp: less_Suc_eq_0_disj algebra_simps)

lemma unat_add_le: "unat (a + b) \<le> unat a + unat (b :: u32)"
  by (simp add: unat_word_ariths)

lemma words_at_cong:
  assumes "\<And>x. x \<in> rng a (4 * length ws) \<Longrightarrow> m' x = m x" and "4 * length ws < 2 ^ 32"
  shows "words_at m' a ws = words_at m a ws"
proof -
  have "ld32 m' (a + 4 * of_nat i) = ld32 m (a + 4 * of_nat i)" if i: "i < length ws" for i
  proof (rule ld32_cong)
    fix x :: u32
    assume "x \<in> rng (a + 4 * of_nat i) 4"
    then have x: "unat (x - (a + 4 * of_nat i)) < 4" by (simp add: rng_def)
    have e: "x - a = (x - (a + 4 * of_nat i)) + of_nat (4 * i)" by simp
    have "unat (x - a) \<le> unat (x - (a + 4 * of_nat i)) + unat (of_nat (4 * i) :: u32)"
      unfolding e by (rule unat_add_le)
    also have "unat (of_nat (4 * i) :: u32) = 4 * i" using i assms(2) by (intro unat_of_nat32) simp
    also have "unat (x - (a + 4 * of_nat i)) + 4 * i < 4 * length ws" using x i by linarith
    finally show "m' x = m x" using assms(1) by (simp add: rng_def)
  qed
  then show ?thesis by (simp add: words_at_def)
qed

lemma words_at_st32:
  assumes "words_at m a ws" and "4 * Suc (length ws) < 2 ^ 32"
  shows "words_at (st32 m (a - 4) v) (a - 4) (v # ws)"
proof -
  have "st32 m (a - 4) v x = m x" if "x \<in> rng a (4 * length ws)" for x
  proof (rule st32_other)
    have "unat (x - a) < 2 ^ 32 - 4" using that assms(2) by (simp add: rng_def)
    then have "\<not> unat ((x - a) + 4) < 4" by (simp add: unat_word_ariths)
    then show "x \<notin> rng (a - 4) 4" by (simp add: rng_def algebra_simps)
  qed
  then have "words_at (st32 m (a - 4) v) a ws = words_at m a ws"
    using assms(2) by (intro words_at_cong) simp_all
  then show ?thesis using assms(1) by (simp add: words_at_Cons)
qed

text \<open>A push puts a word in front of the words on the stack.\<close>

definition stack_is :: "cpu \<Rightarrow> u32 list \<Rightarrow> bool" where
  "stack_is c ws \<longleftrightarrow> words_at (cmem c) (r_esp c) ws"

lemma stack_is_push:
  "stack_is c ws \<Longrightarrow> length ws < 100 \<Longrightarrow> stack_is (pushl v c) (v # ws)"
  by (simp add: stack_is_def pushl_def words_at_st32)

lemma stack_is_upd [simp]:
  "stack_is (c\<lparr>r_eip := v\<rparr>) ws = stack_is c ws" "stack_is (c\<lparr>r_eax := v\<rparr>) ws = stack_is c ws"
  "stack_is (c\<lparr>r_ds := v\<rparr>) ws = stack_is c ws" "stack_is (c\<lparr>r_es := v\<rparr>) ws = stack_is c ws"
  "stack_is (c\<lparr>r_fs := v\<rparr>) ws = stack_is c ws" "stack_is (c\<lparr>r_gs := v\<rparr>) ws = stack_is c ws"
  by (simp_all add: stack_is_def)

lemma pushl_sel [simp]:
  "r_esp (pushl v c) = r_esp c - 4" "r_eax (pushl v c) = r_eax c" "r_ebx (pushl v c) = r_ebx c"
  "r_ecx (pushl v c) = r_ecx c" "r_edx (pushl v c) = r_edx c" "r_esi (pushl v c) = r_esi c"
  "r_edi (pushl v c) = r_edi c" "r_ebp (pushl v c) = r_ebp c" "r_gs (pushl v c) = r_gs c"
  "r_fs (pushl v c) = r_fs c" "r_es (pushl v c) = r_es c" "r_ds (pushl v c) = r_ds c"
  by (simp_all add: pushl_def)

text \<open>The trap frame, from \<^verbatim>\<open>gs\<close> to \<^verbatim>\<open>ss\<close>, and what a trap leaves on the kernel stack.\<close>

definition frame :: "u32 \<Rightarrow> u32 \<Rightarrow> u32 \<Rightarrow> u32 \<Rightarrow> cpu \<Rightarrow> u32 list" where
  "frame esp0 r en err c =
     [r_gs c, r_fs c, r_es c, r_ds c, r_edi c, r_esi c, r_ebp c, esp0 - 32, r_ebx c, r_edx c, r_ecx c, r_eax c,
      r, en, err, r_eip c, r_cs c, r_eflags c, r_esp c, r_ss c]"

lemma trap_entry_stack:
  "\<exists>r. stack_is (isr_comm ret trap (isr_stub esp0 entry en err c)) (ret # (esp0 - 80) # frame esp0 r en err c) \<and>
       r_esp (isr_comm ret trap (isr_stub esp0 entry en err c)) = esp0 - 88"
proof -
  let ?c0 = "c\<lparr>r_ss := KER_DATA, r_cs := KER_CODE, r_esp := esp0, r_eip := entry, r_eflags := r_eflags c AND NOT 0x200\<rparr>"
  have "stack_is ?c0 []" by (simp add: stack_is_def)
  then have s: "stack_is (isr_stub esp0 entry en err c) [en, err, r_eip c, r_cs c, r_eflags c, r_esp c, r_ss c]"
    unfolding isr_stub_def by (intro stack_is_push) simp_all
  let ?d = "(isr_stub esp0 entry en err c)\<lparr>r_esp := r_esp (isr_stub esp0 entry en err c) - 4\<rparr>"
  have "stack_is ?d (ld32 (cmem ?d) (r_esp ?d) # [en, err, r_eip c, r_cs c, r_eflags c, r_esp c, r_ss c])"
    using s by (simp add: stack_is_def words_at_Cons)
  then have "stack_is (isr_comm ret trap (isr_stub esp0 entry en err c))
      (ret # (esp0 - 80) # frame esp0 (ld32 (cmem ?d) (r_esp ?d)) en err c)"
    unfolding isr_comm_def pushal_def Let_def frame_def
    by (simp add: stack_is_push isr_stub_def)
  moreover have "r_esp (isr_comm ret trap (isr_stub esp0 entry en err c)) = esp0 - 88"
    by (simp add: isr_comm_def pushal_def Let_def isr_stub_def)
  ultimately show ?thesis by blast
qed

lemma swtch_mem:
  "cmem (swtch c) =
     st32 (cmem (pushl (r_edi c) (pushl (r_esi c) (pushl (r_ebx c) (pushl (r_ebp c) c)))))
       (ld32 (cmem c) (r_esp c + 4)) (r_esp c - 16)"
  by (simp add: swtch_def popl_def pushl_def Let_def)

lemma swtch_mem_frame:
  assumes "x \<notin> rng (r_esp c - 16) 16" and "x \<notin> rng (ld32 (cmem c) (r_esp c + 4)) 4"
  shows "cmem (swtch c) x = cmem c x"
proof -
  have "x \<notin> rng (r_esp c - k) 4" if "k \<in> {4, 8, 12, 16}" for k
  proof
    assume "x \<in> rng (r_esp c - k) 4"
    then have "unat (x - (r_esp c - k)) < 4" by (simp add: rng_def)
    moreover have "unat (16 - k) \<le> 12" using that by auto
    ultimately have "unat ((x - (r_esp c - k)) + (16 - k)) < 16"
      using unat_add_le [of "x - (r_esp c - k)" "16 - k"] by linarith
    moreover have "(x - (r_esp c - k)) + (16 - k) = x - (r_esp c - 16)" by simp
    ultimately have "unat (x - (r_esp c - 16)) < 16" by metis
    then show False using assms(1) by (simp add: rng_def)
  qed
  then show ?thesis using assms(2) by (simp add: swtch_mem pushl_def st32_other)
qed

lemma swtch_regs:
  "r_esp (swtch c) = ld32 (cmem c) (r_esp c + 8) + 20"
  "r_eip (swtch c) = ld32 (cmem (swtch c)) (ld32 (cmem c) (r_esp c + 8) + 16)"
  unfolding swtch_mem by (simp_all add: swtch_def popl_def pushl_def Let_def add.commute)

lemma pop_segments:
  "popl (\<lambda>v c. c\<lparr>r_ds := v\<rparr>) (popl (\<lambda>v c. c\<lparr>r_es := v\<rparr>) (popl (\<lambda>v c. c\<lparr>r_fs := v\<rparr>)
     (popl (\<lambda>v c. c\<lparr>r_gs := v\<rparr>) c))) =
   c\<lparr>r_esp := r_esp c + 16, r_gs := ld32 (cmem c) (r_esp c), r_fs := ld32 (cmem c) (r_esp c + 4),
     r_es := ld32 (cmem c) (r_esp c + 8), r_ds := ld32 (cmem c) (r_esp c + 12)\<rparr>"
  by (simp add: popl_def ac_simps)

lemma popal_loads:
  "popal c =
   c\<lparr>r_esp := r_esp c + 32, r_edi := ld32 (cmem c) (r_esp c), r_esi := ld32 (cmem c) (r_esp c + 4),
     r_ebp := ld32 (cmem c) (r_esp c + 8), r_ebx := ld32 (cmem c) (r_esp c + 16),
     r_edx := ld32 (cmem c) (r_esp c + 20), r_ecx := ld32 (cmem c) (r_esp c + 24),
     r_eax := ld32 (cmem c) (r_esp c + 28)\<rparr>"
  by (simp add: popal_def popl_def ac_simps)

lemma after_trap_frame:
  assumes "words_at (cmem d) (r_esp d + 4) (frame esp0 r en err c)"
  shows "after_trap d = c\<lparr>cmem := cmem d\<rparr>"
proof -
  define a where "a = r_esp d + 4"
  have "words_at (cmem d) a (frame esp0 r en err c)" using assms by (simp add: a_def)
  then have w: "ld32 (cmem d) a = r_gs c" "ld32 (cmem d) (a + 4) = r_fs c" "ld32 (cmem d) (a + 8) = r_es c"
    "ld32 (cmem d) (a + 12) = r_ds c" "ld32 (cmem d) (a + 16) = r_edi c" "ld32 (cmem d) (a + 20) = r_esi c"
    "ld32 (cmem d) (a + 24) = r_ebp c" "ld32 (cmem d) (a + 32) = r_ebx c" "ld32 (cmem d) (a + 36) = r_edx c"
    "ld32 (cmem d) (a + 40) = r_ecx c" "ld32 (cmem d) (a + 44) = r_eax c" "ld32 (cmem d) (a + 60) = r_eip c"
    "ld32 (cmem d) (a + 64) = r_cs c" "ld32 (cmem d) (a + 68) = r_eflags c" "ld32 (cmem d) (a + 72) = r_esp c"
    "ld32 (cmem d) (a + 76) = r_ss c"
    unfolding frame_def words_at_Cons by (simp_all add: ac_simps)
  have "after_trap d = trap_ret (d\<lparr>r_esp := a\<rparr>)" by (simp add: after_trap_def a_def)
  then show ?thesis by (simp add: trap_ret_def pop_segments popal_loads Let_def w ac_simps)
qed

section \<open>Properties\<close>

text \<open>
  C14. What a switch resumes: when a task has trapped from user mode and a later \<^verbatim>\<open>swtch\<close> goes to the
  \<^verbatim>\<open>context\<close> its creation put 104 bytes below the top of its kernel stack, the processor continues after
  \<^verbatim>\<open>call trap\<close> and returns to user mode with every register as it was at the trap, whatever the kernel
  did in between. The calls the task was in when it was switched away from, above all the rest of
  \<^verbatim>\<open>sleep_on\<close> and of its caller, are never returned to.
\<close>

theorem switch_resumes_user:
  assumes "\<forall>x \<in> rng (esp0 - 88) 88. cmem k x = cmem (isr_comm ret trap (isr_stub esp0 entry en err c)) x"
    and "ld32 (cmem k) (r_esp k + 8) = esp0 - 104"
    and "rng (r_esp k - 16) 16 \<inter> rng (esp0 - 88) 88 = {}"
    and "rng (ld32 (cmem k) (r_esp k + 4)) 4 \<inter> rng (esp0 - 88) 88 = {}"
  shows "r_eip (swtch k) = ret \<and> after_trap (swtch k) = c\<lparr>cmem := cmem (swtch k)\<rparr>"
proof -
  let ?c1 = "isr_comm ret trap (isr_stub esp0 entry en err c)"
  obtain r where r: "words_at (cmem ?c1) (esp0 - 88) (ret # (esp0 - 80) # frame esp0 r en err c)"
    using trap_entry_stack [of ret trap esp0 entry en err c] by (auto simp: stack_is_def)
  have "words_at (cmem (swtch k)) (esp0 - 88) (ret # (esp0 - 80) # frame esp0 r en err c)"
  proof (rule words_at_cong [THEN iffD2, OF _ _ r])
    fix x
    assume "x \<in> rng (esp0 - 88) (4 * length (ret # (esp0 - 80) # frame esp0 r en err c))"
    then have x: "x \<in> rng (esp0 - 88) 88" by (simp add: frame_def)
    then have "x \<notin> rng (r_esp k - 16) 16" "x \<notin> rng (ld32 (cmem k) (r_esp k + 4)) 4"
      using assms(3,4) by (meson disjoint_iff)+
    then have "cmem (swtch k) x = cmem k x" by (rule swtch_mem_frame)
    then show "cmem (swtch k) x = cmem ?c1 x" using bspec [OF assms(1) x] by simp
  qed (simp add: frame_def)
  then have "ld32 (cmem (swtch k)) (esp0 - 88) = ret"
    and f: "words_at (cmem (swtch k)) (esp0 - 80) (frame esp0 r en err c)"
    by (simp_all add: words_at_Cons)
  moreover have "r_esp (swtch k) + 4 = esp0 - 80" using assms(2) by (simp add: swtch_regs)
  then have "after_trap (swtch k) = c\<lparr>cmem := cmem (swtch k)\<rparr>" using after_trap_frame f by metis
  ultimately show ?thesis using assms(2) by (simp add: swtch_regs(2))
qed

text \<open>A user state, and a state of another task about to switch to the first.\<close>

definition user_cpu :: cpu where
  "user_cpu =
     \<lparr>r_eax = 3, r_ebx = 5, r_ecx = 0, r_edx = 0, r_esi = 0, r_edi = 0, r_ebp = 0, r_esp = 0x7ffffff0, r_eip = 0x400,
      r_eflags = 0x202, r_cs = 0x1b, r_ss = 0x23, r_ds = 0x23, r_es = 0x23, r_fs = 0x23, r_gs = 0x23, cmem = (\<lambda>_. 0)\<rparr>"

definition switching_cpu :: cpu where
  "switching_cpu =
     (isr_comm 0x80100500 0x80100400 (isr_stub 0x80405000 0x80100000 32 0 user_cpu))
       \<lparr>r_esp := 0x80403000,
        cmem := st32 (st32 (cmem (isr_comm 0x80100500 0x80100400 (isr_stub 0x80405000 0x80100000 32 0 user_cpu)))
                  0x80403004 0x80403800) 0x80403008 0x80404f98\<rparr>"

theorem switch_resumes_user_witness:
  "r_eip (swtch switching_cpu) = 0x80100500 \<and> r_eip (after_trap (swtch switching_cpu)) = 0x400"
proof -
  let ?c1 = "isr_comm 0x80100500 0x80100400 (isr_stub 0x80405000 0x80100000 32 0 user_cpu)"
  have d: "rng 0x80403008 4 \<inter> rng 0x80403004 4 = {}" "rng 0x80403004 4 \<inter> rng (0x80405000 - 88) 88 = {}"
    "rng 0x80403008 4 \<inter> rng (0x80405000 - 88) 88 = {}" "rng 0x80403800 4 \<inter> rng (0x80405000 - 88) 88 = {}"
    "rng (0x80403000 - 16) 16 \<inter> rng (0x80405000 - 88) 88 = {}"
    by (rule rng_disjointI; simp)+
  have m: "cmem switching_cpu = st32 (st32 (cmem ?c1) 0x80403004 0x80403800) 0x80403008 0x80404f98"
    "r_esp switching_cpu = 0x80403000" by (simp_all add: switching_cpu_def)
  have a: "ld32 (cmem switching_cpu) (r_esp switching_cpu + 4) = 0x80403800"
    "ld32 (cmem switching_cpu) (r_esp switching_cpu + 8) = 0x80405000 - 104"
    using d(1) by (simp_all add: m ld32_st32_disj)
  have "\<forall>x \<in> rng (0x80405000 - 88) 88. cmem switching_cpu x = cmem ?c1 x"
  proof
    fix x
    assume "x \<in> rng (0x80405000 - 88) 88"
    then have "x \<notin> rng 0x80403004 4" "x \<notin> rng 0x80403008 4" using d(2,3) by (meson disjoint_iff)+
    then show "cmem switching_cpu x = cmem ?c1 x" by (simp add: m st32_other)
  qed
  from switch_resumes_user [OF this a(2)] d(4,5) a(1) show ?thesis
    by (simp add: m user_cpu_def)
qed

end
