(* ===== verification/Kern_Task.thy ===== *)
theory Kern_Task
  imports Kern_Paging Kern_Switch
begin

text \<open>
  Tasks and the scheduler: \<^verbatim>\<open>kern/task.c\<close>, \<^verbatim>\<open>kern/sched.c\<close>, \<^verbatim>\<open>kern/task.h\<close> and the parts of
  \<^verbatim>\<open>inc/elf.h\<close> the loader reads. A pointer to a task is its index in \<^verbatim>\<open>tasks\<close>. Trap frames and kernel
  stacks are in memory. \<^verbatim>\<open>swtch\<close> does not come back to its caller but to the user mode of the task it
  switches to (\<^verbatim>\<open>Kern_Switch\<close>), so an operation that switches ends with the task that then runs.
\<close>

section \<open>Data\<close>

abbreviation NPROC :: nat where "NPROC \<equiv> 64"
abbreviation NOFILE :: nat where "NOFILE \<equiv> 16"
abbreviation KSTACKSIZE :: u32 where "KSTACKSIZE \<equiv> 4096"
abbreviation INIT_PRIO :: u32 where "INIT_PRIO \<equiv> 20"
abbreviation HEAP_START :: u32 where "HEAP_START \<equiv> 0xD0000000"
abbreviation USR_CODE :: u32 where "USR_CODE \<equiv> 0x18"
abbreviation USR_DATA :: u32 where "USR_DATA \<equiv> 0x20"
abbreviation SA_RPL3 :: u32 where "SA_RPL3 \<equiv> 3"
abbreviation FL_IF :: u32 where "FL_IF \<equiv> 0x200"

datatype ts_state = TS_UNUSED | TS_RUNNING | TS_RUNNABLE | TS_STOPPED | TS_ZOMBIE

text \<open>What a task sleeps on: nothing, a task, or another address.\<close>

datatype chan = NoChan | ChTask nat | ChAddr u32

record task =
  t_tf :: u32
  t_context :: u32
  t_pid :: u32
  t_ppid :: u32
  t_name :: "u8 list"
  t_state :: ts_state
  t_sz :: u32
  t_priority :: u32
  t_pgdir :: u32
  t_kstack :: u32
  t_chan :: chan
  t_heap_top :: u32
  t_heap_start :: u32
  t_ofile :: "nat option list"
  t_parent :: "nat option"
  t_next :: "nat option"

text \<open>
  The globals of the two files. \<open>ksp\<close> is the stack pointer \<^verbatim>\<open>swtch\<close> saves; the last three fields are
  addresses the linker fixes.
\<close>

record kst =
  tasks :: "task list"
  rootp :: "nat option"
  current :: "nat option"
  inittask :: "nat option"
  nextpid :: u32
  km :: mm
  tss_ss0 :: u32
  tss_esp0 :: u32
  ltrflag :: bool
  ksp :: u32
  kdata :: u32
  sym_trap_ret :: u32
  sym_do_nothing :: u32

definition tget :: "kst \<Rightarrow> nat \<Rightarrow> task" where
  "tget s i = tasks s ! i"

definition tupd :: "nat \<Rightarrow> (task \<Rightarrow> task) \<Rightarrow> kst \<Rightarrow> kst" where
  "tupd i f s = s\<lparr>tasks := (tasks s)[i := f (tasks s ! i)]\<rparr>"

definition set_mem :: "mem \<Rightarrow> kst \<Rightarrow> kst" where
  "set_mem m s = s\<lparr>km := (km s)\<lparr>mem := m\<rparr>\<rparr>"

abbreviation kmem :: "kst \<Rightarrow> mem" where "kmem s \<equiv> mem (km s)"

text \<open>The offsets of \<^verbatim>\<open>struct stack_frame\<close> (20 words) the C code uses.\<close>

abbreviation TF_SIZE :: u32 where "TF_SIZE \<equiv> 80"
abbreviation TF_GS :: u32 where "TF_GS \<equiv> 0"
abbreviation TF_FS :: u32 where "TF_FS \<equiv> 4"
abbreviation TF_ES :: u32 where "TF_ES \<equiv> 8"
abbreviation TF_DS :: u32 where "TF_DS \<equiv> 12"
abbreviation TF_EAX :: u32 where "TF_EAX \<equiv> 44"
abbreviation TF_TRAPNO :: u32 where "TF_TRAPNO \<equiv> 52"
abbreviation TF_EIP :: u32 where "TF_EIP \<equiv> 60"
abbreviation TF_CS :: u32 where "TF_CS \<equiv> 64"
abbreviation TF_EFLAGS :: u32 where "TF_EFLAGS \<equiv> 68"
abbreviation TF_ESP :: u32 where "TF_ESP \<equiv> 72"
abbreviation TF_SS :: u32 where "TF_SS \<equiv> 76"

definition set_tf :: "nat \<Rightarrow> u32 \<Rightarrow> u32 \<Rightarrow> kst \<Rightarrow> kst" where
  "set_tf i off v s = set_mem (st32 (kmem s) (t_tf (tget s i) + off) v) s"

section \<open>Creating a task\<close>

definition task_alloc :: "kst \<Rightarrow> nat option \<times> kst" where
  "task_alloc s =
     (case find (\<lambda>i. t_state (tget s i) = TS_UNUSED) [0..<NPROC] of
        None \<Rightarrow> (None, s)
      | Some i \<Rightarrow>
          (case kalloc_page (km s) of (p, m1) \<Rightarrow>
             let s1 = tupd i (\<lambda>t. t\<lparr>t_kstack := p\<rparr>) (s\<lparr>km := m1\<rparr>)
             in if p = 0 then (None, s1)
                else let tf = p + KSTACKSIZE - TF_SIZE; ctx = tf - 4 - 20;
                         m2 = st32 (kmem s1) (tf - 4) (sym_trap_ret s1);
                         m3 = st32 (memset m2 ctx 0 20) (ctx + 16) (sym_do_nothing s1);
                         s2 = tupd i (\<lambda>t. t\<lparr>t_pid := nextpid s1,
                                t_ppid := (case current s1 of None \<Rightarrow> 0 | Some c \<Rightarrow> t_pid (tget s1 c)),
                                t_state := TS_STOPPED, t_priority := INIT_PRIO,
                                t_heap_top := HEAP_START, t_heap_start := 0,
                                t_tf := tf, t_context := ctx\<rparr>) s1
                     in (Some i, set_mem m3 (s2\<lparr>nextpid := nextpid s1 + 1\<rparr>))))"

text \<open>
  Stores to user addresses go through the page directory \<open>dir\<close> that \<^verbatim>\<open>lcr3\<close> has loaded; an address
  that is not mapped is a page fault, which stops the kernel.
\<close>

primrec user_write :: "u32 \<Rightarrow> u32 \<Rightarrow> u8 list \<Rightarrow> mm \<Rightarrow> mm res" where
  "user_write dir va [] s = Inr s"
| "user_write dir va (b # bs) s =
     (if present (entry (mem s) dir va)
      then user_write dir (va + 1) bs (s\<lparr>mem := (mem s)(uaddr (mem s) dir va := b)\<rparr>)
      else Inl (Fault ''page fault''))"

definition bytes_at :: "mem \<Rightarrow> u32 \<Rightarrow> nat \<Rightarrow> u8 list" where
  "bytes_at m a n = map (\<lambda>i. m (a + of_nat i)) [0..<n]"

definition ld16 :: "mem \<Rightarrow> u32 \<Rightarrow> u16" where
  "ld16 m a = ucast (m a) OR push_bit 8 (ucast (m (a + 1)))"

abbreviation ELF_MAGIC :: u32 where "ELF_MAGIC \<equiv> 0x464C457F"
abbreviation ELF_PROG_LOAD :: u32 where "ELF_PROG_LOAD \<equiv> 1"

text \<open>
  \<^verbatim>\<open>struct elf\<close> and \<^verbatim>\<open>struct proghdr\<close>: the fields the loader reads, at their offsets in the image.
\<close>

definition e_magic :: "mem \<Rightarrow> u32 \<Rightarrow> u32" where "e_magic m e = ld32 m e"
definition e_entry :: "mem \<Rightarrow> u32 \<Rightarrow> u32" where "e_entry m e = ld32 m (e + 24)"
definition e_phoff :: "mem \<Rightarrow> u32 \<Rightarrow> u32" where "e_phoff m e = ld32 m (e + 28)"
definition e_phnum :: "mem \<Rightarrow> u32 \<Rightarrow> u16" where "e_phnum m e = ld16 m (e + 44)"
definition ph_type :: "mem \<Rightarrow> u32 \<Rightarrow> u32" where "ph_type m p = ld32 m p"
definition ph_offset :: "mem \<Rightarrow> u32 \<Rightarrow> u32" where "ph_offset m p = ld32 m (p + 4)"
definition ph_va :: "mem \<Rightarrow> u32 \<Rightarrow> u32" where "ph_va m p = ld32 m (p + 8)"
definition ph_filesize :: "mem \<Rightarrow> u32 \<Rightarrow> u32" where "ph_filesize m p = ld32 m (p + 16)"
definition ph_memsize :: "mem \<Rightarrow> u32 \<Rightarrow> u32" where "ph_memsize m p = ld32 m (p + 20)"

primrec load_segments :: "u32 \<Rightarrow> u32 \<Rightarrow> nat \<Rightarrow> u32 \<Rightarrow> u32 \<Rightarrow> mm \<Rightarrow> (u32 \<times> mm) res" where
  "load_segments dir binary 0 ph rg s = Inr (rg, s)"
| "load_segments dir binary (Suc k) ph rg s =
     (if ph_type (mem s) ph \<noteq> ELF_PROG_LOAD then load_segments dir binary k (ph + 32) rg s
      else let va = ph_va (mem s) ph; msz = ph_memsize (mem s) ph; fsz = ph_filesize (mem s) ph;
               off = ph_offset (mem s) ph
           in bnd (region_alloc dir va msz (PTE_W OR PTE_U) s) (\<lambda>s1.
              bnd (user_write dir va (bytes_at (mem s1) (binary + off) (unat fsz)) s1) (\<lambda>s2.
              bnd (user_write dir (va + fsz) (replicate (unat (msz - fsz)) 0) s2) (\<lambda>s3.
              load_segments dir binary k (ph + 32) (if va + msz \<le> rg then rg else va + msz) s3))))"

definition load_icode :: "nat \<Rightarrow> u32 \<Rightarrow> kst \<Rightarrow> (u32 \<times> kst) res" where
  "load_icode i binary s =
     (if e_magic (kmem s) binary \<noteq> ELF_MAGIC then Inl (Panic ''load_icode failed: not a elf file.'')
      else bnd (load_segments (t_pgdir (tget s i)) binary (unat (e_phnum (kmem s) binary))
                  (binary + e_phoff (kmem s) binary) 0 (km s)) (\<lambda>(rg, m1).
           let s1 = set_tf i TF_EIP (e_entry (mem m1) binary) (s\<lparr>km := m1\<rparr>)
           in bnd (region_alloc (t_pgdir (tget s i)) (USTACKTOP - PGSIZE) PGSIZE (PTE_W OR PTE_U) (km s1)) (\<lambda>m2.
              Inr (rg, s1\<lparr>km := m2\<rparr>))))"

definition user_frame :: "nat \<Rightarrow> kst \<Rightarrow> kst" where
  "user_frame i s =
     fold (\<lambda>(off, v). set_tf i off v)
       [(TF_CS, USR_CODE OR SA_RPL3), (TF_DS, USR_DATA OR SA_RPL3), (TF_ES, USR_DATA OR SA_RPL3),
        (TF_FS, USR_DATA OR SA_RPL3), (TF_GS, USR_DATA OR SA_RPL3), (TF_SS, USR_DATA OR SA_RPL3),
        (TF_EFLAGS, FL_IF), (TF_ESP, USTACKTOP)]
       (set_mem (memset (kmem s) (t_tf (tget s i)) 0 TF_SIZE) s)"

definition link_task :: "nat \<Rightarrow> kst \<Rightarrow> kst" where
  "link_task i s = (tupd i (\<lambda>t. t\<lparr>t_next := rootp s\<rparr>) s)\<lparr>rootp := Some i\<rparr>"

definition set_cr3 :: "u32 \<Rightarrow> kst \<Rightarrow> kst" where
  "set_cr3 d s = s\<lparr>km := (km s)\<lparr>cr3 := P2V d\<rparr>\<rparr>"

definition task_create :: "u32 \<Rightarrow> kst \<Rightarrow> (nat option \<times> kst) res" where
  "task_create binary s =
     (case task_alloc s of
        (None, s1) \<Rightarrow> Inr (None, s1)
      | (Some i, s1) \<Rightarrow>
          bnd (mapkvm (kdata s1) (km s1)) (\<lambda>(d, m1).
            let s2 = tupd i (\<lambda>t. t\<lparr>t_pgdir := d\<rparr>) (s1\<lparr>km := m1\<rparr>)
            in if d = 0
               then bnd (kfree_page (t_kstack (tget s2 i)) (km s2)) (\<lambda>m2. Inr (None, s2\<lparr>km := m2\<rparr>))
               else bnd (load_icode i binary (set_cr3 d (user_frame i s2))) (\<lambda>(rg, s3).
                    Inr (Some i, link_task i (tupd i (\<lambda>t. t\<lparr>t_sz := rg, t_state := TS_RUNNABLE\<rparr>)
                                  (set_cr3 (kpgdir (km s3)) s3))))))"

section \<open>The scheduler\<close>

text \<open>
  \<^verbatim>\<open>task_run\<close>: \<^verbatim>\<open>swtch(old_tp->context, ...)\<close> stores the stack pointer in the first word of the old
  context and goes to the new task.
\<close>

definition task_run :: "nat \<Rightarrow> kst \<Rightarrow> (nat \<times> kst) res" where
  "task_run i s =
     (case current s of
        None \<Rightarrow> Inl (Fault ''task_run: old_tp is NULL'')
      | Some old \<Rightarrow>
          let s1 = (if i \<noteq> old
                    then let sa = (if t_state (tget s old) = TS_RUNNING
                                   then tupd old (\<lambda>t. t\<lparr>t_state := TS_RUNNABLE\<rparr>) s else s);
                             sb = tupd i (\<lambda>t. t\<lparr>t_state := TS_RUNNING, t_priority := t_priority t - 1\<rparr>)
                                    (sa\<lparr>current := Some i\<rparr>);
                             sc = sb\<lparr>tss_ss0 := KER_DATA, tss_esp0 := t_kstack (tget sb i) + KSTACKSIZE, ltrflag := True\<rparr>
                         in set_cr3 (t_pgdir (tget sc i)) sc
                    else s)
          in Inr (i, set_mem (st32 (kmem s1) (t_context (tget s1 old)) (ksp s1)) s1))"

partial_function (option) runnable_from :: "kst \<Rightarrow> nat option \<Rightarrow> nat option option" where
  "runnable_from s p =
     (case p of
        None \<Rightarrow> Some None
      | Some i \<Rightarrow> if t_state (tget s i) = TS_RUNNABLE then Some (Some i) else runnable_from s (t_next (tget s i)))"

partial_function (option) runnable_until :: "kst \<Rightarrow> nat \<Rightarrow> nat option \<Rightarrow> nat option res option" where
  "runnable_until s c p =
     (if p = Some c then Some (Inr None)
      else case p of
             None \<Rightarrow> Some (Inl (Fault ''sched_yield: current is not in the list''))
           | Some i \<Rightarrow> if t_state (tget s i) = TS_RUNNABLE then Some (Inr (Some i))
                       else runnable_until s c (t_next (tget s i)))"

definition sched_yield :: "kst \<Rightarrow> (nat \<times> kst) res" where
  "sched_yield s =
     (case rootp s of
        None \<Rightarrow> Inl (Panic ''No task!'')
      | Some r \<Rightarrow>
          let s1 = (if current s = None then s\<lparr>current := Some r\<rparr> else s); c = the (current s1)
          in case runnable_from s1 (t_next (tget s1 c)) of
               None \<Rightarrow> Inl (Hang ''sched_yield'')
             | Some (Some i) \<Rightarrow> task_run i s1
             | Some None \<Rightarrow>
                 bnd (ended ''sched_yield'' (runnable_until s1 c (Some r))) (\<lambda>p.
                   case p of Some i \<Rightarrow> task_run i s1 | None \<Rightarrow> task_run c s1))"

definition yield :: "kst \<Rightarrow> (nat \<times> kst) res" where
  "yield s =
     (case current s of
        None \<Rightarrow> Inl (Fault ''yield: current is NULL'')
      | Some c \<Rightarrow> sched_yield (tupd c (\<lambda>t. t\<lparr>t_state := TS_RUNNABLE\<rparr>) s))"

section \<open>Sleeping, waking, forking and exiting\<close>

definition sleep_on :: "chan \<Rightarrow> kst \<Rightarrow> (nat \<times> kst) res" where
  "sleep_on ch s =
     (case current s of
        None \<Rightarrow> Inl (Panic ''sleep: current == 0'')
      | Some c \<Rightarrow> sched_yield (tupd c (\<lambda>t. t\<lparr>t_chan := ch, t_state := TS_STOPPED\<rparr>) s))"

definition wake_one :: "chan \<Rightarrow> nat \<Rightarrow> kst \<Rightarrow> kst" where
  "wake_one ch i s =
     (if t_state (tget s i) = TS_STOPPED \<and> t_chan (tget s i) = ch
      then tupd i (\<lambda>t. t\<lparr>t_state := TS_RUNNABLE\<rparr>) s else s)"

partial_function (option) wakeup_loop :: "chan \<Rightarrow> nat option \<Rightarrow> kst \<Rightarrow> kst res option" where
  "wakeup_loop ch p s =
     (case p of
        None \<Rightarrow> Some (Inr s)
      | Some i \<Rightarrow> wakeup_loop ch (t_next (tget s i)) (wake_one ch i s))"

definition wakeup :: "chan \<Rightarrow> kst \<Rightarrow> kst res" where
  "wakeup ch s = ended ''wakeup'' (wakeup_loop ch (rootp s) s)"

text \<open>The address of a task, or \<^verbatim>\<open>NULL\<close>, as a channel.\<close>

definition task_chan :: "nat option \<Rightarrow> chan" where
  "task_chan p = (case p of None \<Rightarrow> NoChan | Some i \<Rightarrow> ChTask i)"

text \<open>\<^verbatim>\<open>fork\<close>: the label \<^verbatim>\<open>fork_fail\<close> dereferences \<^verbatim>\<open>tp\<close>, also when \<^verbatim>\<open>task_alloc\<close> returned \<^verbatim>\<open>NULL\<close>.\<close>

definition fork_fail :: "nat option \<Rightarrow> kst \<Rightarrow> (int \<times> kst) res" where
  "fork_fail tp s =
     (case tp of
        None \<Rightarrow> Inl (Fault ''fork: tp is NULL'')
      | Some i \<Rightarrow>
          bnd (kfree_page (t_kstack (tget s i)) (km s)) (\<lambda>m1.
            Inr (- 1, tupd i (\<lambda>t. t\<lparr>t_kstack := 0, t_state := TS_UNUSED\<rparr>) (s\<lparr>km := m1\<rparr>))))"

definition fork :: "kst \<Rightarrow> (int \<times> kst) res" where
  "fork s =
     (case task_alloc s of
        (None, s1) \<Rightarrow> fork_fail None s1
      | (Some i, s1) \<Rightarrow>
          (case current s1 of
             None \<Rightarrow> Inl (Fault ''fork: current is NULL'')
           | Some c \<Rightarrow>
               bnd (copy_uvm (kdata s1) (t_pgdir (tget s1 c)) (t_sz (tget s1 c)) (km s1)) (\<lambda>(d, m1).
                 let s2 = tupd i (\<lambda>t. t\<lparr>t_pgdir := d\<rparr>) (s1\<lparr>km := m1\<rparr>)
                 in if d = 0 then fork_fail (Some i) s2
                    else let s3 = tupd i (\<lambda>t. t\<lparr>t_sz := t_sz (tget s2 c), t_parent := Some c\<rparr>) s2;
                             s4 = set_mem (memmove (kmem s3) (t_tf (tget s3 i)) (t_tf (tget s3 c)) TF_SIZE) s3
                         in bnd (copy_page (t_pgdir (tget s4 c)) d (USTACKTOP - PGSIZE) (km s4)) (\<lambda>(r, m2).
                            let s5 = s4\<lparr>km := m2\<rparr>
                            in if r = 0 then fork_fail (Some i) s5
                               else let s6 = set_tf i TF_EAX 0 s5
                                    in Inr (sint (t_pid (tget s6 i)),
                                            link_task i (tupd i (\<lambda>t. t\<lparr>t_state := TS_RUNNABLE\<rparr>) s6))))))"

text \<open>
  \<^verbatim>\<open>wait\<close>: one scan of the list for a zombie child; without one the task sleeps on itself, and the
  loop does not go on. \<open>Inr (Some pid)\<close> returns, \<open>Inr None\<close> has switched to another task.
\<close>

datatype 'a ctl = Ret 'a | Run nat

partial_function (option) wait_scan :: "kst \<Rightarrow> nat \<Rightarrow> nat option \<Rightarrow> bool \<Rightarrow> (nat option \<times> bool) option" where
  "wait_scan s c p get_child =
     (case p of
        None \<Rightarrow> Some (None, get_child)
      | Some i \<Rightarrow>
          if t_parent (tget s i) \<noteq> Some c then wait_scan s c (t_next (tget s i)) get_child
          else if t_state (tget s i) = TS_ZOMBIE then Some (Some i, True)
          else wait_scan s c (t_next (tget s i)) True)"

definition reap :: "nat \<Rightarrow> kst \<Rightarrow> kst res" where
  "reap i s =
     (let s1 = tupd i (\<lambda>t. t\<lparr>t_pid := 0, t_parent := None, t_name := (t_name t)[0 := 0], t_state := TS_UNUSED\<rparr>) s
      in bnd (kfree_page (t_kstack (tget s1 i)) (km s1)) (\<lambda>m1.
           Inr (tupd i (\<lambda>t. t\<lparr>t_kstack := 0\<rparr>) (s1\<lparr>km := m1\<rparr>))))"

definition wait :: "kst \<Rightarrow> (int ctl \<times> kst) res" where
  "wait s =
     (case current s of
        None \<Rightarrow> Inl (Fault ''wait: current is NULL'')
      | Some c \<Rightarrow>
          (case wait_scan s c (rootp s) False of
             None \<Rightarrow> Inl (Hang ''wait'')
           | Some (Some i, _) \<Rightarrow> bnd (reap i s) (\<lambda>s1. Inr (Ret (sint (t_pid (tget s i))), s1))
           | Some (None, False) \<Rightarrow> Inr (Ret (- 1), s)
           | Some (None, True) \<Rightarrow> bnd (sleep_on (ChTask c) s) (\<lambda>(i, s1). Inr (Run i, s1))))"

text \<open>
  \<^verbatim>\<open>exit\<close> tests the variable \<^verbatim>\<open>tp\<close> before it has a value: \<open>junk\<close> is what it happens to hold. The
  \<^verbatim>\<open>panic\<close> after \<^verbatim>\<open>sched_yield\<close> is not reached.
\<close>

partial_function (option) exit_loop :: "nat \<Rightarrow> nat option \<Rightarrow> kst \<Rightarrow> kst res option" where
  "exit_loop c p s =
     (case p of
        None \<Rightarrow> Some (Inr s)
      | Some i \<Rightarrow>
          let s1 = (if t_parent (tget s i) = Some c then tupd i (\<lambda>t. t\<lparr>t_parent := inittask s\<rparr>) s else s)
          in if t_state (tget s1 i) = TS_ZOMBIE
             then (case wakeup (task_chan (inittask s1)) s1 of
                     Inl e \<Rightarrow> Some (Inl e)
                   | Inr s2 \<Rightarrow> exit_loop c (t_next (tget s2 i)) s2)
             else exit_loop c (t_next (tget s1 i)) s1)"

definition exit :: "nat option \<Rightarrow> kst \<Rightarrow> (nat \<times> kst) res" where
  "exit junk s =
     (if junk = inittask s then Inl (Panic ''Error! inittask exit'')
      else case current s of
             None \<Rightarrow> Inl (Fault ''exit: current is NULL'')
           | Some c \<Rightarrow>
               bnd (ended ''exit'' (exit_loop c (rootp s) s)) (\<lambda>s1.
                 let s2 = tupd c (\<lambda>t. t\<lparr>t_state := TS_ZOMBIE\<rparr>) s1
                 in bnd (wakeup (task_chan (t_parent (tget s2 c))) s2) sched_yield))"

section \<open>The list of tasks\<close>

primrec chain :: "kst \<Rightarrow> nat option \<Rightarrow> nat list \<Rightarrow> bool" where
  "chain s p [] \<longleftrightarrow> p = None"
| "chain s p (x # xs) \<longleftrightarrow> p = Some x \<and> chain s (t_next (tget s x)) xs"

text \<open>\<open>tl_ok s xs\<close>: the list from \<^verbatim>\<open>rootp\<close> is \<open>xs\<close>, without a repetition.\<close>

definition tl_ok :: "kst \<Rightarrow> nat list \<Rightarrow> bool" where
  "tl_ok s xs \<longleftrightarrow> chain s (rootp s) xs \<and> distinct xs \<and> (\<forall>x \<in> set xs. x < length (tasks s))"

text \<open>States that differ in no link.\<close>

definition same_links :: "kst \<Rightarrow> kst \<Rightarrow> bool" where
  "same_links s s' \<longleftrightarrow> rootp s' = rootp s \<and> length (tasks s') = length (tasks s) \<and>
     (\<forall>i. t_next (tget s' i) = t_next (tget s i))"

lemma same_links_refl [simp]: "same_links s s"
  by (simp add: same_links_def)

lemma same_links_trans: "same_links s s' \<Longrightarrow> same_links s' s'' \<Longrightarrow> same_links s s''"
  by (simp add: same_links_def)

lemma chain_same_links: "same_links s s' \<Longrightarrow> chain s' p xs = chain s p xs"
  by (induction xs arbitrary: p) (simp_all add: same_links_def)

lemma tl_ok_same_links: "same_links s s' \<Longrightarrow> tl_ok s' xs = tl_ok s xs"
  by (auto simp: tl_ok_def chain_same_links) (simp_all add: same_links_def)

lemma tget_tupd: "tget (tupd i f s) j = (if j = i \<and> i < length (tasks s) then f (tget s i) else tget s j)"
  by (cases "i < length (tasks s)") (simp_all add: tget_def tupd_def nth_list_update list_update_beyond not_less)

lemma tupd_sel [simp]:
  "rootp (tupd i f s) = rootp s" "current (tupd i f s) = current s" "inittask (tupd i f s) = inittask s"
  "nextpid (tupd i f s) = nextpid s" "km (tupd i f s) = km s" "length (tasks (tupd i f s)) = length (tasks s)"
  "ksp (tupd i f s) = ksp s"
  by (simp_all add: tupd_def)

lemma set_mem_sel [simp]:
  "tget (set_mem m s) i = tget s i" "rootp (set_mem m s) = rootp s" "current (set_mem m s) = current s"
  "tasks (set_mem m s) = tasks s" "inittask (set_mem m s) = inittask s"
  "mem_start (km (set_mem m s)) = mem_start (km s)" "memsz (km (set_mem m s)) = memsz (km s)"
  by (simp_all add: set_mem_def tget_def)

lemma set_cr3_sel [simp]:
  "tget (set_cr3 m s) i = tget s i" "rootp (set_cr3 m s) = rootp s" "current (set_cr3 m s) = current s"
  "tasks (set_cr3 m s) = tasks s" "inittask (set_cr3 m s) = inittask s"
  "mem_start (km (set_cr3 m s)) = mem_start (km s)" "memsz (km (set_cr3 m s)) = memsz (km s)"
  by (simp_all add: set_cr3_def tget_def)

lemma tget_upd [simp]:
  "tget (s\<lparr>current := v\<rparr>) i = tget s i" "tget (s\<lparr>tss_ss0 := w\<rparr>) i = tget s i"
  "tget (s\<lparr>tss_esp0 := w\<rparr>) i = tget s i" "tget (s\<lparr>ltrflag := b\<rparr>) i = tget s i"
  "tget (s\<lparr>km := m\<rparr>) i = tget s i" "tget (s\<lparr>rootp := v\<rparr>) i = tget s i"
  by (simp_all add: tget_def)

lemma same_links_tupd: "(\<And>t. t_next (f t) = t_next t) \<Longrightarrow> same_links s (tupd i f s)"
  by (simp add: same_links_def tget_tupd)

section \<open>What the scheduler picks\<close>

abbreviation runnable :: "kst \<Rightarrow> nat \<Rightarrow> bool" where
  "runnable s i \<equiv> t_state (tget s i) = TS_RUNNABLE"

lemma runnable_from_chain: "chain s p xs \<Longrightarrow> runnable_from s p = Some (find (runnable s) xs)"
  by (induction xs arbitrary: p) (simp_all add: runnable_from.simps)

lemma runnable_until_chain:
  "chain s p (ys @ c # zs) \<Longrightarrow> c \<notin> set ys \<Longrightarrow> runnable_until s c p = Some (Inr (find (runnable s) ys))"
  by (induction ys arbitrary: p) (auto simp: runnable_until.simps)

text \<open>\<open>turn s c os\<close>: \<open>c\<close> is in the list, and \<open>os\<close> are the others in the order the scheduler tries them.\<close>

definition turn :: "kst \<Rightarrow> nat \<Rightarrow> nat list \<Rightarrow> bool" where
  "turn s c os \<longleftrightarrow> (\<exists>ys zs. tl_ok s (ys @ c # zs) \<and> os = zs @ ys)"

lemma chain_drop: "chain s p (ys @ xs) \<Longrightarrow> \<exists>q. chain s q xs"
  by (induction ys arbitrary: p) auto

lemma chain_next: "chain s p (ys @ c # zs) \<Longrightarrow> chain s (t_next (tget s c)) zs"
  by (induction ys arbitrary: p) auto

lemma turn_rotate: "turn s c (us @ j # vs) \<Longrightarrow> turn s j (vs @ c # us)"
  unfolding turn_def
proof clarify
  fix ys zs
  assume ok: "tl_ok s (ys @ c # zs)" and e: "us @ j # vs = zs @ ys"
  from e consider zs' where "zs = us @ j # zs'" "vs = zs' @ ys" | ys' where "us = zs @ ys'" "ys = ys' @ j # vs"
  proof -
    obtain ws where "us = zs @ ws \<and> ws @ j # vs = ys \<or> us @ ws = zs \<and> j # vs = ws @ ys"
      using e unfolding append_eq_append_conv2 by blast
    then show thesis using that by (cases ws) auto
  qed
  then show "\<exists>ysa zsa. tl_ok s (ysa @ j # zsa) \<and> vs @ c # us = zsa @ ysa"
  proof cases
    case 1
    with ok show ?thesis by (intro exI [of _ "ys @ c # us"] exI [of _ zs']) simp
  next
    case 2
    with ok show ?thesis by (intro exI [of _ ys'] exI [of _ "vs @ c # zs"]) simp
  qed
qed

lemma turn_distinct: "turn s c os \<Longrightarrow> distinct (c # os) \<and> (\<forall>i \<in> set (c # os). i < length (tasks s))"
  by (auto simp: turn_def tl_ok_def)

lemma sched_yield_turn:
  assumes "turn s c os" and "current s = Some c"
  shows "sched_yield s = task_run (case find (runnable s) os of Some i \<Rightarrow> i | None \<Rightarrow> c) s"
proof -
  obtain ys zs where o: "chain s (rootp s) (ys @ c # zs)" "distinct (ys @ c # zs)" "os = zs @ ys"
    using assms(1) by (auto simp: turn_def tl_ok_def)
  obtain r where r: "rootp s = Some r" using o(1) by (cases ys) auto
  have "find (runnable s) os = (case find (runnable s) zs of None \<Rightarrow> find (runnable s) ys | Some i \<Rightarrow> Some i)"
    unfolding o(3) by (induction zs) auto
  then show ?thesis
    using assms(2) r runnable_from_chain [OF chain_next [OF o(1)]] runnable_until_chain [OF o(1)] o(2)
    by (auto simp: sched_yield_def Let_def split: option.splits)
qed

lemma task_run_spec:
  assumes "current s = Some c" and "i < length (tasks s)" and "c < length (tasks s)"
  shows "\<exists>s'. task_run i s = Inr (i, s') \<and> current s' = Some i \<and> same_links s s' \<and> inittask s' = inittask s \<and>
    mem_start (km s') = mem_start (km s) \<and> memsz (km s') = memsz (km s) \<and>
    (\<forall>j. tget s' j = (tget s j)
      \<lparr>t_state := (if c = i then t_state (tget s j) else if j = i then TS_RUNNING
                   else if j = c \<and> t_state (tget s c) = TS_RUNNING then TS_RUNNABLE else t_state (tget s j)),
       t_priority := (if c \<noteq> i \<and> j = i then t_priority (tget s j) - 1 else t_priority (tget s j))\<rparr>)"
proof (cases "c = i")
  case True
  then show ?thesis using assms(1) by (simp add: task_run_def Let_def same_links_def)
next
  case False
  then show ?thesis using assms
    by (cases "t_state (tget s c) = TS_RUNNING") (simp_all add: task_run_def Let_def tget_tupd same_links_def)
qed

text \<open>Successive preemptions: \<open>n\<close> times the running task is interrupted and the scheduler called.\<close>

primrec preempt :: "nat \<Rightarrow> kst \<Rightarrow> kst res" where
  "preempt 0 s = Inr s"
| "preempt (Suc n) s = bnd (sched_yield s) (\<lambda>(i, s1). preempt n s1)"

lemma turn_same_links: "same_links s s' \<Longrightarrow> turn s' c os = turn s c os"
  by (simp add: turn_def tl_ok_same_links)

lemma find_up_to: "P i \<Longrightarrow> \<exists>j. find P (us @ i # vs) = Some j \<and> (j = i \<or> j \<in> set us)"
  by (induction us) auto

lemma round_robin_turn:
  "turn s c (us @ i # vs) \<Longrightarrow> current s = Some c \<Longrightarrow> runnable s i \<Longrightarrow>
   \<exists>k s'. k \<le> Suc (length us) \<and> preempt k s = Inr s' \<and> current s' = Some i \<and> t_state (tget s' i) = TS_RUNNING"
proof (induction "length us" arbitrary: s c us vs rule: less_induct)
  case less
  note d = turn_distinct [OF less.prems(1)]
  obtain j where j: "find (runnable s) (us @ i # vs) = Some j" "j = i \<or> j \<in> set us"
    using find_up_to [of "runnable s", OF less.prems(3)] by blast
  have bounds: "j < length (tasks s)" "c < length (tasks s)" "j \<noteq> c"
    using j(2) d by auto
  obtain s1 where s1: "task_run j s = Inr (j, s1)" "current s1 = Some j" "same_links s s1"
    "t_state (tget s1 j) = TS_RUNNING" "\<And>x. x \<noteq> j \<Longrightarrow> runnable s x \<Longrightarrow> runnable s1 x"
    using task_run_spec [OF less.prems(2) bounds(1,2)] bounds(3) by auto
  have y: "sched_yield s = Inr (j, s1)"
    using sched_yield_turn [OF less.prems(1,2)] j(1) s1(1) by simp
  show ?case
  proof (cases "j = i")
    case True
    then show ?thesis using y s1 by (intro exI [of _ 1] exI [of _ s1]) simp
  next
    case False
    with j(2) have "j \<in> set us" by blast
    then obtain u1 u2 where u: "us = u1 @ j # u2" by (auto dest: split_list)
    have "turn s1 j (u2 @ i # vs @ c # u1)"
      using turn_rotate [of s c u1 j "u2 @ i # vs"] less.prems(1) s1(3) u by (simp add: turn_same_links)
    then obtain k s' where "k \<le> Suc (length u2)" "preempt k s1 = Inr s'" "current s' = Some i"
      "t_state (tget s' i) = TS_RUNNING"
      using less.hyps [of u2 s1 j "vs @ c # u1"] u s1(2,5) less.prems(3) False by auto
    then show ?thesis using y u by (intro exI [of _ "Suc k"] exI [of _ s']) simp
  qed
qed

section \<open>Waking and exiting\<close>

text \<open>\<open>kept s s'\<close>: \<open>s'\<close> differs from \<open>s\<close> in the states and the parents of tasks only.\<close>

definition core :: "task \<Rightarrow> task" where
  "core t = t\<lparr>t_state := TS_UNUSED, t_parent := None\<rparr>"

definition kept :: "kst \<Rightarrow> kst \<Rightarrow> bool" where
  "kept s s' \<longleftrightarrow> rootp s' = rootp s \<and> length (tasks s') = length (tasks s) \<and> current s' = current s \<and>
     inittask s' = inittask s \<and> km s' = km s \<and> (\<forall>j. core (tget s' j) = core (tget s j))"

lemma kept_refl [simp]: "kept s s"
  by (simp add: kept_def)

lemma kept_trans: "kept s s' \<Longrightarrow> kept s' s'' \<Longrightarrow> kept s s''"
  by (simp add: kept_def)

lemma core_sel:
  "t_next (core t) = t_next t" "t_chan (core t) = t_chan t" "t_pid (core t) = t_pid t"
  "t_kstack (core t) = t_kstack t" "t_context (core t) = t_context t"
  by (simp_all add: core_def)

lemma keptD:
  assumes "kept s s'"
  shows "same_links s s'" "current s' = current s" "inittask s' = inittask s" "km s' = km s"
    "t_next (tget s' j) = t_next (tget s j)" "t_chan (tget s' j) = t_chan (tget s j)"
    "t_pid (tget s' j) = t_pid (tget s j)" "t_kstack (tget s' j) = t_kstack (tget s j)"
    "length (tasks s') = length (tasks s)" "rootp s' = rootp s"
proof -
  from assms have c: "core (tget s' j) = core (tget s j)" for j by (simp add: kept_def)
  show n: "t_next (tget s' j) = t_next (tget s j)" "t_chan (tget s' j) = t_chan (tget s j)"
    "t_pid (tget s' j) = t_pid (tget s j)" "t_kstack (tget s' j) = t_kstack (tget s j)" for j
    by (metis c core_sel)+
  then show "same_links s s'" using assms by (simp add: kept_def same_links_def)
qed (use assms in \<open>simp_all add: kept_def\<close>)

lemma kept_tupd: "(\<And>t. core (f t) = core t) \<Longrightarrow> kept s (tupd i f s)"
  by (simp add: kept_def tget_tupd)

lemma core_upd [simp]:
  "core (t\<lparr>t_state := v\<rparr>) = core t" "core (t\<lparr>t_parent := q\<rparr>) = core t"
  by (simp_all add: core_def)

text \<open>What \<^verbatim>\<open>wakeup\<close> does to the tasks in its list.\<close>

definition woken_state :: "chan \<Rightarrow> task \<Rightarrow> ts_state" where
  "woken_state ch t = (if t_state t = TS_STOPPED \<and> t_chan t = ch then TS_RUNNABLE else t_state t)"

lemma wake_one_tget:
  "i < length (tasks s) \<Longrightarrow>
   tget (wake_one ch i s) j = (if j = i then (tget s j)\<lparr>t_state := woken_state ch (tget s j)\<rparr> else tget s j)"
  by (simp add: wake_one_def woken_state_def tget_tupd)

lemma kept_wake_one: "kept s (wake_one ch i s)"
  by (simp add: wake_one_def kept_tupd)

lemma wakeup_loop_chain:
  "chain s p xs \<Longrightarrow> distinct xs \<Longrightarrow> \<forall>x \<in> set xs. x < length (tasks s) \<Longrightarrow>
   \<exists>s'. wakeup_loop ch p s = Some (Inr s') \<and> kept s s' \<and>
     (\<forall>j. tget s' j = (if j \<in> set xs then (tget s j)\<lparr>t_state := woken_state ch (tget s j)\<rparr> else tget s j))"
proof (induction xs arbitrary: p s)
  case Nil
  then show ?case by (simp add: wakeup_loop.simps)
next
  case (Cons x xs)
  let ?s1 = "wake_one ch x s"
  have k: "kept s ?s1" by (rule kept_wake_one)
  have "chain ?s1 (t_next (tget s x)) xs" "\<forall>x \<in> set xs. x < length (tasks ?s1)"
    using Cons.prems chain_same_links [OF keptD(1) [OF k]] keptD(9) [OF k] by simp_all
  from Cons.IH [OF this(1) _ this(2)] Cons.prems(2) obtain s' where
    s': "wakeup_loop ch (t_next (tget s x)) ?s1 = Some (Inr s')" "kept ?s1 s'"
      "\<forall>j. tget s' j = (if j \<in> set xs then (tget ?s1 j)\<lparr>t_state := woken_state ch (tget ?s1 j)\<rparr> else tget ?s1 j)"
    by auto
  have "wakeup_loop ch p s = Some (Inr s')"
    using Cons.prems(1) s'(1) by (simp add: wakeup_loop.simps [of ch "Some x"])
  then show ?case
    using Cons.prems kept_trans [OF k s'(2)] s'(3) by (intro exI [of _ s']) (auto simp: wake_one_tget)
qed

lemma wakeup_spec:
  assumes "tl_ok s xs"
  shows "\<exists>s'. wakeup ch s = Inr s' \<and> kept s s' \<and>
    (\<forall>j. tget s' j = (if j \<in> set xs then (tget s j)\<lparr>t_state := woken_state ch (tget s j)\<rparr> else tget s j))"
  using wakeup_loop_chain [of s "rootp s" xs ch] assms unfolding tl_ok_def wakeup_def by auto

lemma exit_loop_chain:
  assumes "tl_ok s ys" and "current s = Some c"
  shows "chain s p xs \<Longrightarrow> set xs \<subseteq> set ys \<Longrightarrow> distinct xs \<Longrightarrow>
   \<exists>s'. exit_loop c p s = Some (Inr s') \<and> kept s s' \<and>
     (\<forall>j. t_parent (tget s' j) = (if j \<in> set xs \<and> t_parent (tget s j) = Some c then inittask s else t_parent (tget s j)) \<and>
       (t_state (tget s' j) = t_state (tget s j) \<or>
        t_state (tget s j) = TS_STOPPED \<and> t_state (tget s' j) = TS_RUNNABLE \<and> t_chan (tget s j) = task_chan (inittask s)))"
  using assms
proof (induction xs arbitrary: p s)
  case Nil
  then show ?case by (simp add: exit_loop.simps)
next
  case (Cons x xs)
  define s1 where "s1 = (if t_parent (tget s x) = Some c then tupd x (\<lambda>t. t\<lparr>t_parent := inittask s\<rparr>) s else s)"
  have x: "x < length (tasks s)" using Cons.prems(2,4) by (auto simp: tl_ok_def)
  have k1: "kept s s1" by (simp add: s1_def kept_tupd)
  have g1: "t_parent (tget s1 j) = (if j = x \<and> t_parent (tget s j) = Some c then inittask s else t_parent (tget s j))"
    "t_state (tget s1 j) = t_state (tget s j)" for j using x by (auto simp: s1_def tget_tupd)
  have ok1: "tl_ok s1 ys" using Cons.prems(4) tl_ok_same_links [OF keptD(1) [OF k1]] by simp
  obtain s2 where s2: "kept s1 s2" "\<And>j. t_parent (tget s2 j) = t_parent (tget s1 j)"
    "\<And>j. t_state (tget s2 j) = t_state (tget s1 j) \<or> t_state (tget s1 j) = TS_STOPPED \<and>
        t_state (tget s2 j) = TS_RUNNABLE \<and> t_chan (tget s1 j) = task_chan (inittask s)"
    "exit_loop c p s = exit_loop c (t_next (tget s x)) s2"
  proof (cases "t_state (tget s x) = TS_ZOMBIE")
    case True
    obtain s2 where w: "wakeup (task_chan (inittask s1)) s1 = Inr s2" "kept s1 s2"
      "\<forall>j. tget s2 j = (if j \<in> set ys then (tget s1 j)\<lparr>t_state := woken_state (task_chan (inittask s1)) (tget s1 j)\<rparr> else tget s1 j)"
      using wakeup_spec [OF ok1, of "task_chan (inittask s1)"] by blast
    have "exit_loop c p s = exit_loop c (t_next (tget s x)) s2"
      using Cons.prems(1) True w(1) g1(2) keptD(5) [OF kept_trans [OF k1 w(2)]]
      by (simp add: exit_loop.simps [of c "Some x"] Let_def s1_def [symmetric])
    with w keptD(3) [OF k1] show thesis by (intro that) (auto simp: woken_state_def)
  next
    case False
    then have "exit_loop c p s = exit_loop c (t_next (tget s x)) s1"
      using Cons.prems(1) g1(2) keptD(5) [OF k1] by (simp add: exit_loop.simps [of c "Some x"] Let_def s1_def [symmetric])
    then show thesis by (intro that) simp_all
  qed
  note k2 = kept_trans [OF k1 s2(1)]
  have "chain s2 (t_next (tget s x)) xs" "tl_ok s2 ys" "current s2 = Some c"
    using Cons.prems(1,4,5) chain_same_links [OF keptD(1) [OF k2]] tl_ok_same_links [OF keptD(1) [OF k2]] keptD(2) [OF k2]
    by simp_all
  from Cons.IH [OF this(1) _ _ this(2,3)] Cons.prems(2,3) obtain s' where
    s': "exit_loop c (t_next (tget s x)) s2 = Some (Inr s')" "kept s2 s'"
      "\<And>j. t_parent (tget s' j) = (if j \<in> set xs \<and> t_parent (tget s2 j) = Some c then inittask s2 else t_parent (tget s2 j))"
      "\<And>j. t_state (tget s' j) = t_state (tget s2 j) \<or> t_state (tget s2 j) = TS_STOPPED \<and>
         t_state (tget s' j) = TS_RUNNABLE \<and> t_chan (tget s2 j) = task_chan (inittask s2)" by auto
  have i: "inittask s2 = inittask s" and ch: "\<And>j. t_chan (tget s2 j) = t_chan (tget s j)" "\<And>j. t_chan (tget s1 j) = t_chan (tget s j)"
    using keptD(3) [OF k2] keptD(6) [OF k2] keptD(6) [OF k1] by simp_all
  have "x \<notin> set xs" using Cons.prems(3) by simp
  then have "t_parent (tget s' j) = (if j \<in> set (x # xs) \<and> t_parent (tget s j) = Some c then inittask s else t_parent (tget s j))" for j
    using s'(3) [of j] s2(2) [of j] g1(1) [of j] i by auto
  moreover have "t_state (tget s' j) = t_state (tget s j) \<or> t_state (tget s j) = TS_STOPPED \<and>
      t_state (tget s' j) = TS_RUNNABLE \<and> t_chan (tget s j) = task_chan (inittask s)" for j
    using s'(4) [of j] s2(3) [of j] g1(2) [of j] i ch by auto
  ultimately show ?case using s' s2(4) kept_trans [OF k2 s'(2)] by auto
qed

text \<open>A page \<^verbatim>\<open>kfree_page\<close> accepts.\<close>

definition heap_page :: "u32 \<Rightarrow> mm \<Rightarrow> bool" where
  "heap_page v m \<longleftrightarrow> v mod PGSIZE = 0 \<and> mem_start m \<le> v \<and> v \<le> V2P (memsz m * 1024)"

lemma kfree_page_accepts:
  "heap_page v m \<Longrightarrow> \<exists>m'. kfree_page v m = Inr m' \<and> free_list m' = v"
  by (auto simp: heap_page_def kfree_page_def not_less)

lemma wait_scan_chain:
  "chain s p xs \<Longrightarrow> \<forall>j \<in> set xs. t_parent (tget s j) = Some c \<longrightarrow> j = z \<Longrightarrow>
   z \<in> set xs \<Longrightarrow> t_parent (tget s z) = Some c \<Longrightarrow> t_state (tget s z) = TS_ZOMBIE \<Longrightarrow>
   wait_scan s c p g = Some (Some z, True)"
proof (induction xs arbitrary: p g)
  case (Cons x xs)
  have p: "p = Some x" "chain s (t_next (tget s x)) xs" using Cons.prems(1) by simp_all
  show ?case
  proof (cases "t_parent (tget s x) = Some c")
    case True
    then have "x = z" using Cons.prems(2) by simp
    then show ?thesis using p(1) True Cons.prems(5) by (simp add: wait_scan.simps [of s c "Some z"])
  next
    case False
    then have "z \<in> set xs" using Cons.prems(3,4) by auto
    moreover have "\<forall>j \<in> set xs. t_parent (tget s j) = Some c \<longrightarrow> j = z" using Cons.prems(2) by simp
    ultimately have "wait_scan s c (t_next (tget s x)) g = Some (Some z, True)"
      using Cons.IH [OF p(2)] Cons.prems(4,5) by blast
    then show ?thesis unfolding p(1) wait_scan.simps [of s c "Some x"] using False by simp
  qed
qed simp

lemma wait_reaps:
  assumes "tl_ok s xs" and "current s = Some q" and "z \<in> set xs" and "t_parent (tget s z) = Some q"
    and "t_state (tget s z) = TS_ZOMBIE" and "\<forall>j \<in> set xs. t_parent (tget s j) = Some q \<longrightarrow> j = z"
    and "heap_page (t_kstack (tget s z)) (km s)"
  shows "\<exists>s'. wait s = Inr (Ret (sint (t_pid (tget s z))), s') \<and> t_state (tget s' z) = TS_UNUSED \<and>
    free_list (km s') = t_kstack (tget s z)"
proof -
  have z: "z < length (tasks s)" and c: "chain s (rootp s) xs" using assms(1,3) by (auto simp: tl_ok_def)
  obtain m' where "kfree_page (t_kstack (tget s z)) (km s) = Inr m'" "free_list m' = t_kstack (tget s z)"
    using kfree_page_accepts [OF assms(7)] by blast
  then show ?thesis
    using wait_scan_chain [OF c assms(6,3,4,5), of False] assms(2) z
    by (simp add: wait_def reap_def Let_def tget_tupd)
qed

lemma turn_of: "tl_ok s xs \<Longrightarrow> c \<in> set xs \<Longrightarrow> \<exists>os. turn s c os \<and> set xs = insert c (set os)"
proof -
  assume ok: "tl_ok s xs" and "c \<in> set xs"
  then obtain ys zs where xs: "xs = ys @ c # zs" by (auto dest: split_list)
  then have "turn s c (zs @ ys)" using ok unfolding turn_def by blast
  then show ?thesis using xs by (intro exI [of _ "zs @ ys"]) auto
qed

lemma exit_spec:
  assumes ok: "tl_ok s xs" and cur: "current s = Some c" "c \<in> set xs" and junk: "junk \<noteq> inittask s"
    and par: "t_parent (tget s c) = Some q" "q \<in> set xs" "q \<noteq> c"
    and sleeps: "t_state (tget s q) = TS_STOPPED" "t_chan (tget s q) = ChTask q"
  obtains i s' where "exit junk s = Inr (i, s')" and "i \<noteq> c" and "i \<in> set xs" and "current s' = Some i" and "tl_ok s' xs"
    and "t_state (tget s' c) = TS_ZOMBIE" and "t_state (tget s' q) \<in> {TS_RUNNABLE, TS_RUNNING}"
    and "\<And>j. t_parent (tget s' j) = (if j \<in> set xs \<and> t_parent (tget s j) = Some c then inittask s else t_parent (tget s j))"
    and "\<And>j. t_pid (tget s' j) = t_pid (tget s j)" and "\<And>j. t_kstack (tget s' j) = t_kstack (tget s j)"
    and "mem_start (km s') = mem_start (km s)" and "memsz (km s') = memsz (km s)" and "inittask s' = inittask s"
proof -
  have b: "c < length (tasks s)" "q < length (tasks s)" using ok cur(2) par(2) by (auto simp: tl_ok_def)
  obtain s1 where s1: "exit_loop c (rootp s) s = Some (Inr s1)" "kept s s1"
    "\<And>j. t_parent (tget s1 j) = (if j \<in> set xs \<and> t_parent (tget s j) = Some c then inittask s else t_parent (tget s j))"
    "t_state (tget s1 q) = TS_STOPPED \<or> t_state (tget s1 q) = TS_RUNNABLE"
  proof -
    have ch: "chain s (rootp s) xs" "distinct xs" using ok by (simp_all add: tl_ok_def)
    obtain s1 where "exit_loop c (rootp s) s = Some (Inr s1)" "kept s s1"
      "\<forall>j. t_parent (tget s1 j) = (if j \<in> set xs \<and> t_parent (tget s j) = Some c then inittask s else t_parent (tget s j)) \<and>
        (t_state (tget s1 j) = t_state (tget s j) \<or> t_state (tget s j) = TS_STOPPED \<and> runnable s1 j \<and>
          t_chan (tget s j) = task_chan (inittask s))"
      using exit_loop_chain [OF ok cur(1) ch(1) subset_refl ch(2)] by blast
    with sleeps(1) show thesis by (intro that [of s1]) (auto dest: spec [of _ q])
  qed
  define s2 where "s2 = tupd c (\<lambda>t. t\<lparr>t_state := TS_ZOMBIE\<rparr>) s1"
  have k2: "kept s s2" using kept_trans [OF s1(2)] by (simp add: s2_def kept_tupd)
  have ok2: "tl_ok s2 xs" using ok tl_ok_same_links [OF keptD(1) [OF k2]] by simp
  have g2: "t_parent (tget s2 j) = t_parent (tget s1 j)" "t_state (tget s2 c) = TS_ZOMBIE"
    "t_state (tget s2 q) = t_state (tget s1 q)" for j
    using b par(3) keptD(9) [OF s1(2)] by (auto simp: s2_def tget_tupd)
  have p: "t_parent (tget s2 c) = Some q" using g2(1) s1(3) par by (simp split: if_splits)
  obtain s3 where s3: "wakeup (ChTask q) s2 = Inr s3" "kept s2 s3"
    "\<forall>j. tget s3 j = (if j \<in> set xs then (tget s2 j)\<lparr>t_state := woken_state (ChTask q) (tget s2 j)\<rparr> else tget s2 j)"
    using wakeup_spec [OF ok2, of "ChTask q"] by blast
  note k3 = kept_trans [OF k2 s3(2)]
  have q3: "runnable s3 q" "t_state (tget s3 c) = TS_ZOMBIE"
    using s3(3) par(2) g2 s1(4) sleeps(2) keptD(6) [OF k2] by (auto simp: woken_state_def)
  have ok3: "tl_ok s3 xs" and cur3: "current s3 = Some c"
    using ok tl_ok_same_links [OF keptD(1) [OF k3]] cur(1) keptD(2) [OF k3] by simp_all
  obtain os where os: "turn s3 c os" "set xs = insert c (set os)" using turn_of [OF ok3 cur(2)] by blast
  then obtain us vs where "os = us @ q # vs" using par(2,3) by (metis insertE split_list)
  then obtain i where i: "find (runnable s3) os = Some i" "i \<in> set os"
    using find_up_to [of "runnable s3", OF q3(1)] by fastforce
  have bi: "i < length (tasks s3)" "c < length (tasks s3)" "i \<noteq> c" using turn_distinct [OF os(1)] i(2) by auto
  obtain s4 where s4: "task_run i s3 = Inr (i, s4)" "current s4 = Some i" "same_links s3 s4" "inittask s4 = inittask s3"
    "mem_start (km s4) = mem_start (km s3)" "memsz (km s4) = memsz (km s3)"
    "\<And>j. tget s4 j = (tget s3 j)\<lparr>t_state := (if j = i then TS_RUNNING else t_state (tget s3 j)),
        t_priority := (if j = i then t_priority (tget s3 j) - 1 else t_priority (tget s3 j))\<rparr>"
    using task_run_spec [OF cur3 bi(1,2)] bi(3) q3(2) by auto
  have "exit junk s = Inr (i, s4)"
    using junk cur(1) s1(1) p s3(1) s4(1) sched_yield_turn [OF os(1) cur3] i(1)
    by (simp add: exit_def Let_def s2_def [symmetric] task_chan_def)
  then show thesis
  proof (rule that)
    show "i \<in> set xs" using i(2) os(2) by simp
    show "tl_ok s4 xs" using ok3 tl_ok_same_links [OF s4(3)] by simp
    show "t_state (tget s4 q) \<in> {TS_RUNNABLE, TS_RUNNING}" using s4(7) q3(1) by simp
    show "t_parent (tget s4 j) = (if j \<in> set xs \<and> t_parent (tget s j) = Some c then inittask s else t_parent (tget s j))" for j
      using s4(7) s3(3) g2(1) s1(3) by simp
    show "t_state (tget s4 c) = TS_ZOMBIE" using s4(7) q3(2) bi(3) by simp
    show "t_pid (tget s4 j) = t_pid (tget s j)" "t_kstack (tget s4 j) = t_kstack (tget s j)" for j
      using s4(7) keptD(7,8) [OF k3] by simp_all
    show "mem_start (km s4) = mem_start (km s)" "memsz (km s4) = memsz (km s)" "inittask s4 = inittask s"
      using s4(4-6) keptD(3,4) [OF k3] by simp_all
  qed (fact bi(3) s4(2))+
qed

section \<open>A task linked twice\<close>

lemma chain_unique: "chain s p xs \<Longrightarrow> chain s p ys \<Longrightarrow> xs = ys"
proof (induction xs arbitrary: p ys)
  case Nil
  then show ?case by (cases ys) auto
next
  case (Cons x xs)
  then show ?case by (cases ys) auto
qed

lemma wakeup_loop_ends:
  assumes "wakeup_loop ch p s = Some r"
  shows "\<exists>xs. chain s p xs"
proof (rule wakeup_loop.raw_induct [where P = "\<lambda>ch p s r. \<exists>xs. chain s p xs", OF _ assms])
  fix f :: "chan \<Rightarrow> nat option \<Rightarrow> kst \<Rightarrow> kst res option" and ch p s r
  assume IH: "\<And>ch p s r. f ch p s = Some r \<Longrightarrow> \<exists>xs. chain s p xs"
    and eq: "(case p of None \<Rightarrow> Some (Inr s) | Some i \<Rightarrow> f ch (t_next (tget s i)) (wake_one ch i s)) = Some r"
  show "\<exists>xs. chain s p xs"
  proof (cases p)
    case None
    then show ?thesis by (intro exI [of _ "[]"]) simp
  next
    case (Some i)
    with eq IH obtain xs where "chain (wake_one ch i s) (t_next (tget s i)) xs" by fastforce
    then have "chain s p (i # xs)" using Some chain_same_links [OF keptD(1) [OF kept_wake_one]] by simp
    then show ?thesis by blast
  qed
qed

lemma chain_through:
  "chain s p (ys @ i # zs) \<Longrightarrow> i \<notin> set ys \<Longrightarrow> \<forall>j. j \<noteq> i \<longrightarrow> t_next (tget s' j) = t_next (tget s j) \<Longrightarrow>
   chain s' p vs \<Longrightarrow> \<exists>ws. vs = ys @ ws \<and> chain s' (Some i) ws"
proof (induction ys arbitrary: p vs)
  case (Cons y ys)
  then show ?case by (cases vs) auto
qed auto

lemma link_twice_hangs:
  assumes "tl_ok s xs" and "i \<in> set xs"
  shows "wakeup ch (link_task i s) = Inl (Hang ''wakeup'')"
proof -
  let ?s = "link_task i s"
  obtain ys zs where xs: "xs = ys @ i # zs" "i \<notin> set ys"
    using assms(2) by (metis split_list_first)
  have b: "i < length (tasks s)" and c: "chain s (rootp s) (ys @ i # zs)"
    using assms xs by (auto simp: tl_ok_def)
  have g: "rootp ?s = Some i" "t_next (tget ?s i) = rootp s" "\<forall>j. j \<noteq> i \<longrightarrow> t_next (tget ?s j) = t_next (tget s j)"
    using b by (simp_all add: link_task_def tget_tupd)
  have "wakeup_loop ch (Some i) ?s = None"
  proof (rule ccontr)
    assume "wakeup_loop ch (Some i) ?s \<noteq> None"
    then obtain r where "wakeup_loop ch (Some i) ?s = Some r" by blast
    then obtain ws where ws: "chain ?s (Some i) ws" using wakeup_loop_ends by blast
    then obtain vs where vs: "ws = i # vs" "chain ?s (rootp s) vs" using g(2) by (cases ws) auto
    obtain ws' where "vs = ys @ ws'" "chain ?s (Some i) ws'" using chain_through [OF c xs(2) g(3) vs(2)] by blast
    moreover from this(2) have "ws' = ws" using ws chain_unique by blast
    ultimately show False using vs(1) by (metis append_Cons append_self_conv2 list.distinct(1))
  qed
  then show ?thesis using g(1) by (simp add: wakeup_def ended_def)
qed

lemma reap_spec:
  assumes "i < length (tasks s)" and "heap_page (t_kstack (tget s i)) (km s)"
  shows "\<exists>s'. reap i s = Inr s' \<and> same_links s s' \<and> t_state (tget s' i) = TS_UNUSED"
proof -
  obtain m' where "kfree_page (t_kstack (tget s i)) (km s) = Inr m'" using kfree_page_accepts [OF assms(2)] by blast
  then show ?thesis using assms(1) by (simp add: reap_def Let_def tget_tupd same_links_def)
qed

section \<open>Properties\<close>

text \<open>Three tasks: the first sleeps on itself, the second runs and is its child, the third is ready.\<close>

definition a_task :: task where
  "a_task =
     \<lparr>t_tf = 0, t_context = 0, t_pid = 0, t_ppid = 0, t_name = [], t_state = TS_RUNNABLE, t_sz = 0, t_priority = 20,
      t_pgdir = 0, t_kstack = 0x80400000, t_chan = NoChan, t_heap_top = 0, t_heap_start = 0,
      t_ofile = [], t_parent = None, t_next = None\<rparr>"

definition three_tasks :: kst where
  "three_tasks =
     \<lparr>tasks = [a_task\<lparr>t_pid := 1, t_state := TS_STOPPED, t_chan := ChTask 0\<rparr>,
               a_task\<lparr>t_pid := 2, t_state := TS_RUNNING, t_parent := Some 0, t_next := Some 0\<rparr>,
               a_task\<lparr>t_pid := 3, t_next := Some 1\<rparr>],
      rootp = Some 2, current = Some 1, inittask = Some 2, nextpid = 4, km = two_pages, tss_ss0 = 0, tss_esp0 = 0,
      ltrflag = False, ksp = 0x80401000, kdata = 0, sym_trap_ret = 0, sym_do_nothing = 0\<rparr>"

lemma three_tasks_sel:
  "tget three_tasks 0 = a_task\<lparr>t_pid := 1, t_state := TS_STOPPED, t_chan := ChTask 0\<rparr>"
  "tget three_tasks 1 = a_task\<lparr>t_pid := 2, t_state := TS_RUNNING, t_parent := Some 0, t_next := Some 0\<rparr>"
  "tget three_tasks (Suc 0) = a_task\<lparr>t_pid := 2, t_state := TS_RUNNING, t_parent := Some 0, t_next := Some 0\<rparr>"
  "tget three_tasks 2 = a_task\<lparr>t_pid := 3, t_next := Some 1\<rparr>"
  "current three_tasks = Some 1" "inittask three_tasks = Some 2" "km three_tasks = two_pages"
  by (simp_all add: three_tasks_def tget_def)

lemma three_tasks_ok: "tl_ok three_tasks [2, 1, 0]"
  by (simp add: tl_ok_def three_tasks_def tget_def a_task_def)

text \<open>
  C7. No starvation: a task that is ready and in the list gets the processor after at most as many
  preemptions as there are tasks in the list, whatever the others are doing; the scheduler goes round.
\<close>

theorem sched_round_robin:
  assumes "tl_ok s xs" and "current s = Some c" and "c \<in> set xs" and "i \<in> set xs"
    and "t_state (tget s i) = TS_RUNNABLE" and "i \<noteq> c"
  shows "\<exists>k s'. k < length xs \<and> preempt k s = Inr s' \<and> current s' = Some i \<and> t_state (tget s' i) = TS_RUNNING"
proof -
  obtain ys zs where xs: "xs = ys @ c # zs" using assms(3) by (auto dest: split_list)
  then have t: "turn s c (zs @ ys)" using assms(1) unfolding turn_def by blast
  have "i \<in> set (zs @ ys)" using xs assms(4,6) by auto
  then obtain us vs where u: "zs @ ys = us @ i # vs" by (metis split_list)
  have "length zs + length ys = Suc (length us + length vs)" using arg_cong [OF u, of length] by simp
  then have "Suc (length us) < length xs" using xs by simp
  moreover obtain k s' where "k \<le> Suc (length us)" "preempt k s = Inr s'" "current s' = Some i"
    "t_state (tget s' i) = TS_RUNNING"
    using round_robin_turn [of s c us i vs] t u assms(2,5) by auto
  ultimately show ?thesis by (meson le_less_trans)
qed

theorem sched_round_robin_witness:
  "\<exists>k s'. k < 3 \<and> preempt k three_tasks = Inr s' \<and> current s' = Some 2 \<and> t_state (tget s' 2) = TS_RUNNING"
  using sched_round_robin [OF three_tasks_ok, of 1 2] by (simp add: three_tasks_sel a_task_def numeral_3_eq_3)

text \<open>
  C33. A task that goes to sleep when no other task is ready is run again at once: \<^verbatim>\<open>sched_yield\<close> then
  switches to the task that has just stopped, which returns to user mode still marked as sleeping.
\<close>

theorem sleep_alone_returns:
  assumes "tl_ok s xs" and "current s = Some c" and "c \<in> set xs"
    and "\<forall>j \<in> set xs. j \<noteq> c \<longrightarrow> t_state (tget s j) \<noteq> TS_RUNNABLE"
  shows "\<exists>s'. sleep_on ch s = Inr (c, s') \<and> current s' = Some c \<and> t_state (tget s' c) = TS_STOPPED \<and>
    t_chan (tget s' c) = ch"
proof -
  define s1 where "s1 = tupd c (\<lambda>t. t\<lparr>t_chan := ch, t_state := TS_STOPPED\<rparr>) s"
  have c: "c < length (tasks s)" using assms(1,3) by (auto simp: tl_ok_def)
  have l: "same_links s s1" by (simp add: s1_def same_links_tupd)
  have g: "tget s1 j = (if j = c then (tget s c)\<lparr>t_chan := ch, t_state := TS_STOPPED\<rparr> else tget s j)" for j
    using c by (simp add: s1_def tget_tupd)
  have ok: "tl_ok s1 xs" and cur: "current s1 = Some c" "c < length (tasks s1)"
    using assms(1,2) c tl_ok_same_links [OF l] by (simp_all add: s1_def)
  obtain os where os: "turn s1 c os" "set xs = insert c (set os)" using turn_of [OF ok assms(3)] by blast
  then have "\<forall>j \<in> set os. \<not> runnable s1 j" using assms(4) g turn_distinct [OF os(1)] by auto
  then have "find (runnable s1) os = None" by (simp add: find_None_iff)
  then have "sched_yield s1 = task_run c s1" using sched_yield_turn [OF os(1) cur(1)] by simp
  then have "sleep_on ch s = task_run c s1" using assms(2) by (simp add: sleep_on_def s1_def)
  then show ?thesis using task_run_spec [OF cur(1) cur(2) cur(2)] g by auto
qed

theorem sleep_alone_returns_witness:
  "\<exists>s'. sleep_on (ChAddr 0x1000) (three_tasks\<lparr>rootp := Some 1\<rparr>) = Inr (1, s') \<and> current s' = Some 1 \<and>
    t_state (tget s' 1) = TS_STOPPED \<and> t_chan (tget s' 1) = ChAddr 0x1000"
proof -
  have "tl_ok (three_tasks\<lparr>rootp := Some 1\<rparr>) [1, 0]"
    by (simp add: tl_ok_def three_tasks_def tget_def a_task_def)
  from sleep_alone_returns [OF this, of 1] show ?thesis by (simp add: three_tasks_sel a_task_def)
qed

text \<open>
  C12. Exit and wait: when a task exits whose parent sleeps in \<^verbatim>\<open>wait\<close>, it becomes a zombie, another
  task gets the processor, the parent is ready or running, and the children of the task belong to
  \<^verbatim>\<open>inittask\<close>. When the parent runs and calls \<^verbatim>\<open>wait\<close> it gets the number of the task, its only child,
  whose slot is then free and whose kernel stack is back on the free list.
\<close>

theorem exit_then_wait:
  assumes "tl_ok s xs" and "current s = Some c" and "c \<in> set xs" and "junk \<noteq> inittask s"
    and "t_parent (tget s c) = Some q" and "q \<in> set xs" and "q \<noteq> c"
    and "t_state (tget s q) = TS_STOPPED" and "t_chan (tget s q) = ChTask q"
    and "\<forall>j \<in> set xs. t_parent (tget s j) = Some q \<longrightarrow> j = c" and "inittask s \<noteq> Some q"
    and "heap_page (t_kstack (tget s c)) (km s)"
  shows "\<exists>i s1 s2 s3. exit junk s = Inr (i, s1) \<and> i \<noteq> c \<and> t_state (tget s1 c) = TS_ZOMBIE \<and>
    t_state (tget s1 q) \<in> {TS_RUNNABLE, TS_RUNNING} \<and>
    (\<forall>j \<in> set xs. t_parent (tget s j) = Some c \<longrightarrow> t_parent (tget s1 j) = inittask s) \<and>
    task_run q s1 = Inr (q, s2) \<and> wait s2 = Inr (Ret (sint (t_pid (tget s c))), s3) \<and>
    t_state (tget s3 c) = TS_UNUSED \<and> free_list (km s3) = t_kstack (tget s c)"
proof -
  obtain i s1 where e: "exit junk s = Inr (i, s1)" "i \<noteq> c" "i \<in> set xs" "current s1 = Some i" "tl_ok s1 xs"
    "t_state (tget s1 c) = TS_ZOMBIE" "t_state (tget s1 q) \<in> {TS_RUNNABLE, TS_RUNNING}"
    "\<And>j. t_parent (tget s1 j) = (if j \<in> set xs \<and> t_parent (tget s j) = Some c then inittask s else t_parent (tget s j))"
    "t_pid (tget s1 c) = t_pid (tget s c)" "t_kstack (tget s1 c) = t_kstack (tget s c)"
    "mem_start (km s1) = mem_start (km s)" "memsz (km s1) = memsz (km s)"
    using exit_spec [OF assms(1-9)] by metis
  have b: "i < length (tasks s1)" "q < length (tasks s1)" using e(3,5) assms(6) by (auto simp: tl_ok_def)
  obtain s2 where r: "task_run q s1 = Inr (q, s2)" "current s2 = Some q" "same_links s1 s2"
    "mem_start (km s2) = mem_start (km s1)" "memsz (km s2) = memsz (km s1)"
    "t_state (tget s2 c) = TS_ZOMBIE" "\<And>j. t_parent (tget s2 j) = t_parent (tget s1 j)"
    "t_pid (tget s2 c) = t_pid (tget s1 c)" "t_kstack (tget s2 c) = t_kstack (tget s1 c)"
    using task_run_spec [OF e(4) b(2,1)] e(2,6) assms(7) by auto
  have "tl_ok s2 xs" using e(5) tl_ok_same_links [OF r(3)] by simp
  moreover have "t_parent (tget s2 c) = Some q" "\<forall>j \<in> set xs. t_parent (tget s2 j) = Some q \<longrightarrow> j = c"
    using r(7) e(8) assms(5,7,10,11) by auto
  moreover have "heap_page (t_kstack (tget s2 c)) (km s2)" using assms(12) r e by (simp add: heap_page_def)
  ultimately obtain s3 where "wait s2 = Inr (Ret (sint (t_pid (tget s2 c))), s3)" "t_state (tget s3 c) = TS_UNUSED"
    "free_list (km s3) = t_kstack (tget s2 c)"
    using wait_reaps [of s2 xs q c] r(2,6) assms(3) by blast
  then show ?thesis using e r by (intro exI [of _ i] exI [of _ s1] exI [of _ s2] exI [of _ s3]) auto
qed

theorem exit_then_wait_witness:
  "\<exists>i s1 s2 s3. exit None three_tasks = Inr (i, s1) \<and> i \<noteq> 1 \<and> task_run 0 s1 = Inr (0, s2) \<and>
    wait s2 = Inr (Ret 2, s3) \<and> t_state (tget s3 1) = TS_UNUSED \<and> free_list (km s3) = 0x80400000"
proof -
  have "heap_page 0x80400000 two_pages" by (simp add: heap_page_def two_pages_def V2P_def)
  then show ?thesis
    using exit_then_wait [OF three_tasks_ok, of 1 None 0] by (auto simp: three_tasks_sel a_task_def)
qed

text \<open>
  C34. A reaped task stays in the list. When its slot, which is free then, is used for a new task,
  linking that task as \<^verbatim>\<open>fork\<close> and \<^verbatim>\<open>task_create\<close> do closes the list to a cycle, and the next \<^verbatim>\<open>wakeup\<close>
  never ends.
\<close>

theorem reaped_slot_makes_a_cycle:
  assumes "tl_ok s xs" and "i \<in> set xs" and "heap_page (t_kstack (tget s i)) (km s)"
  shows "\<exists>s1. reap i s = Inr s1 \<and> t_state (tget s1 i) = TS_UNUSED \<and>
    (\<forall>ch. wakeup ch (link_task i s1) = Inl (Hang ''wakeup''))"
proof -
  have "i < length (tasks s)" using assms(1,2) by (auto simp: tl_ok_def)
  then obtain s1 where "reap i s = Inr s1" "same_links s s1" "t_state (tget s1 i) = TS_UNUSED"
    using reap_spec assms(3) by blast
  moreover from this(2) have "tl_ok s1 xs" using assms(1) tl_ok_same_links by blast
  ultimately show ?thesis using link_twice_hangs assms(2) by blast
qed

theorem reaped_slot_makes_a_cycle_witness:
  "\<exists>s1. reap 1 three_tasks = Inr s1 \<and> t_state (tget s1 1) = TS_UNUSED \<and>
    wakeup NoChan (link_task 1 s1) = Inl (Hang ''wakeup'')"
proof -
  have "heap_page (t_kstack (tget three_tasks 1)) (km three_tasks)"
    by (simp add: heap_page_def two_pages_def V2P_def three_tasks_sel a_task_def)
  from reaped_slot_makes_a_cycle [OF three_tasks_ok _ this] show ?thesis by auto
qed

end
