(* ===== verification/Kern_Heap.thy ===== *)
theory Kern_Heap
  imports Kern_Task
begin

text \<open>
  The kernel heap of a task: \<^verbatim>\<open>kern/heap.c\<close> with \<^verbatim>\<open>inc/heap.h\<close>. Chunks are linked through headers of 12
  bytes in the virtual memory from \<^verbatim>\<open>HEAP_START\<close> on, which the page directory of the task maps page by page;
  every access to a header is translated by that directory.
\<close>

section \<open>Virtual memory\<close>

text \<open>
  What the heap uses of \<^verbatim>\<open>*current\<close> and of the memory manager. \<open>view s v\<close> is the byte the kernel sees at the
  virtual address \<open>v\<close> while the directory of the task is loaded; an access to a page that is not present is
  a fault.
\<close>

record hp =
  hmm :: mm
  hdir :: u32
  heap_start :: u32
  heap_top :: u32

definition view :: "hp \<Rightarrow> mem" where
  "view s = (\<lambda>v. mem (hmm s) (uaddr (mem (hmm s)) (hdir s) v))"

definition vmapped :: "hp \<Rightarrow> u32 \<Rightarrow> bool" where
  "vmapped s a \<longleftrightarrow> (\<forall>k \<in> {0, 1, 2, 3}. present (entry (mem (hmm s)) (hdir s) (a + k)))"

definition vld32 :: "u32 \<Rightarrow> hp \<Rightarrow> u32 res" where
  "vld32 a s = (if vmapped s a then Inr (ld32 (view s) a) else Inl (Fault ''page not present''))"

definition vst32 :: "u32 \<Rightarrow> u32 \<Rightarrow> hp \<Rightarrow> hp res" where
  "vst32 a w s =
     (let m = mem (hmm s); u = (\<lambda>k. uaddr m (hdir s) (a + k))
      in if vmapped s a
         then Inr (s\<lparr>hmm := (hmm s)\<lparr>mem := m(u 0 := ucast w, u 1 := ucast (drop_bit 8 w),
                              u 2 := ucast (drop_bit 16 w), u 3 := ucast (drop_bit 24 w))\<rparr>\<rparr>)
         else Inl (Fault ''page not present''))"

section \<open>Headers\<close>

text \<open>
  \<^verbatim>\<open>struct heap_head\<close>: two pointers and a word with the bit \<^verbatim>\<open>free\<close> and the 31 bits of \<^verbatim>\<open>len\<close>. Assigning one of
  the two leaves the other as it is.
\<close>

abbreviation HEAD :: u32 where "HEAD \<equiv> 12"

definition get_prev :: "u32 \<Rightarrow> hp \<Rightarrow> u32 res" where "get_prev c s = vld32 c s"
definition get_next :: "u32 \<Rightarrow> hp \<Rightarrow> u32 res" where "get_next c s = vld32 (c + 4) s"
definition get_free :: "u32 \<Rightarrow> hp \<Rightarrow> bool res" where
  "get_free c s = bnd (vld32 (c + 8) s) (\<lambda>w. Inr (w AND 1 = 1))"
definition get_len :: "u32 \<Rightarrow> hp \<Rightarrow> u32 res" where
  "get_len c s = bnd (vld32 (c + 8) s) (\<lambda>w. Inr (drop_bit 1 w))"

definition set_prev :: "u32 \<Rightarrow> u32 \<Rightarrow> hp \<Rightarrow> hp res" where "set_prev c v s = vst32 c v s"
definition set_next :: "u32 \<Rightarrow> u32 \<Rightarrow> hp \<Rightarrow> hp res" where "set_next c v s = vst32 (c + 4) v s"
definition set_free :: "u32 \<Rightarrow> bool \<Rightarrow> hp \<Rightarrow> hp res" where
  "set_free c b s = bnd (vld32 (c + 8) s) (\<lambda>w. vst32 (c + 8) (w AND NOT 1 OR of_bool b) s)"
definition set_len :: "u32 \<Rightarrow> u32 \<Rightarrow> hp \<Rightarrow> hp res" where
  "set_len c n s = bnd (vld32 (c + 8) s) (\<lambda>w. vst32 (c + 8) (w AND 1 OR push_bit 1 n) s)"

section \<open>The operations\<close>

definition split_chunk :: "u32 \<Rightarrow> u32 \<Rightarrow> hp \<Rightarrow> hp res" where
  "split_chunk chunk len s =
     bnd (get_len chunk s) (\<lambda>l.
       let len_left = l - len; new = chunk + len
       in if len_left \<le> HEAD then Inr s
          else bnd (set_free new True s) (\<lambda>s.
               bnd (set_len new len_left s) (\<lambda>s.
               bnd (set_len chunk len s) (\<lambda>s.
               bnd (set_prev new chunk s) (\<lambda>s.
               bnd (get_next chunk s) (\<lambda>nx.
               bnd (set_next new nx s) (\<lambda>s.
               bnd (get_next chunk s) (\<lambda>nx.
               bnd (set_prev nx new s) (\<lambda>s.
               set_next chunk new s)))))))))"

text \<open>\<^verbatim>\<open>page = V2P(PTE_ADDR(kalloc_page()))\<close>: neither a missing page nor a failure of \<^verbatim>\<open>mappages\<close> is noticed.\<close>

definition grow :: "hp \<Rightarrow> hp res" where
  "grow s =
     (case kalloc_page (hmm s) of (p, mm1) \<Rightarrow>
        bnd (mappages (hdir s) (heap_top s) (V2P (PTE_ADDR p)) PGSIZE (PTE_P OR PTE_W) mm1) (\<lambda>(r, mm2).
          Inr (s\<lparr>hmm := mm2, heap_top := heap_top s + PGSIZE\<rparr>)))"

partial_function (option) alloc_loop :: "u32 \<Rightarrow> u32 \<Rightarrow> hp \<Rightarrow> hp res option" where
  "alloc_loop start len s =
     (if heap_top s < start + len
      then (case grow s of Inl e \<Rightarrow> Some (Inl e) | Inr s1 \<Rightarrow> alloc_loop start len s1)
      else Some (Inr s))"

definition alloc_chunk :: "u32 \<Rightarrow> u32 \<Rightarrow> hp \<Rightarrow> hp res" where
  "alloc_chunk start len s = ended ''alloc_chunk'' (alloc_loop start len s)"

definition shrink :: "hp \<Rightarrow> hp res" where
  "shrink s =
     (let top = heap_top s - PGSIZE
      in case pgdir_walk (hdir s) top False (hmm s) of (p, mm1) \<Rightarrow>
           if p = 0 then Inl (Panic ''assertion failed: page'')
           else bnd (unmap_page (hdir s) top mm1) (\<lambda>mm2. Inr (s\<lparr>hmm := mm2, heap_top := top\<rparr>)))"

partial_function (option) free_loop :: "u32 \<Rightarrow> hp \<Rightarrow> hp res option" where
  "free_loop chunk s =
     (if chunk \<le> heap_top s - PGSIZE
      then (case shrink s of Inl e \<Rightarrow> Some (Inl e) | Inr s1 \<Rightarrow> free_loop chunk s1)
      else Some (Inr s))"

definition free_chunk :: "u32 \<Rightarrow> hp \<Rightarrow> hp res" where
  "free_chunk chunk s =
     bnd (get_prev chunk s) (\<lambda>p.
     bnd (if p = 0 then Inr (s\<lparr>heap_start := 0\<rparr>) else set_next p 0 s) (\<lambda>s.
     ended ''free_chunk'' (free_loop chunk s)))"

definition glue_right :: "u32 \<Rightarrow> hp \<Rightarrow> hp res" where
  "glue_right chunk s =
     bnd (get_next chunk s) (\<lambda>nx.
     bnd (if nx = 0 then Inr False else get_free nx s) (\<lambda>f.
       if \<not> f then Inr s
       else bnd (get_len chunk s) (\<lambda>l.
            bnd (get_len nx s) (\<lambda>l2.
            bnd (set_len chunk (l + l2) s) (\<lambda>s.
            bnd (get_next nx s) (\<lambda>nn.
            bnd (set_prev nn chunk s) (\<lambda>s.
            set_next chunk nn s)))))))"

definition glue_left :: "u32 \<Rightarrow> hp \<Rightarrow> (u32 \<times> hp) res" where
  "glue_left chunk s =
     bnd (get_prev chunk s) (\<lambda>p.
     bnd (if p = 0 then Inr False else get_free p s) (\<lambda>f.
       if \<not> f then Inr (chunk, s)
       else bnd (get_len p s) (\<lambda>l.
            bnd (get_len chunk s) (\<lambda>l2.
            bnd (set_len p (l + l2) s) (\<lambda>s.
            bnd (get_next chunk s) (\<lambda>nx.
            bnd (set_next p nx s) (\<lambda>s.
            bnd (if nx = 0 then Inr s else set_prev nx p s) (\<lambda>s.
            Inr (p, s)))))))))"

definition glue_chunk :: "u32 \<Rightarrow> hp \<Rightarrow> hp res" where
  "glue_chunk chunk s =
     bnd (glue_right chunk s) (\<lambda>s.
     bnd (glue_left chunk s) (\<lambda>(chunk, s).
     bnd (get_next chunk s) (\<lambda>nx. if nx = 0 then free_chunk chunk s else Inr s)))"

text \<open>The search of \<^verbatim>\<open>kmalloc\<close>: a free chunk that is large enough, or the last chunk.\<close>

datatype found = Fit u32 | Last u32

partial_function (option) search_loop :: "u32 \<Rightarrow> u32 \<Rightarrow> u32 \<Rightarrow> hp \<Rightarrow> found res option" where
  "search_loop n prevp curp s =
     (if curp = 0 then Some (Inr (Last prevp))
      else case get_free curp s of
             Inl e \<Rightarrow> Some (Inl e)
           | Inr f \<Rightarrow>
               (case get_len curp s of
                  Inl e \<Rightarrow> Some (Inl e)
                | Inr l \<Rightarrow>
                    if f \<and> n \<le> l then Some (Inr (Fit curp))
                    else (case get_next curp s of
                            Inl e \<Rightarrow> Some (Inl e)
                          | Inr nx \<Rightarrow> search_loop n curp nx s)))"

text \<open>The header of a new chunk behind the last one.\<close>

definition fill_chunk :: "u32 \<Rightarrow> u32 \<Rightarrow> u32 \<Rightarrow> hp \<Rightarrow> hp res" where
  "fill_chunk curp prevp n s =
     bnd (set_prev curp prevp s) (\<lambda>s.
     bnd (set_next curp 0 s) (\<lambda>s.
     bnd (set_free curp False s) (\<lambda>s.
     bnd (set_len curp n s) (\<lambda>s.
     if prevp \<noteq> 0 then set_next prevp curp s else Inr s))))"

definition kmalloc :: "u32 \<Rightarrow> hp \<Rightarrow> (u32 \<times> hp) res" where
  "kmalloc n0 s =
     (let n = n0 + HEAD
      in bnd (ended ''kmalloc'' (search_loop n 0 (heap_start s) s)) (\<lambda>r.
         case r of
           Fit curp \<Rightarrow>
             bnd (split_chunk curp n s) (\<lambda>s.
             bnd (set_free curp False s) (\<lambda>s. Inr (curp + HEAD, s)))
         | Last prevp \<Rightarrow>
             bnd (if prevp \<noteq> 0 then bnd (get_len prevp s) (\<lambda>l. Inr (prevp + l, s))
                  else Inr (HEAP_START, s\<lparr>heap_start := HEAP_START\<rparr>)) (\<lambda>(chunk_start, s).
             bnd (alloc_chunk chunk_start n s) (\<lambda>s.
             bnd (fill_chunk chunk_start prevp n s) (\<lambda>s.
             Inr (chunk_start + HEAD, s))))))"

definition kfree :: "u32 \<Rightarrow> hp \<Rightarrow> hp res" where
  "kfree p s = bnd (set_free (p - HEAD) True s) (\<lambda>s. glue_chunk (p - HEAD) s)"

text \<open>The heap of the current task.\<close>

definition on_heap :: "(hp \<Rightarrow> ('a \<times> hp) res) \<Rightarrow> kst \<Rightarrow> ('a \<times> kst) res" where
  "on_heap f s =
     (case current s of
        None \<Rightarrow> Inl (Fault ''current is NULL'')
      | Some c \<Rightarrow>
          let t = tget s c
          in bnd (f \<lparr>hmm = km s, hdir = t_pgdir t, heap_start = t_heap_start t, heap_top = t_heap_top t\<rparr>) (\<lambda>(x, h).
             Inr (x, s\<lparr>km := hmm h,
                       tasks := (tasks s)[c := t\<lparr>t_heap_start := heap_start h, t_heap_top := heap_top h\<rparr>]\<rparr>)))"

definition task_kmalloc :: "u32 \<Rightarrow> kst \<Rightarrow> (u32 \<times> kst) res" where
  "task_kmalloc n = on_heap (kmalloc n)"

definition task_kfree :: "u32 \<Rightarrow> kst \<Rightarrow> (unit \<times> kst) res" where
  "task_kfree p = on_heap (\<lambda>h. bnd (kfree p h) (\<lambda>h1. Inr ((), h1)))"

section \<open>The mapped region\<close>

text \<open>
  \<open>region s ps\<close>: the pages from \<^verbatim>\<open>HEAP_START\<close> up to the top are mapped, each to a frame of its own that holds
  neither a page table nor a free page; the pages above are not mapped. \<open>ps\<close> are the free pages.
\<close>

abbreviation HS :: nat where "HS \<equiv> 3489660928"

definition inh :: "hp \<Rightarrow> u32 \<Rightarrow> bool" where
  "inh s v \<longleftrightarrow> HS \<le> unat v \<and> unat v < unat (heap_top s)"

definition hframe :: "hp \<Rightarrow> u32 \<Rightarrow> u32" where
  "hframe s v = frame_of (mem (hmm s)) (hdir s) v"

definition region :: "hp \<Rightarrow> u32 list \<Rightarrow> bool" where
  "region s ps \<longleftrightarrow> pt_ok (hdir s) (hmm s) ps \<and> aligned (heap_top s) \<and> HS \<le> unat (heap_top s) \<and>
     (\<forall>v. inh s v \<longrightarrow> present (entry (mem (hmm s)) (hdir s) v) \<and> page_ok (hmm s) (hframe s v) \<and> hframe s v \<notin> set ps \<and>
        hframe s v \<notin> pt_pages (mem (hmm s)) (hdir s)) \<and>
     (\<forall>v w. inh s v \<and> inh s w \<and> hframe s v = hframe s w \<longrightarrow> PTE_ADDR v = PTE_ADDR w) \<and>
     (\<forall>v. unat (heap_top s) \<le> unat v \<and> unat v < 4294963200 \<longrightarrow> \<not> present (entry (mem (hmm s)) (hdir s) v))"

lemma regionD:
  assumes "region s ps"
  shows "pt_ok (hdir s) (hmm s) ps" and "aligned (heap_top s)" and "HS \<le> unat (heap_top s)"
    and "inh s v \<Longrightarrow> present (entry (mem (hmm s)) (hdir s) v)" and "inh s v \<Longrightarrow> page_ok (hmm s) (hframe s v)"
    and "inh s v \<Longrightarrow> hframe s v \<notin> set ps" and "inh s v \<Longrightarrow> hframe s v \<notin> pt_pages (mem (hmm s)) (hdir s)"
    and "inh s v \<Longrightarrow> inh s w \<Longrightarrow> hframe s v = hframe s w \<Longrightarrow> PTE_ADDR v = PTE_ADDR w"
    and "unat (heap_top s) \<le> unat v \<Longrightarrow> unat v < 4294963200 \<Longrightarrow> \<not> present (entry (mem (hmm s)) (hdir s) v)"
  using assms unfolding region_def by blast+

lemma uaddr_inj:
  assumes r: "region s ps" and v: "inh s v" and w: "inh s w"
    and eq: "uaddr (mem (hmm s)) (hdir s) v = uaddr (mem (hmm s)) (hdir s) w"
  shows "v = w"
proof -
  let ?m = "mem (hmm s)" and ?d = "hdir s"
  have "frame_of ?m ?d v = frame_of ?m ?d w"
  proof (rule ccontr)
    assume "frame_of ?m ?d v \<noteq> frame_of ?m ?d w"
    then have "rng (frame_of ?m ?d v) 4096 \<inter> rng (frame_of ?m ?d w) 4096 = {}" by (intro page_disjoint) simp_all
    then show False using uaddr_in_frame [of ?m ?d v] uaddr_in_frame [of ?m ?d w] eq by (metis disjoint_iff)
  qed
  then have p: "PTE_ADDR v = PTE_ADDR w" using regionD(8) [OF r v w] by (simp add: hframe_def)
  then have "frame_of ?m ?d v = frame_of ?m ?d w" by (simp add: frame_of_def entry_page [OF p])
  then show ?thesis using eq p by (simp add: uaddr_def)
qed

lemma byte_write:
  assumes r: "region s ps" and v: "inh s v"
    and s': "s' = s\<lparr>hmm := (hmm s)\<lparr>mem := (mem (hmm s))(uaddr (mem (hmm s)) (hdir s) v := b)\<rparr>\<rparr>"
  shows "region s' ps" and "inh s w \<Longrightarrow> view s' w = (if w = v then b else view s w)"
    and "uaddr (mem (hmm s')) (hdir s') = uaddr (mem (hmm s)) (hdir s)" and "inh s' = inh s"
    and "entry (mem (hmm s')) (hdir s') = entry (mem (hmm s)) (hdir s)"
proof -
  let ?m = "mem (hmm s)" and ?d = "hdir s" and ?u = "uaddr (mem (hmm s)) (hdir s) v"
  let ?m' = "?m(?u := b)"
  have "\<forall>x. x \<notin> rng (hframe s v) 4096 \<longrightarrow> ?m' x = ?m x"
    using uaddr_in_frame [of ?m ?d v] by (auto simp: hframe_def)
  moreover have al: "aligned (hframe s v)" by (simp add: hframe_def)
  ultimately have u: "pt_ok ?d ((hmm s)\<lparr>mem := ?m'\<rparr>) ps \<and> entry ?m' ?d = entry ?m ?d \<and> pt_pages ?m' ?d = pt_pages ?m ?d"
    using user_write_ok [OF regionD(1) [OF r] al regionD(6,7) [OF r v], of ?m'] by blast
  have ok: "pt_ok ?d ((hmm s)\<lparr>mem := ?m'\<rparr>) ps" "entry ?m' ?d = entry ?m ?d" "pt_pages ?m' ?d = pt_pages ?m ?d"
    using u by blast+
  have fr: "frame_of ?m' ?d = frame_of ?m ?d" by (simp add: fun_eq_iff frame_of_def ok(2))
  then show ua: "uaddr (mem (hmm s')) (hdir s') = uaddr ?m ?d" by (simp add: s' fun_eq_iff uaddr_def)
  have hf: "hframe s' = hframe s" by (simp add: s' fun_eq_iff hframe_def fr)
  show ih: "inh s' = inh s" by (simp add: s' fun_eq_iff inh_def)
  show "entry (mem (hmm s')) (hdir s') = entry ?m ?d" by (simp add: s' ok(2))
  have "page_ok (hmm s') = page_ok (hmm s)" by (simp add: s' fun_eq_iff page_ok_def)
  then show "region s' ps"
    using r ok unfolding region_def ih hf by (simp add: s')
  show "view s' w = (if w = v then b else view s w)" if "inh s w"
  proof -
    have "view s' w = ?m' (uaddr ?m ?d w)" using ua by (simp add: view_def s')
    then show ?thesis using uaddr_inj [OF r that v] by (auto simp: view_def)
  qed
qed

text \<open>Four bytes of the region, and reading and writing them.\<close>

definition word_in :: "hp \<Rightarrow> u32 \<Rightarrow> bool" where
  "word_in s a \<longleftrightarrow> HS \<le> unat a \<and> unat a + 4 \<le> unat (heap_top s)"

lemma word_in_inh: "word_in s a \<Longrightarrow> k \<in> {0, 1, 2, 3} \<Longrightarrow> inh s (a + k)"
proof -
  assume a: "word_in s a" and k: "k \<in> {0, 1, 2, 3}"
  have "unat k \<le> 3" using k by auto
  moreover have "unat (a + k) = unat a + unat k"
    using a \<open>unat k \<le> 3\<close> u32_less [of "heap_top s"] by (simp add: word_in_def unat_word_ariths)
  ultimately show ?thesis using a by (simp add: word_in_def inh_def)
qed

lemma vmapped_word: "region s ps \<Longrightarrow> word_in s a \<Longrightarrow> vmapped s a"
  using regionD(4) word_in_inh unfolding vmapped_def by blast

lemma vld32_spec: "region s ps \<Longrightarrow> word_in s a \<Longrightarrow> vld32 a s = Inr (ld32 (view s) a)"
  by (simp add: vld32_def vmapped_word)

text \<open>\<open>hstep ps s m s'\<close>: from \<open>s\<close> to \<open>s'\<close> only the contents of the region have changed, to those of \<open>m\<close>.\<close>

definition hstep :: "u32 list \<Rightarrow> hp \<Rightarrow> mem \<Rightarrow> hp \<Rightarrow> bool" where
  "hstep ps s m s' \<longleftrightarrow> region s' ps \<and> heap_top s' = heap_top s \<and> heap_start s' = heap_start s \<and>
     (\<forall>v. inh s v \<longrightarrow> view s' v = m v)"

lemma vst32_spec:
  assumes r: "region s ps" and a: "word_in s a"
  shows "\<exists>s'. vst32 a w s = Inr s' \<and> hstep ps s (st32 (view s) a w) s'"
proof -
  let ?u = "\<lambda>k. uaddr (mem (hmm s)) (hdir s) (a + k)"
  define put where "put = (\<lambda>k (b :: u8) t. t\<lparr>hmm := (hmm t)\<lparr>mem := (mem (hmm t))(?u k := b)\<rparr>\<rparr> :: hp)"
  let ?s1 = "put 0 (ucast w) s"
  let ?s2 = "put 1 (ucast (drop_bit 8 w)) ?s1"
  let ?s3 = "put 2 (ucast (drop_bit 16 w)) ?s2"
  let ?s4 = "put 3 (ucast (drop_bit 24 w)) ?s3"
  have i: "inh s (a + 0)" "inh s (a + 1)" "inh s (a + 2)" "inh s (a + 3)" using word_in_inh [OF a] by blast+
  note b1 = byte_write [OF r i(1), of ?s1 "ucast w"]
  have b1: "region ?s1 ps" "\<forall>v. inh s v \<longrightarrow> view ?s1 v = (if v = a + 0 then ucast w else view s v)"
    "uaddr (mem (hmm ?s1)) (hdir ?s1) = uaddr (mem (hmm s)) (hdir s)" "inh ?s1 = inh s"
    using b1 by (simp_all add: put_def)
  have b2: "region ?s2 ps" "\<forall>v. inh s v \<longrightarrow> view ?s2 v = (if v = a + 1 then ucast (drop_bit 8 w) else view ?s1 v)"
    "uaddr (mem (hmm ?s2)) (hdir ?s2) = uaddr (mem (hmm s)) (hdir s)" "inh ?s2 = inh s"
    using byte_write [OF b1(1), of "a + 1" ?s2 "ucast (drop_bit 8 w)"] i(2) b1(3,4) by (simp_all add: put_def)
  have b3: "region ?s3 ps" "\<forall>v. inh s v \<longrightarrow> view ?s3 v = (if v = a + 2 then ucast (drop_bit 16 w) else view ?s2 v)"
    "uaddr (mem (hmm ?s3)) (hdir ?s3) = uaddr (mem (hmm s)) (hdir s)" "inh ?s3 = inh s"
    using byte_write [OF b2(1), of "a + 2" ?s3 "ucast (drop_bit 16 w)"] i(3) b2(3,4) by (simp_all add: put_def)
  have b4: "region ?s4 ps" "\<forall>v. inh s v \<longrightarrow> view ?s4 v = (if v = a + 3 then ucast (drop_bit 24 w) else view ?s3 v)"
    using byte_write [OF b3(1), of "a + 3" ?s4 "ucast (drop_bit 24 w)"] i(4) b3(3,4) by (simp_all add: put_def)
  have "vst32 a w s = Inr ?s4"
    using vmapped_word [OF r a] by (simp add: vst32_def Let_def put_def)
  moreover have "hstep ps s (st32 (view s) a w) ?s4"
    using b1(2) b2(2) b3(2) b4 by (simp add: hstep_def st32_def) (simp add: put_def)
  ultimately show ?thesis by blast
qed

section \<open>Growing and shrinking\<close>

lemma outside_pt:
  assumes "aligned f" and "f \<notin> P" and "\<forall>p \<in> P. aligned p" and "x \<in> rng f 4096"
  shows "\<forall>p \<in> P. x \<notin> rng p 4096"
proof
  fix p
  assume p: "p \<in> P"
  then have "rng f 4096 \<inter> rng p 4096 = {}" using assms by (intro page_disjoint) auto
  then show "x \<notin> rng p 4096" using assms(4) by (metis disjoint_iff)
qed

lemma map_top:
  assumes ok: "pt_ok dir s ps" and al: "aligned va" "aligned p" and un: "\<forall>v. PTE_ADDR v = va \<longrightarrow> \<not> present (entry (mem s) dir v)"
    and ps: "ps \<noteq> []" and va: "unat va < 4294959104"
  shows "\<exists>s' us qs. mappages dir va (V2P p) PGSIZE (PTE_P OR PTE_W) s = Inr (0, s') \<and> ps = us @ qs \<and> length us \<le> 1 \<and>
    pt_ok dir s' qs \<and> pt_step dir us s s' \<and>
    (\<forall>v. PTE_ADDR v \<noteq> va \<longrightarrow> entry (mem s') dir v = entry (mem s) dir v) \<and>
    (\<forall>v. PTE_ADDR v = va \<longrightarrow> present (entry (mem s') dir v) \<and> frame_of (mem s') dir v = p)"
proof -
  note one = span_page [OF al(1)]
  have rd: "PGROUNDDOWN va = va" using al(1) by (simp add: PGROUNDDOWN_eq)
  have same: "unat va \<le> unat v \<and> unat v < unat va + 4096 \<longleftrightarrow> PTE_ADDR v = va" for v
    by (rule PTE_ADDR_range [OF al(1), symmetric])
  have un': "unmapped dir (mem s) (span va PGSIZE) (PGROUNDDOWN va)"
    unfolding unmapped_def one rd using same un by simp
  have sz: "0 < unat PGSIZE" "unat va + unat PGSIZE \<le> 4294963200" using va by simp_all
  obtain r s' us qs j where m: "mappages dir va (V2P p) PGSIZE (PTE_P OR PTE_W) s = Inr (r, s')" "ps = us @ qs"
    "length us \<le> j" "pt_ok dir s' qs" "pt_step dir us s s'" "mapped dir (mem s) (mem s') j va (V2P p) (PTE_P OR PTE_W)"
    "r = 0 \<and> j = 1 \<or> r = - 1 \<and> j < 1 \<and> qs = []"
    using mappages_spec [OF ok un' sz, of "V2P p" "PTE_P OR PTE_W"] unfolding one rd by blast
  with ps have r: "r = 0" "j = 1" by auto
  have e: "entry (mem s') dir v = (if PTE_ADDR v = va then V2P p OR (PTE_P OR PTE_W) OR PTE_P else entry (mem s) dir v)" for v
    using m(6) al unfolding mapped_def r(2) by (simp add: same)
  have "PTE_FLAGS (PTE_P OR PTE_W) = (PTE_P OR PTE_W)" by (simp add: PTE_FLAGS_def)
  then have "frame_of (mem s') dir v = p" if "PTE_ADDR v = va" for v
    using that al by (simp add: frame_of_def e PTE_ADDR_or_flags(1) flags_present)
  moreover have "present (entry (mem s') dir v)" if "PTE_ADDR v = va" for v
    using that present_simps(3) [of "V2P p" "PTE_P OR PTE_W"] by (simp only: e if_P)
  ultimately show ?thesis using m r e by (intro exI [of _ s'] exI [of _ us] exI [of _ qs]) simp
qed

lemma grow_spec:
  assumes r: "region s (p # ps)" and ps: "ps \<noteq> []" and top: "unat (heap_top s) < 4294959104"
  shows "\<exists>s' qs. grow s = Inr s' \<and> region s' qs \<and> heap_top s' = heap_top s + 4096 \<and> heap_start s' = heap_start s \<and>
    (\<forall>v. inh s v \<longrightarrow> view s' v = view s v) \<and> length ps \<le> length qs + 1"
proof -
  let ?d = "hdir s" and ?m = "hmm s" and ?t = "heap_top s"
  define mm1 where "mm1 = ?m\<lparr>free_list := ld32 (mem ?m) p\<rparr>"
  note ok = regionD(1) [OF r]
  have k: "kalloc_page ?m = (p, mm1)" "free_inv mm1 ps" using kalloc_page_Cons [OF pt_okD(1) [OF ok]] by (simp_all add: mm1_def)
  have p: "aligned p" "page_ok ?m p" "p \<notin> set ps"
    using free_invD [OF pt_okD(1) [OF ok]] by auto
  have ok1: "pt_ok ?d mm1 ps" using ok k(2) unfolding pt_ok_def dir_wf_def by (auto simp: mm1_def)
  have al: "aligned ?t" by (rule regionD(2) [OF r])
  have same: "PTE_ADDR v = ?t \<longleftrightarrow> unat ?t \<le> unat v \<and> unat v < unat ?t + 4096" for v by (rule PTE_ADDR_range [OF al])
  have "\<forall>v. PTE_ADDR v = ?t \<longrightarrow> \<not> present (entry (mem mm1) ?d v)"
    using regionD(9) [OF r] top by (auto simp: same mm1_def)
  from map_top [OF ok1 al p(1) this ps top] obtain mm2 us qs where
    m: "mappages ?d ?t (V2P p) PGSIZE (PTE_P OR PTE_W) mm1 = Inr (0, mm2)" "ps = us @ qs" "length us \<le> 1" "pt_ok ?d mm2 qs"
      "pt_step ?d us mm1 mm2"
      "\<forall>v. PTE_ADDR v \<noteq> ?t \<longrightarrow> entry (mem mm2) ?d v = entry (mem mm1) ?d v"
      "\<forall>v. PTE_ADDR v = ?t \<longrightarrow> present (entry (mem mm2) ?d v) \<and> frame_of (mem mm2) ?d v = p" by blast
  define s' where "s' = s\<lparr>hmm := mm2, heap_top := ?t + 4096\<rparr>"
  have g: "grow s = Inr s'" using m(1) p(1) by (simp add: grow_def k(1) s'_def)
  have t': "unat (?t + 4096) = unat ?t + 4096" using top by (simp add: unat_word_ariths)
  have ih: "inh s' v \<longleftrightarrow> inh s v \<or> PTE_ADDR v = ?t" for v
    using regionD(3) [OF r] t' by (auto simp: inh_def s'_def same)
  have nt: "PTE_ADDR v \<noteq> ?t" if "inh s v" for v using that by (auto simp: inh_def same)
  have fr: "hframe s' v = (if PTE_ADDR v = ?t then p else hframe s v)" for v
    using m(6) [rule_format, of v] m(7) [rule_format, of v]
    by (cases "PTE_ADDR v = ?t") (simp_all add: hframe_def s'_def frame_of_def mm1_def)
  have pg: "pt_pages (mem mm2) ?d = pt_pages (mem ?m) ?d \<union> set us" "page_ok mm2 = page_ok ?m"
    using m(5) by (simp_all add: pt_step_def mm1_def fun_eq_iff page_ok_def)
  have pnew: "p \<notin> pt_pages (mem ?m) ?d \<union> set us"
    using pt_ok_pages(2) [OF ok] p(3) m(2) by auto
  have old: "hframe s v \<notin> set qs" "hframe s v \<notin> pt_pages (mem mm2) ?d" "hframe s v \<noteq> p" if "inh s v" for v
    using regionD(6,7) [OF r that] m(2) by (auto simp: pg)
  have "region s' qs"
    unfolding region_def
  proof (intro conjI allI impI)
    show "pt_ok (hdir s') (hmm s') qs" "aligned (heap_top s')" "HS \<le> unat (heap_top s')"
      using m(4) al t' regionD(3) [OF r] by (simp_all add: s'_def)
  next
    fix v
    assume v: "inh s' v"
    show "present (entry (mem (hmm s')) (hdir s') v)"
      using v m(6,7) regionD(4) [OF r, of v] by (cases "PTE_ADDR v = ?t") (simp_all add: ih, simp_all add: s'_def mm1_def)
    show "page_ok (hmm s') (hframe s' v)"
      using v regionD(5) [OF r, of v] p(2) by (cases "PTE_ADDR v = ?t") (simp_all add: ih fr, simp_all add: s'_def pg(2))
    show "hframe s' v \<notin> set qs" using v old p(3) m(2) nt by (auto simp: ih fr)
    show "hframe s' v \<notin> pt_pages (mem (hmm s')) (hdir s')"
      using v old(2) [of v] pnew by (cases "PTE_ADDR v = ?t") (simp_all add: ih fr, simp_all add: s'_def pg(1))
  next
    fix v w
    assume vw: "inh s' v \<and> inh s' w \<and> hframe s' v = hframe s' w"
    then show "PTE_ADDR v = PTE_ADDR w"
      using regionD(8) [OF r] old(3) by (auto simp: ih fr split: if_splits)
  next
    fix v :: u32
    assume "unat (heap_top s') \<le> unat v \<and> unat v < 4294963200"
    then show "\<not> present (entry (mem (hmm s')) (hdir s') v)"
      using m(6) regionD(9) [OF r, of v] t' by (auto simp: s'_def mm1_def same)
  qed
  moreover have "view s' v = view s v" if v: "inh s v" for v
  proof -
    have u: "uaddr (mem mm2) ?d v = uaddr (mem ?m) ?d v"
      using fr [of v] nt [OF v] by (simp add: uaddr_def hframe_def s'_def)
    have "\<forall>q \<in> pt_pages (mem mm2) ?d. uaddr (mem ?m) ?d v \<notin> rng q 4096"
      using old(2) [OF v] pt_ok_pages(1) [OF m(4)] uaddr_in_frame [of "mem ?m" ?d v]
      by (intro outside_pt [of "hframe s v"]) (auto simp: hframe_def)
    then have "mem mm2 (uaddr (mem ?m) ?d v) = mem ?m (uaddr (mem ?m) ?d v)"
      using m(5) by (simp add: pt_step_def mm1_def)
    then show ?thesis by (simp add: view_def s'_def u)
  qed
  moreover have "length ps \<le> length qs + 1" using m(2,3) by simp
  ultimately show ?thesis using g by (intro exI [of _ s'] exI [of _ qs]) (simp add: s'_def)
qed


lemma shrink_spec:
  assumes r: "region s ps" and top: "HS + 4096 \<le> unat (heap_top s)"
  shows "\<exists>s' f. shrink s = Inr s' \<and> region s' (f # ps) \<and> heap_top s' = heap_top s - 4096 \<and> heap_start s' = heap_start s \<and>
    (\<forall>v. inh s' v \<longrightarrow> view s' v = view s v)"
proof -
  let ?d = "hdir s" and ?m = "hmm s"
  define t where "t = heap_top s - 4096"
  have ut: "unat t = unat (heap_top s) - 4096" using top by (simp add: t_def unat_sub_if')
  have al: "aligned t" using regionD(2) [OF r] aligned_step [of t] by (simp add: t_def)
  have it: "inh s t" using top by (simp add: inh_def ut)
  have same: "PTE_ADDR v = t \<longleftrightarrow> unat t \<le> unat v \<and> unat v < unat t + 4096" for v by (rule PTE_ADDR_range [OF al])
  have ih: "inh s v \<longleftrightarrow> PTE_ADDR v = t \<or> HS \<le> unat v \<and> unat v < unat t" for v
    using top by (auto simp: inh_def same ut)
  note ok = regionD(1) [OF r]
  define f where "f = frame_of (mem ?m) ?d t"
  note pr = regionD(4) [OF r it]
  have pd: "present (pde_at (mem ?m) ?d (PDX t))"
    using pr by (cases "present (pde_at (mem ?m) ?d (PDX t))") (simp_all add: entry_def)
  have w: "pgdir_walk ?d t False ?m = (slot (mem ?m) ?d t, ?m)" "slot (mem ?m) ?d t \<noteq> 0"
    using walk_present [OF pd, of False] slot_nonnull [OF ok pd] by simp_all
  have ff: "page_ok ?m f" "f \<notin> set ps" "f \<notin> pt_pages (mem ?m) ?d"
    using regionD(5,6,7) [OF r it] by (simp_all add: f_def hframe_def)
  obtain mm2 where u: "unmap_page ?d t ?m = Inr mm2" "pt_ok ?d mm2 (f # ps)"
    "\<forall>v. entry (mem mm2) ?d v = (if PTE_ADDR v = PTE_ADDR t then 0 else entry (mem ?m) ?d v)"
    "pt_pages (mem mm2) ?d = pt_pages (mem ?m) ?d" "memsz mm2 = memsz ?m" "mem_start mm2 = mem_start ?m"
    "\<forall>x. x \<notin> rng f 4096 \<and> (\<forall>p \<in> pt_pages (mem ?m) ?d. x \<notin> rng p 4096) \<longrightarrow> mem mm2 x = mem ?m x"
    using unmap_page_spec [OF ok pr f_def ff] by blast
  have e: "entry (mem mm2) ?d v = (if PTE_ADDR v = t then 0 else entry (mem ?m) ?d v)" for v
    using u(3) al by simp
  define s' where "s' = s\<lparr>hmm := mm2, heap_top := t\<rparr>"
  have sh: "shrink s = Inr s'" using w u(1) by (simp add: shrink_def Let_def s'_def t_def [symmetric])
  have ih': "inh s' v \<longleftrightarrow> inh s v \<and> PTE_ADDR v \<noteq> t" for v unfolding ih by (auto simp: inh_def s'_def same)
  have fr: "hframe s' v = hframe s v" if "inh s' v" for v
    using that unfolding ih' by (simp add: hframe_def s'_def frame_of_def e)
  have pk: "page_ok mm2 = page_ok ?m" using u(5,6) by (simp add: fun_eq_iff page_ok_def)
  have nf: "hframe s v \<noteq> f" if "inh s' v" for v
    using that regionD(8) [OF r _ it, of v] al unfolding ih' by (auto simp: f_def hframe_def)
  have "region s' (f # ps)"
    unfolding region_def
  proof (intro conjI allI impI)
    show "pt_ok (hdir s') (hmm s') (f # ps)" "aligned (heap_top s')" "HS \<le> unat (heap_top s')"
      using u(2) al ut top by (simp_all add: s'_def)
  next
    fix v
    assume v: "inh s' v"
    then have vs: "inh s v" "PTE_ADDR v \<noteq> t" by (simp_all add: ih')
    show "present (entry (mem (hmm s')) (hdir s') v)" using regionD(4) [OF r vs(1)] vs(2) by (simp add: s'_def e)
    show "page_ok (hmm s') (hframe s' v)" using regionD(5) [OF r vs(1)] by (simp add: fr [OF v]) (simp add: s'_def pk)
    show "hframe s' v \<notin> set (f # ps)" using regionD(6) [OF r vs(1)] nf [OF v] by (simp add: fr [OF v])
    show "hframe s' v \<notin> pt_pages (mem (hmm s')) (hdir s')"
      using regionD(7) [OF r vs(1)] by (simp add: fr [OF v]) (simp add: s'_def u(4))
  next
    fix v x
    assume vx: "inh s' v \<and> inh s' x \<and> hframe s' v = hframe s' x"
    then show "PTE_ADDR v = PTE_ADDR x" using regionD(8) [OF r, of v x] fr [of v] fr [of x] by (simp add: ih')
  next
    fix v :: u32
    assume v: "unat (heap_top s') \<le> unat v \<and> unat v < 4294963200"
    then show "\<not> present (entry (mem (hmm s')) (hdir s') v)"
      using regionD(9) [OF r, of v] by (cases "PTE_ADDR v = t") (auto simp: s'_def e same ut)
  qed
  moreover have "view s' v = view s v" if v: "inh s' v" for v
  proof -
    have vs: "inh s v" using v by (simp add: ih')
    have ua: "uaddr (mem mm2) ?d v = uaddr (mem ?m) ?d v"
      using fr [OF v] by (simp add: uaddr_def hframe_def s'_def)
    have "\<forall>q \<in> insert f (pt_pages (mem ?m) ?d). uaddr (mem ?m) ?d v \<notin> rng q 4096"
      using nf [OF v] regionD(7) [OF r vs] pt_ok_pages(1) [OF ok] ff(1) uaddr_in_frame [of "mem ?m" ?d v]
      by (intro outside_pt [of "hframe s v"]) (auto simp: hframe_def page_ok_def)
    then have "mem mm2 (uaddr (mem ?m) ?d v) = mem ?m (uaddr (mem ?m) ?d v)" using u(7) by simp
    then show ?thesis by (simp add: view_def s'_def ua)
  qed
  ultimately show ?thesis using sh by (intro exI [of _ s'] exI [of _ f]) (simp add: s'_def t_def)
qed

end
