(* ===== verification/Kern_Chunks.thy ===== *)
theory Kern_Chunks
  imports Kern_Heap
begin

text \<open>
  The heap as a list of chunks: what \<^verbatim>\<open>kmalloc\<close> and \<^verbatim>\<open>kfree\<close> of \<^verbatim>\<open>kern/heap.c\<close> do to the headers, and the
  contract of an allocator they keep.
\<close>

section \<open>The memory of the region by numbers\<close>

type_synonym cells = "nat \<Rightarrow> u8"

definition nld :: "cells \<Rightarrow> nat \<Rightarrow> u32" where
  "nld m a = ucast (m a) OR push_bit 8 (ucast (m (a + 1))) OR push_bit 16 (ucast (m (a + 2))) OR push_bit 24 (ucast (m (a + 3)))"

definition nst :: "cells \<Rightarrow> nat \<Rightarrow> u32 \<Rightarrow> cells" where
  "nst m a w = m(a := ucast w, a + 1 := ucast (drop_bit 8 w), a + 2 := ucast (drop_bit 16 w), a + 3 := ucast (drop_bit 24 w))"

lemma nst_other: "x < a \<or> a + 4 \<le> x \<Longrightarrow> nst m a w x = m x"
  by (auto simp: nst_def)

lemma nld_cong: "(\<And>x. a \<le> x \<Longrightarrow> x < a + 4 \<Longrightarrow> m x = m' x) \<Longrightarrow> nld m a = nld m' a"
  by (simp add: nld_def)

lemma nld_nst [simp]: "nld (nst m a w) a = w"
  by (simp add: nld_def nst_def join_bytes)

lemma nld_nst_other [simp]: "a + 4 \<le> b \<or> b + 4 \<le> a \<Longrightarrow> nld (nst m a w) b = nld m b"
  by (rule nld_cong) (rule nst_other, arith)

definition holds :: "hp \<Rightarrow> u32 list \<Rightarrow> u32 \<Rightarrow> nat \<Rightarrow> cells \<Rightarrow> bool" where
  "holds t ps st tp m \<longleftrightarrow> region t ps \<and> heap_start t = st \<and> unat (heap_top t) = tp \<and>
     (\<forall>x. HS \<le> x \<and> x < tp \<longrightarrow> view t (of_nat x) = m x)"

lemma holdsD:
  assumes "holds t ps st tp m"
  shows "region t ps" and "heap_start t = st" and "unat (heap_top t) = tp" and "HS \<le> tp" and "tp < 4294967296"
    and "HS \<le> x \<Longrightarrow> x < tp \<Longrightarrow> view t (of_nat x) = m x"
  using assms regionD(3) [of t ps] u32_less [of "heap_top t"] unfolding holds_def by auto

lemma of_nat_u32: "x < 4294967296 \<Longrightarrow> unat (of_nat x :: u32) = x"
  by (simp add: unat_of_nat)

lemma of_nat_nonnull: "HS \<le> a \<Longrightarrow> a < 4294967296 \<Longrightarrow> (of_nat a :: u32) \<noteq> 0"
  using of_nat_u32 [of a] by (metis not_numeral_le_zero unat_0)

lemma holds_word:
  assumes h: "holds t ps st tp m" and a: "HS \<le> a" "a + 4 \<le> tp"
  shows "word_in t (of_nat a)" and "ld32 (view t) (of_nat a) = nld m a"
proof -
  note d = holdsD [OF h]
  have "unat (of_nat a :: u32) = a" using a d(5) by (simp add: of_nat_u32)
  then show "word_in t (of_nat a)" using a d(3) by (simp add: word_in_def)
  have "view t (of_nat (a + k)) = m (a + k)" if "k < 4" for k using a that by (intro d(6)) simp_all
  from this [of 0] this [of 1] this [of 2] this [of 3] show "ld32 (view t) (of_nat a) = nld m a"
    by (simp add: ld32_def nld_def algebra_simps)
qed

lemma holds_ld: "holds t ps st tp m \<Longrightarrow> HS \<le> a \<Longrightarrow> a + 4 \<le> tp \<Longrightarrow> vld32 (of_nat a) t = Inr (nld m a)"
  using vld32_spec [OF holdsD(1)] holds_word by simp

lemma st32_bytes:
  "st32 m a w a = ucast w" "st32 m a w (a + 1) = ucast (drop_bit 8 w)" "st32 m a w (a + 2) = ucast (drop_bit 16 w)"
  "st32 m a w (a + 3) = ucast (drop_bit 24 w)"
  by (simp_all add: st32_def)

lemma nst_bytes:
  "nst m a w a = ucast w" "nst m a w (a + 1) = ucast (drop_bit 8 w)" "nst m a w (a + 2) = ucast (drop_bit 16 w)"
  "nst m a w (a + 3) = ucast (drop_bit 24 w)"
  by (simp_all add: nst_def)

lemma holds_st:
  assumes h: "holds t ps st tp m" and a: "HS \<le> a" "a + 4 \<le> tp"
  shows "\<exists>t'. vst32 (of_nat a) w t = Inr t' \<and> holds t' ps st tp (nst m a w)"
proof -
  note d = holdsD [OF h]
  obtain t' where t': "vst32 (of_nat a) w t = Inr t'" "hstep ps t (st32 (view t) (of_nat a) w) t'"
    using vst32_spec [OF d(1) holds_word(1) [OF h a]] by blast
  have "view t' (of_nat x) = nst m a w x" if x: "HS \<le> x" "x < tp" for x
  proof -
    have u: "unat (of_nat x :: u32) = x" "unat (of_nat a :: u32) = a" using x a d(5) by (simp_all add: of_nat_u32)
    have "view t' (of_nat x) = st32 (view t) (of_nat a) w (of_nat x)"
      using t'(2) x d(3) u by (simp add: hstep_def inh_def)
    also have "\<dots> = nst m a w x"
    proof (cases "a \<le> x \<and> x < a + 4")
      case True
      then consider "x = a" | "x = a + 1" | "x = a + 2" | "x = a + 3" by linarith
      then show ?thesis by cases (simp_all only: st32_bytes nst_bytes of_nat_add of_nat_1 of_nat_numeral)
    next
      case False
      then have "of_nat x \<notin> rng (of_nat a :: u32) 4" using a d(5) u by (simp add: rng_iff)
      moreover have "nst m a w x = m x" using False by (intro nst_other) auto
      ultimately show ?thesis using d(6) x by (simp add: st32_other)
    qed
    finally show ?thesis .
  qed
  then have "holds t' ps st tp (nst m a w)" using t'(2) d(2,3) by (simp add: holds_def hstep_def)
  then show ?thesis using t'(1) by blast
qed

section \<open>Headers\<close>

definition wtag :: "u32 \<Rightarrow> bool \<Rightarrow> u32" where
  "wtag x f = push_bit 1 x OR of_bool f"

abbreviation tag :: "nat \<Rightarrow> bool \<Rightarrow> u32" where
  "tag l \<equiv> wtag (of_nat l)"

lemma bit_wtag: "bit (wtag x f) n \<longleftrightarrow> n < 32 \<and> (if n = 0 then f else bit x (n - 1))"
  unfolding wtag_def bit_or_iff bit_push_bit_iff by (auto simp: bit_simps)

lemma wtag_simps:
  "wtag x f AND 1 = 1 \<longleftrightarrow> f" "wtag x f AND NOT 1 OR of_bool b = wtag x b" "wtag x f AND 1 OR push_bit 1 y = wtag y f"
proof -
  show "wtag x f AND 1 = 1 \<longleftrightarrow> f" using bit_wtag [of x f 0] by (simp add: and_one_eq bit_0 odd_iff_mod_2_eq_one)
  show "wtag x f AND NOT 1 OR of_bool b = wtag x b" "wtag x f AND 1 OR push_bit 1 y = wtag y f"
    by (rule bit_word_eqI; unfold bit_or_iff bit_and_iff bit_not_iff bit_push_bit_iff bit_wtag; auto simp: bit_simps)+
qed

lemma wtag_any: "w = wtag (drop_bit 1 w) (bit w 0)"
  by (rule bit_word_eqI) (auto simp: bit_wtag bit_drop_bit_eq)

lemma wtag_len [simp]:
  assumes "l < 2147483648"
  shows "drop_bit 1 (tag l f) = of_nat l"
proof (rule bit_word_eqI)
  fix n :: nat
  assume n: "n < LENGTH(32)"
  have "\<not> bit l 31" using assms by (simp add: bit_iff_odd)
  then have "\<not> bit (of_nat l :: u32) 31" by (simp add: bit_simps)
  then show "bit (drop_bit 1 (tag l f)) n = bit (of_nat l :: u32) n"
    using n by (cases "n = 31") (simp_all add: bit_drop_bit_eq, simp_all add: bit_wtag)
qed

lemmas wtag_len' [simp] = wtag_len [unfolded One_nat_def]

text \<open>\<open>within tp a\<close>: the header at \<open>a\<close> lies in the region.\<close>

abbreviation within :: "nat \<Rightarrow> nat \<Rightarrow> bool" where
  "within tp a \<equiv> HS \<le> a \<and> a + 12 \<le> tp"

lemma holds_get:
  assumes "holds t ps st tp m" and "within tp a"
  shows "get_prev (of_nat a) t = Inr (nld m a)" and "get_next (of_nat a) t = Inr (nld m (a + 4))"
    and "nld m (a + 8) = tag l f \<Longrightarrow> get_free (of_nat a) t = Inr f"
    and "nld m (a + 8) = tag l f \<Longrightarrow> l < 2147483648 \<Longrightarrow> get_len (of_nat a) t = Inr (of_nat l)"
  using assms holds_ld [of t ps st tp m a] holds_ld [of t ps st tp m "a + 4"] holds_ld [of t ps st tp m "a + 8"]
  by (simp_all add: get_prev_def get_next_def get_free_def get_len_def wtag_simps algebra_simps)

text \<open>One assignment to a header, and what follows it.\<close>

lemma holds_set:
  assumes h: "holds t ps st tp m" and a: "within tp a"
    and k: "\<And>t'. holds t' ps st tp (nst m (a + i) w) \<Longrightarrow> \<exists>x. k t' = Inr x \<and> Q x"
  shows "i = 0 \<Longrightarrow> v = w \<Longrightarrow> \<exists>x. bnd (set_prev (of_nat a) v t) k = Inr x \<and> Q x"
    and "i = 4 \<Longrightarrow> v = w \<Longrightarrow> \<exists>x. bnd (set_next (of_nat a) v t) k = Inr x \<and> Q x"
    and "i = 8 \<Longrightarrow> nld m (a + 8) = wtag x f \<Longrightarrow> w = wtag x b \<Longrightarrow> \<exists>x. bnd (set_free (of_nat a) b t) k = Inr x \<and> Q x"
    and "i = 8 \<Longrightarrow> nld m (a + 8) = wtag x f \<Longrightarrow> w = wtag v f \<Longrightarrow> \<exists>x. bnd (set_len (of_nat a) v t) k = Inr x \<and> Q x"
proof -
  have st: "\<exists>x. bnd (vst32 (of_nat (a + i)) w t) k = Inr x \<and> Q x" if "i \<le> 8"
  proof -
    have i: "HS \<le> a + i" "a + i + 4 \<le> tp" using a that by auto
    obtain t' where "vst32 (of_nat (a + i)) w t = Inr t'" "holds t' ps st tp (nst m (a + i) w)"
      using holds_st [OF h i, of w] by blast
    then show ?thesis using k by simp
  qed
  have ld: "vld32 (of_nat a + 8) t = Inr (nld m (a + 8))"
    using holds_ld [OF h, of "a + 8"] a by (simp add: algebra_simps)
  show "i = 0 \<Longrightarrow> v = w \<Longrightarrow> \<exists>x. bnd (set_prev (of_nat a) v t) k = Inr x \<and> Q x"
    "i = 4 \<Longrightarrow> v = w \<Longrightarrow> \<exists>x. bnd (set_next (of_nat a) v t) k = Inr x \<and> Q x"
    "i = 8 \<Longrightarrow> nld m (a + 8) = wtag x f \<Longrightarrow> w = wtag x b \<Longrightarrow> \<exists>x. bnd (set_free (of_nat a) b t) k = Inr x \<and> Q x"
    "i = 8 \<Longrightarrow> nld m (a + 8) = wtag x f \<Longrightarrow> w = wtag v f \<Longrightarrow> \<exists>x. bnd (set_len (of_nat a) v t) k = Inr x \<and> Q x"
    using st by (simp_all only: set_prev_def set_next_def set_free_def set_len_def ld bnd_Inr wtag_simps)
      (simp_all add: algebra_simps)
qed

section \<open>Lists of chunks\<close>

text \<open>
  A chunk is its length and its free bit. \<open>chunks m p a e cs\<close>: from the address \<open>a\<close> on the memory holds the
  headers of \<open>cs\<close>, one after the other; the first points back to \<open>p\<close> and the last forward to \<open>e\<close>.
\<close>

type_synonym chunk = "nat \<times> bool"

definition sz :: "chunk list \<Rightarrow> nat" where
  "sz cs = sum_list (map fst cs)"

lemma sz_simps [simp]: "sz [] = 0" "sz (c # cs) = fst c + sz cs" "sz (xs @ ys) = sz xs + sz ys"
  by (simp_all add: sz_def)

fun chunks :: "cells \<Rightarrow> nat \<Rightarrow> nat \<Rightarrow> nat \<Rightarrow> chunk list \<Rightarrow> bool" where
  "chunks m p a e [] = True"
| "chunks m p a e ((l, f) # cs) =
     (nld m a = of_nat p \<and> nld m (a + 4) = of_nat (if cs = [] then e else a + l) \<and> nld m (a + 8) = tag l f \<and>
      12 \<le> l \<and> chunks m a (a + l) e cs)"

text \<open>The header before the address that follows \<open>cs\<close>.\<close>

definition before :: "nat \<Rightarrow> nat \<Rightarrow> chunk list \<Rightarrow> nat" where
  "before p a cs = (if cs = [] then p else a + sz (butlast cs))"

lemma before_simps [simp]: "before p a [] = p" "before p a (c # cs) = before a (a + fst c) cs" "before p a (xs @ [c]) = a + sz xs"
  by (simp_all add: before_def)

lemma chunks_append:
  "chunks m p a e (xs @ ys) \<longleftrightarrow>
     chunks m p a (if ys = [] then e else a + sz xs) xs \<and> chunks m (before p a xs) (a + sz xs) e ys"
  by (induction xs arbitrary: p a) (auto simp: add.assoc)

text \<open>The bytes of the headers, and of the payload of the chunks in use.\<close>

fun hdrs :: "nat \<Rightarrow> chunk list \<Rightarrow> nat set" where
  "hdrs a [] = {}"
| "hdrs a (c # cs) = {a..<a + 12} \<union> hdrs (a + fst c) cs"

fun live :: "nat \<Rightarrow> chunk list \<Rightarrow> (nat \<times> nat) set" where
  "live a [] = {}"
| "live a ((l, f) # cs) = (if f then {} else {(a + 12, l - 12)}) \<union> live (a + l) cs"

lemma hdrs_append [simp]: "hdrs a (xs @ ys) = hdrs a xs \<union> hdrs (a + sz xs) ys"
  by (induction xs arbitrary: a) (auto simp: add.assoc)

lemma live_append [simp]: "live a (xs @ ys) = live a xs \<union> live (a + sz xs) ys"
  by (induction xs arbitrary: a) (auto simp: add.assoc)

definition sized :: "chunk list \<Rightarrow> bool" where
  "sized cs \<longleftrightarrow> (\<forall>c \<in> set cs. 12 \<le> fst c)"

lemma sized_simps [simp]: "sized []" "sized (c # cs) \<longleftrightarrow> 12 \<le> fst c \<and> sized cs" "sized (xs @ ys) \<longleftrightarrow> sized xs \<and> sized ys"
  by (auto simp: sized_def)

lemma chunks_sized: "chunks m p a e cs \<Longrightarrow> sized cs"
  by (induction m p a e cs rule: chunks.induct) auto

lemma hdrs_bounds: "sized cs \<Longrightarrow> x \<in> hdrs a cs \<Longrightarrow> a \<le> x \<and> x < a + sz cs"
  by (induction cs arbitrary: a) force+

lemma live_bounds: "sized cs \<Longrightarrow> (b, k) \<in> live a cs \<Longrightarrow> a + 12 \<le> b \<and> b + k \<le> a + sz cs"
  by (induction a cs rule: live.induct) (force split: if_splits)+

lemma live_off_hdrs: "sized cs \<Longrightarrow> (b, k) \<in> live a cs \<Longrightarrow> x \<in> hdrs a cs \<Longrightarrow> x < b \<or> b + k \<le> x"
proof (induction a cs rule: live.induct)
  case (2 a l f cs)
  then show ?case using live_bounds [of cs b k "a + l"] hdrs_bounds [of cs x "a + l"] by (auto split: if_splits)
qed simp

lemma live_apart:
  "sized cs \<Longrightarrow> (b, k) \<in> live a cs \<Longrightarrow> (c, j) \<in> live a cs \<Longrightarrow> (b, k) \<noteq> (c, j) \<Longrightarrow> b + k < c \<or> c + j < b"
proof (induction a cs rule: live.induct)
  case (2 a l f cs)
  then show ?case using live_bounds [of cs b k "a + l"] live_bounds [of cs c j "a + l"] by (auto split: if_splits)
qed simp

lemma chunks_cong:
  assumes "sized cs" and "\<And>x. x \<in> hdrs a cs \<Longrightarrow> m x = m' x"
  shows "chunks m p a e cs = chunks m' p a e cs"
  using assms
proof (induction m p a e cs rule: chunks.induct)
  case (2 m p a e l f cs)
  have eq: "nld m a = nld m' a" "nld m (a + 4) = nld m' (a + 4)" "nld m (a + 8) = nld m' (a + 8)"
    using 2(3) by (auto intro!: nld_cong)
  have "chunks m a (a + l) e cs = chunks m' a (a + l) e cs" using 2 by simp
  with eq show ?case by simp
qed simp

text \<open>No two free chunks touch, and the last chunk is in use.\<close>

definition tidy :: "chunk list \<Rightarrow> bool" where
  "tidy cs \<longleftrightarrow> successively (\<lambda>c d. \<not> (snd c \<and> snd d)) cs \<and> (cs \<noteq> [] \<longrightarrow> \<not> snd (last cs))"

lemma live_used: "cs \<noteq> [] \<Longrightarrow> \<not> snd (last cs) \<Longrightarrow> live a cs \<noteq> {}"
  by (induction a cs rule: live.induct) (auto split: if_splits)

lemma tidy_live: "tidy cs \<Longrightarrow> live a cs = {} \<longleftrightarrow> cs = []"
  using live_used by (auto simp: tidy_def)

lemma tidy_free:
  assumes "tidy (xs @ (l, True) # ys)"
  obtains k zs where "ys = (k, False) # zs"
  using assms by (cases ys) (auto simp: tidy_def successively_append_iff successively_Cons)

section \<open>The loops\<close>

definition up :: "nat \<Rightarrow> nat" where
  "up x = (x + 4095) div 4096 * 4096"

lemma up_bounds: "x \<le> up x" "up x < x + 4096" "x \<le> y \<Longrightarrow> up x \<le> up y"
  unfolding up_def by (linarith, linarith, intro mult_le_mono1 div_le_mono add_le_mono1)

lemma up_steps: "x \<le> y \<Longrightarrow> \<exists>k. up y = up x + 4096 * k"
  using up_bounds(3) [of x y] unfolding up_def
  by (intro exI [of _ "(y + 4095) div 4096 - (x + 4095) div 4096"]) (simp add: diff_mult_distrib)

lemma holds_grow:
  assumes h: "holds t ps st tp m" and ps: "2 \<le> length ps" and tp: "tp < 4294959104"
  shows "\<exists>t' qs m'. grow t = Inr t' \<and> holds t' qs st (tp + 4096) m' \<and> (\<forall>x < tp. m' x = m x) \<and> length ps \<le> length qs + 2"
proof -
  note d = holdsD [OF h]
  obtain p ps' where p: "ps = p # ps'" "ps' \<noteq> []" using ps by (cases ps; cases "tl ps") auto
  obtain t' qs where g: "grow t = Inr t'" "region t' qs" "heap_top t' = heap_top t + 4096" "heap_start t' = heap_start t"
    "\<forall>v. inh t v \<longrightarrow> view t' v = view t v" "length ps' \<le> length qs + 1"
    using grow_spec [of t p ps'] d(1,3) p tp by auto
  define m' where "m' x = (if x < tp then m x else view t' (of_nat x))" for x
  have ut: "unat (heap_top t') = tp + 4096" using g(3) d(3) tp by (simp add: unat_word_ariths)
  have "view t' (of_nat x) = m' x" if "HS \<le> x" "x < tp + 4096" for x
    using that g(5) d(3,5) d(6) [of x] by (auto simp: m'_def inh_def of_nat_u32)
  then have "holds t' qs st (tp + 4096) m'" using g ut d(2) by (simp add: holds_def)
  moreover have "\<forall>x < tp. m' x = m x" by (simp add: m'_def)
  moreover have "length ps \<le> length qs + 2" using g(6) p by simp
  ultimately show ?thesis using g(1) by blast
qed

lemma holds_shrink:
  assumes h: "holds t ps st tp m" and tp: "HS + 4096 \<le> tp"
  shows "\<exists>t' f. shrink t = Inr t' \<and> holds t' (f # ps) st (tp - 4096) m"
proof -
  note d = holdsD [OF h]
  obtain t' f where g: "shrink t = Inr t'" "region t' (f # ps)" "heap_top t' = heap_top t - 4096" "heap_start t' = heap_start t"
    "\<forall>v. inh t' v \<longrightarrow> view t' v = view t v"
    using shrink_spec [OF d(1)] d(3) tp by auto
  have ut: "unat (heap_top t') = tp - 4096" using g(3) d(3) tp by (simp add: unat_sub_if')
  have "view t' (of_nat x) = m x" if "HS \<le> x" "x < tp - 4096" for x
    using that g(5) ut d(5) d(6) [of x] by (auto simp: inh_def of_nat_u32)
  then have "holds t' (f # ps) st (tp - 4096) m" using g ut d(2) by (simp add: holds_def)
  then show ?thesis using g(1) by blast
qed

lemma end_addr:
  assumes "up (a + n) \<le> 4294959104"
  shows "unat (of_nat a + of_nat n :: u32) = a + n"
proof -
  have "unat (of_nat (a + n) :: u32) = a + n" using assms up_bounds(1) [of "a + n"] by (intro of_nat_u32) linarith
  then show ?thesis by simp
qed

lemma alloc_loop_spec:
  assumes "holds t ps st tp m" and "tp + 4096 * k = up (a + n)" and "2 * k \<le> length ps" and "up (a + n) \<le> 4294959104"
  shows "\<exists>t' qs m'. alloc_loop (of_nat a) (of_nat n) t = Some (Inr t') \<and> holds t' qs st (up (a + n)) m' \<and>
    (\<forall>x < tp. m' x = m x) \<and> length ps \<le> length qs + 2 * k"
  using assms
proof (induction k arbitrary: t ps tp m)
  case 0
  have "\<not> heap_top t < of_nat a + of_nat n"
    unfolding word_less_nat_alt holdsD(3) [OF 0(1)] end_addr [OF 0(4)] using 0(2) up_bounds(1) [of "a + n"] by linarith
  then show ?case using 0 by (auto simp: alloc_loop.simps)
next
  case (Suc k)
  have eq: "tp + 4096 + 4096 * k = up (a + n)" using Suc(3) by simp
  have lt: "heap_top t < of_nat a + of_nat n"
    unfolding word_less_nat_alt holdsD(3) [OF Suc(2)] end_addr [OF Suc(5)] using eq up_bounds(2) [of "a + n"] by linarith
  have step: "2 \<le> length ps" "tp < 4294959104" using eq Suc(4,5) by simp_all
  obtain t1 qs m1 where g: "grow t = Inr t1" "holds t1 qs st (tp + 4096) m1" "\<forall>x < tp. m1 x = m x" "length ps \<le> length qs + 2"
    using holds_grow [OF Suc(2) step] by blast
  have "\<exists>t' rs m'. alloc_loop (of_nat a) (of_nat n) t1 = Some (Inr t') \<and> holds t' rs st (up (a + n)) m' \<and>
    (\<forall>x < tp + 4096. m' x = m1 x) \<and> length qs \<le> length rs + 2 * k"
  proof (rule Suc.IH [OF g(2)])
    show "tp + 4096 + 4096 * k = up (a + n)" "2 * k \<le> length qs" "up (a + n) \<le> 4294959104" using eq Suc(4,5) g(4) by simp_all
  qed
  then obtain t' rs m' where r: "alloc_loop (of_nat a) (of_nat n) t1 = Some (Inr t')" "holds t' rs st (up (a + n)) m'"
    "\<forall>x < tp + 4096. m' x = m1 x" "length qs \<le> length rs + 2 * k" by blast
  have "alloc_loop (of_nat a) (of_nat n) t = Some (Inr t')"
    using lt g(1) r(1) by (simp add: alloc_loop.simps [of _ _ t])
  then show ?case using r(2,3,4) g(3,4) by (intro exI [of _ t'] exI [of _ rs] exI [of _ m']) simp
qed

lemma free_loop_spec:
  assumes "holds t ps st (up a + 4096 * k) m" and "HS \<le> a"
  shows "\<exists>t' qs. free_loop (of_nat a) t = Some (Inr t') \<and> holds t' qs st (up a) m \<and> length qs = length ps + k"
  using assms
proof (induction k arbitrary: t ps)
  case 0
  note d = holdsD [OF 0(1)]
  have "unat (of_nat a :: u32) = a" using d(5) up_bounds(1) [of a] by (simp add: of_nat_u32)
  moreover have "unat (heap_top t - PGSIZE) = up a - 4096" using d(3,4) by (simp add: unat_sub_if')
  ultimately have "\<not> of_nat a \<le> heap_top t - PGSIZE" using up_bounds(2) [of a] d(4) 0(2) by (simp add: word_le_nat_alt)
  then show ?case using 0 by (auto simp: free_loop.simps)
next
  case (Suc k)
  note d = holdsD [OF Suc(2)]
  have "unat (of_nat a :: u32) = a" using d(5) up_bounds(1) [of a] by (simp add: of_nat_u32)
  moreover have "unat (heap_top t - PGSIZE) = up a + 4096 * k" using d(3,4) by (simp add: unat_sub_if')
  ultimately have le: "of_nat a \<le> heap_top t - PGSIZE" using up_bounds(1) [of a] by (simp add: word_le_nat_alt)
  have big: "HS + 4096 \<le> up a + 4096 * Suc k" using up_bounds(1) [of a] Suc(3) by simp
  obtain t1 f where g: "shrink t = Inr t1" "holds t1 (f # ps) st (up a + 4096 * k) m"
    using holds_shrink [OF Suc(2) big] by (auto simp: algebra_simps)
  obtain t' qs where r: "free_loop (of_nat a) t1 = Some (Inr t')" "holds t' qs st (up a) m" "length qs = length ps + Suc k"
    using Suc.IH [OF g(2) Suc(3)] by auto
  have "free_loop (of_nat a) t = Some (Inr t')" using le g(1) r(1) by (simp add: free_loop.simps [of _ t])
  then show ?case using r by blast
qed

text \<open>First fit: the address of the chunk, or of the last chunk.\<close>

fun seek :: "nat \<Rightarrow> nat \<Rightarrow> nat \<Rightarrow> chunk list \<Rightarrow> nat + nat" where
  "seek n p a [] = Inl p"
| "seek n p a ((l, f) # cs) = (if f \<and> n \<le> l then Inr a else seek n a (a + l) cs)"

lemma search_loop_spec:
  assumes "holds t ps st tp m" and "chunks m p a 0 cs" and "HS \<le> a" and "a + sz cs \<le> tp" and "n < 4294967296"
  shows "search_loop (of_nat n) (of_nat p) (if cs = [] then 0 else of_nat a) t =
    Some (Inr (case seek n p a cs of Inl b \<Rightarrow> Last (of_nat b) | Inr b \<Rightarrow> Fit (of_nat b)))"
  using assms
proof (induction n p a cs rule: seek.induct)
  case (2 n p a l f cs)
  have w: "within tp a" using 2 by auto
  have ll: "l < 2147483648" using 2 holdsD(5) [OF 2(2)] by simp
  note g = holds_get [OF 2(2) w]
  have a0: "(of_nat a :: u32) \<noteq> 0" using w holdsD(5) [OF 2(2)] by (intro of_nat_nonnull) auto
  have f: "get_free (of_nat a) t = Inr f" "get_len (of_nat a) t = Inr (of_nat l)"
    "get_next (of_nat a) t = Inr (if cs = [] then 0 else of_nat (a + l))"
    using g 2(3) ll by auto
  have cmp: "(of_nat n :: u32) \<le> of_nat l \<longleftrightarrow> n \<le> l" using ll 2(6) by (simp add: word_le_nat_alt of_nat_u32)
  show ?case
  proof (cases "f \<and> n \<le> l")
    case True
    then show ?thesis using a0 f cmp by (simp add: search_loop.simps)
  next
    case False
    then have "search_loop (of_nat n) (of_nat a) (if cs = [] then 0 else of_nat (a + l)) t =
      Some (Inr (case seek n a (a + l) cs of Inl b \<Rightarrow> Last (of_nat b) | Inr b \<Rightarrow> Fit (of_nat b)))"
      using 2 by (intro 2(1)) auto
    then show ?thesis using a0 f cmp False by (subst search_loop.simps) auto
  qed
qed (simp add: search_loop.simps)

lemma seek_cases:
  obtains (fit) xs l ys where "cs = xs @ (l, True) # ys" "n \<le> l" "seek n p a cs = Inr (a + sz xs)"
    "\<forall>c \<in> set xs. \<not> (snd c \<and> n \<le> fst c)"
  | (none) "seek n p a cs = Inl (before p a cs)" "\<forall>c \<in> set cs. \<not> (snd c \<and> n \<le> fst c)"
proof -
  have "(\<exists>xs l ys. cs = xs @ (l, True) # ys \<and> n \<le> l \<and> seek n p a cs = Inr (a + sz xs) \<and>
      (\<forall>c \<in> set xs. \<not> (snd c \<and> n \<le> fst c))) \<or>
    seek n p a cs = Inl (before p a cs) \<and> (\<forall>c \<in> set cs. \<not> (snd c \<and> n \<le> fst c))"
  proof (induction n p a cs rule: seek.induct)
    case (2 n p a l f cs)
    show ?case
    proof (cases "f \<and> n \<le> l")
      case True
      then show ?thesis by (intro disjI1 exI [of _ "[]"]) auto
    next
      case False
      from 2 [OF this] show ?thesis
      proof (elim disjE exE conjE)
        fix xs k ys
        assume "cs = xs @ (k, True) # ys" "n \<le> k" "seek n a (a + l) cs = Inr (a + l + sz xs)"
          "\<forall>c \<in> set xs. \<not> (snd c \<and> n \<le> fst c)"
        then show ?thesis using False
          by (intro disjI1 exI [of _ "(l, f) # xs"] exI [of _ k] exI [of _ ys]) auto
      qed (use False in auto)
    qed
  qed simp
  then show ?thesis using that by blast
qed

section \<open>Changes of the list\<close>

lemma bnd_Inr_right: "bnd x Inr = x"
  by (simp add: bnd_def split: sum.split)

lemma holds_set_last:
  assumes h: "holds t ps st tp m" and a: "within tp a"
  shows "\<exists>t'. set_prev (of_nat a) w t = Inr t' \<and> holds t' ps st tp (nst m a w)"
    and "\<exists>t'. set_next (of_nat a) w t = Inr t' \<and> holds t' ps st tp (nst m (a + 4) w)"
    and "nld m (a + 8) = wtag x f \<Longrightarrow> \<exists>t'. set_free (of_nat a) b t = Inr t' \<and> holds t' ps st tp (nst m (a + 8) (wtag x b))"
    and "nld m (a + 8) = wtag x f \<Longrightarrow> \<exists>t'. set_len (of_nat a) v t = Inr t' \<and> holds t' ps st tp (nst m (a + 8) (wtag v f))"
  using holds_set(1) [OF h a, of 0 w Inr "\<lambda>t'. holds t' ps st tp (nst m a w)" w]
    holds_set(2) [OF h a, of 4 w Inr "\<lambda>t'. holds t' ps st tp (nst m (a + 4) w)" w]
    holds_set(3) [OF h a, of 8 "wtag x b" Inr "\<lambda>t'. holds t' ps st tp (nst m (a + 8) (wtag x b))" x f b]
    holds_set(4) [OF h a, of 8 "wtag v f" Inr "\<lambda>t'. holds t' ps st tp (nst m (a + 8) (wtag v f))" x f v]
  by (simp_all add: bnd_Inr_right)

lemma seq_set:
  assumes "holds t ps st tp m" and "within tp a"
  shows "(\<And>t'. holds t' ps st tp (nst m a v) \<Longrightarrow> \<exists>x. k t' = Inr x \<and> Q x) \<Longrightarrow>
      \<exists>x. bnd (set_prev (of_nat a) v t) k = Inr x \<and> Q x"
    and "(\<And>t'. holds t' ps st tp (nst m (a + 4) v) \<Longrightarrow> \<exists>x. k t' = Inr x \<and> Q x) \<Longrightarrow>
      \<exists>x. bnd (set_next (of_nat a) v t) k = Inr x \<and> Q x"
    and "nld m (a + 8) = wtag y f \<Longrightarrow> (\<And>t'. holds t' ps st tp (nst m (a + 8) (wtag y b)) \<Longrightarrow> \<exists>x. k t' = Inr x \<and> Q x) \<Longrightarrow>
      \<exists>x. bnd (set_free (of_nat a) b t) k = Inr x \<and> Q x"
    and "nld m (a + 8) = wtag y f \<Longrightarrow> (\<And>t'. holds t' ps st tp (nst m (a + 8) (wtag v f)) \<Longrightarrow> \<exists>x. k t' = Inr x \<and> Q x) \<Longrightarrow>
      \<exists>x. bnd (set_len (of_nat a) v t) k = Inr x \<and> Q x"
  using holds_set_last [OF assms] by (metis bnd_Inr)+

lemma seq_get:
  assumes "holds t ps st tp m" and "within tp a"
  shows "nld m a = w \<Longrightarrow> \<exists>x. k w = Inr x \<and> Q x \<Longrightarrow> \<exists>x. bnd (get_prev (of_nat a) t) k = Inr x \<and> Q x"
    and "nld m (a + 4) = w \<Longrightarrow> \<exists>x. k w = Inr x \<and> Q x \<Longrightarrow> \<exists>x. bnd (get_next (of_nat a) t) k = Inr x \<and> Q x"
    and "nld m (a + 8) = tag l f \<Longrightarrow> \<exists>x. k' f = Inr x \<and> Q x \<Longrightarrow> \<exists>x. bnd (get_free (of_nat a) t) k' = Inr x \<and> Q x"
    and "nld m (a + 8) = tag l f \<Longrightarrow> l < 2147483648 \<Longrightarrow> \<exists>x. k (of_nat l) = Inr x \<and> Q x \<Longrightarrow>
      \<exists>x. bnd (get_len (of_nat a) t) k = Inr x \<and> Q x"
  by (simp_all add: holds_get [OF assms])

lemma chunks_keep:
  assumes "chunks m p a e cs" and "\<And>x. a \<le> x \<Longrightarrow> x < a + sz cs \<Longrightarrow> m' x = m x"
  shows "chunks m' p a e cs"
  using assms chunks_cong [OF chunks_sized [OF assms(1)], of a m m'] hdrs_bounds [OF chunks_sized [OF assms(1)]] by metis

lemma chunks_nst [simp]:
  assumes "b + 4 \<le> a \<or> a + sz cs \<le> b"
  shows "chunks (nst m b w) p a e cs = chunks m p a e cs"
proof -
  have "nst m b w x = m x" if "a \<le> x" "x < a + sz cs" for x using that assms by (intro nst_other) auto
  then show ?thesis using chunks_keep [of m p a e cs "nst m b w"] chunks_keep [of "nst m b w" p a e cs m] by metis
qed

text \<open>The free bit of one chunk.\<close>

lemma chunks_flag:
  assumes "chunks m p a e (xs @ (l, f) # ys)"
  shows "chunks (nst m (a + sz xs + 8) (tag l b)) p a e (xs @ (l, b) # ys)"
  using assms by (simp add: chunks_append)

text \<open>Cutting a free chunk in two.\<close>

definition carve :: "bool \<Rightarrow> nat \<Rightarrow> nat \<Rightarrow> chunk list" where
  "carve b n l = (if l - n \<le> 12 then [(l, b)] else [(n, b), (l - n, True)])"

lemma sz_carve [simp]: "n \<le> l \<Longrightarrow> sz (carve b n l) = l"
  by (simp add: carve_def)

lemma carve_Cons: "12 \<le> n \<Longrightarrow> n \<le> l \<Longrightarrow> \<exists>j us. (\<forall>f. carve f n l = (j, f) # us) \<and> 12 \<le> j"
  by (cases "l - n \<le> 12") (auto simp: carve_def)

lemma split_chunk_spec:
  assumes h: "holds t ps st tp m" and c: "chunks m 0 HS 0 (xs @ (l, True) # (k, g) # ys)"
    and a: "a = HS + sz xs" and tp: "a + l + k \<le> tp" and n: "12 \<le> n" "n \<le> l"
  shows "\<exists>t' m'. split_chunk (of_nat a) (of_nat n) t = Inr t' \<and> holds t' ps st tp m' \<and>
    chunks m' 0 HS 0 (xs @ carve True n l @ (k, g) # ys) \<and>
    (\<forall>x. m' x = m x \<or> x \<in> {a..<a + 12} \<union> {a + n..<a + l} \<union> {a + l..<a + l + 12})"
proof -
  define b where "b = a + n"
  define d where "d = a + l"
  have cc: "chunks m 0 HS a xs" "nld m a = of_nat (before 0 HS xs)" "nld m (a + 4) = of_nat d" "nld m (a + 8) = tag l True"
    "12 \<le> l" "nld m d = of_nat a" "nld m (d + 4) = of_nat (if ys = [] then 0 else d + k)" "nld m (d + 8) = tag k g"
    "12 \<le> k" "chunks m d (d + k) 0 ys"
    using c by (simp_all add: chunks_append a d_def)
  have wa: "within tp a" and wd: "within tp d" using tp cc(5,9) a by (auto simp: d_def)
  note hd = holdsD [OF h]
  have ll: "l < 2147483648" using tp hd(5) a by simp
  have len: "get_len (of_nat a) t = Inr (of_nat l)" using holds_get(4) [OF h wa cc(4) ll] .
  have left: "of_nat l - of_nat n = (of_nat (l - n) :: u32)" using n by (simp add: of_nat_diff)
  have cmp: "(of_nat (l - n) :: u32) \<le> 12 \<longleftrightarrow> l - n \<le> 12"
    using ll by (simp add: word_le_nat_alt of_nat_u32 del: of_nat_diff)
  show ?thesis
  proof (cases "l - n \<le> 12")
    case True
    then have "split_chunk (of_nat a) (of_nat n) t = Inr t"
      using cmp by (simp add: split_chunk_def len left Let_def del: of_nat_diff)
    then show ?thesis using h c True by (auto simp: carve_def)
  next
    case False
    then have o: "a + 12 \<le> b" "b + 12 < d" using n by (auto simp: b_def d_def)
    have wb: "within tp b" using wa wd o by simp
    define x where "x = drop_bit 1 (nld m (b + 8))"
    define m7 where "m7 = nst (nst (nst (nst (nst (nst (nst m (b + 8) (wtag x True)) (b + 8) (tag (l - n) True))
      (a + 8) (tag n True)) b (of_nat a)) (b + 4) (of_nat d)) d (of_nat b)) (a + 4) (of_nat b)"
    have tg: "nld m (b + 8) = wtag x (bit (nld m (b + 8)) 0)" unfolding x_def by (rule wtag_any)
    have tb: "of_nat a + of_nat n = (of_nat b :: u32)" by (simp add: b_def)
    have "\<exists>t'. split_chunk (of_nat a) (of_nat n) t = Inr t' \<and> holds t' ps st tp m7"
      unfolding split_chunk_def len bnd_Inr left Let_def cmp tb if_not_P [OF False] using o cc(3,4)
      apply -
      apply (rule seq_set(3) [OF h wb tg])
      apply (rule seq_set(4), assumption, rule wb, simp)
      apply (rule seq_set(4), assumption, rule wa, simp)
      apply (rule seq_set(1), assumption, rule wb)
      apply (rule seq_get(2) [where w = "of_nat d"], assumption, rule wa, simp)
      apply (rule seq_set(2), assumption, rule wb)
      apply (rule seq_get(2) [where w = "of_nat d"], assumption, rule wa, simp)
      apply (rule seq_set(1), assumption, rule wd)
      apply (unfold m7_def, rule holds_set_last(2) [OF _ wa], assumption)
      done
    moreover have "chunks m7 0 HS 0 (xs @ [(n, True), (l - n, True)] @ (k, g) # ys)"
    proof -
      have e: "HS + sz xs = a" "a + n = b" "b + (l - n) = d" using n by (simp_all add: a b_def d_def)
      have "chunks m7 0 HS a xs" using cc(1) o e(1) by (simp add: m7_def)
      moreover have "chunks m7 d (d + k) 0 ys" using cc(9,10) o by (simp add: m7_def)
      moreover have "nld m7 a = of_nat (before 0 HS xs)" "nld m7 (a + 4) = of_nat b" "nld m7 (a + 8) = tag n True"
        "nld m7 b = of_nat a" "nld m7 (b + 4) = of_nat d" "nld m7 (b + 8) = tag (l - n) True"
        "nld m7 d = of_nat b" "nld m7 (d + 4) = of_nat (if ys = [] then 0 else d + k)" "nld m7 (d + 8) = tag k g"
        using o cc by (simp_all add: m7_def)
      ultimately show ?thesis using n cc(9) False by (simp add: chunks_append e)
    qed
    moreover have "m7 y = m y \<or> y \<in> {a..<a + 12} \<union> {a + n..<a + l} \<union> {a + l..<a + l + 12}" for y
    proof (rule disjCI)
      assume "y \<notin> {a..<a + 12} \<union> {a + n..<a + l} \<union> {a + l..<a + l + 12}"
      then have "(y < a \<or> a + 12 \<le> y) \<and> (y < b \<or> b + 12 \<le> y) \<and> (y < d \<or> d + 12 \<le> y)" using o by (auto simp: b_def d_def)
      then show "m7 y = m y" by (auto simp: m7_def nst_other)
    qed
    ultimately show ?thesis using False by (simp add: carve_def) blast
  qed
qed

lemma tidy_carve:
  assumes "tidy (xs @ (l, True) # ys)"
  shows "tidy (xs @ carve False n l @ ys)"
proof -
  obtain k zs where "ys = (k, False) # zs" by (rule tidy_free [OF assms])
  then show ?thesis using assms by (auto simp: tidy_def successively_append_iff successively_Cons carve_def)
qed

text \<open>A chunk in use behind the last one.\<close>

lemma before_hdr:
  assumes "chunks m 0 a 0 cs" and "cs \<noteq> []" and "p = before 0 a cs"
  shows "a \<le> p" and "p + 12 \<le> a + sz cs" and "{p..<p + 12} \<subseteq> hdrs a cs"
proof -
  obtain us j g where u: "cs = us @ [(j, g)]" using assms(2) by (metis rev_exhaust surj_pair)
  then show "a \<le> p" "p + 12 \<le> a + sz cs" "{p..<p + 12} \<subseteq> hdrs a cs"
    using assms(1,3) by (auto simp: chunks_append)
qed

lemma chunks_snoc:
  assumes c: "chunks m 0 a 0 cs" and p: "p = before 0 a cs" and e: "e = a + sz cs" and n: "12 \<le> n"
    and m: "m4 = (if cs = [] then m3 else nst m3 (p + 4) (of_nat e))" "\<forall>x < e. m3 x = m x"
    and h: "nld m3 e = of_nat p" "nld m3 (e + 4) = 0" "nld m3 (e + 8) = tag n f"
  shows "chunks m4 0 a 0 (cs @ [(n, f)])"
proof (cases "cs = []")
  case False
  then obtain us j g where u: "cs = us @ [(j, g)]" by (metis rev_exhaust surj_pair)
  have pe: "p = a + sz us" "e = p + j" using u p e by simp_all
  have c3: "chunks m3 0 a 0 cs" using c m(2) e by (auto intro: chunks_keep)
  show ?thesis using c3 h n u pe by (simp add: chunks_append m(1))
qed (use assms in simp)

lemma fill_chunk_spec:
  assumes h: "holds t ps st tp m" and c: "chunks m 0 HS 0 cs"
    and a: "a = HS + sz cs" and p: "p = before 0 HS cs" and n: "12 \<le> n" and tp: "a + n \<le> tp"
  shows "\<exists>t' m'. fill_chunk (of_nat a) (of_nat p) (of_nat n) t = Inr t' \<and> holds t' ps st tp m' \<and>
    chunks m' 0 HS 0 (cs @ [(n, False)]) \<and> (\<forall>x. m' x = m x \<or> x \<in> hdrs HS cs \<or> a \<le> x)"
proof -
  have wa: "within tp a" using a n tp by simp
  define w where "w = nld m (a + 8)"
  define m4 where "m4 = nst (nst (nst (nst m a (of_nat p)) (a + 4) 0) (a + 8) (wtag (drop_bit 1 w) False)) (a + 8) (tag n False)"
  define m5 where "m5 = (if cs = [] then m4 else nst m4 (p + 4) (of_nat a))"
  have tg: "nld (nst (nst m a (of_nat p)) (a + 4) 0) (a + 8) = wtag (drop_bit 1 w) (bit w 0)"
    unfolding w_def by (subst wtag_any [symmetric]) simp
  have tail: "\<exists>t'. (if (of_nat p :: u32) \<noteq> 0 then set_next (of_nat p) (of_nat a) s else Inr s) = Inr t' \<and> holds t' ps st tp m5"
    if s: "holds s ps st tp m4" for s
  proof (cases "cs = []")
    case True
    then show ?thesis using s p by (simp add: m5_def)
  next
    case False
    then have wp: "within tp p" using before_hdr [OF c False p] a tp by auto
    then have "(of_nat p :: u32) \<noteq> 0" using holdsD(5) [OF h] by (intro of_nat_nonnull) auto
    then show ?thesis using holds_set_last(2) [OF s wp, of "of_nat a"] False by (auto simp: m5_def)
  qed
  have "\<exists>t'. fill_chunk (of_nat a) (of_nat p) (of_nat n) t = Inr t' \<and> holds t' ps st tp m5"
    unfolding fill_chunk_def
    apply (rule seq_set(1) [OF h wa])
    apply (rule seq_set(2), assumption, rule wa)
    apply (rule seq_set(3), assumption, rule wa, rule tg)
    apply (rule seq_set(4), assumption, rule wa, rule nld_nst)
    apply (rule tail, unfold m4_def, assumption)
    done
  moreover have "chunks m5 0 HS 0 (cs @ [(n, False)])"
    by (rule chunks_snoc [OF c p a n m5_def]) (simp_all add: m4_def nst_other)
  moreover have "m5 x = m x \<or> x \<in> hdrs HS cs \<or> a \<le> x" for x
  proof (cases "cs \<noteq> [] \<and> x \<in> {p..<p + 12}")
    case True
    then show ?thesis using before_hdr(3) [OF c _ p] by blast
  next
    case False
    then show ?thesis by (auto simp: m5_def m4_def nst_other)
  qed
  ultimately show ?thesis by blast
qed

section \<open>The heap\<close>

definition heap :: "hp \<Rightarrow> u32 list \<Rightarrow> chunk list \<Rightarrow> bool" where
  "heap s ps cs \<longleftrightarrow>
     (\<exists>m. holds s ps (if cs = [] then 0 else HEAP_START) (up (HS + sz cs)) m \<and> chunks m 0 HS 0 cs) \<and> tidy cs"

lemma heapE:
  assumes "heap s ps cs"
  obtains m where "holds s ps (if cs = [] then 0 else HEAP_START) (up (HS + sz cs)) m" "chunks m 0 HS 0 cs" "tidy cs" "sized cs"
    "HS + sz cs \<le> up (HS + sz cs)"
  using assms chunks_sized up_bounds(1) unfolding heap_def by blast

text \<open>The bytes of the blocks \<open>L\<close> keep their values.\<close>

definition unchanged :: "('s \<Rightarrow> nat \<Rightarrow> u8) \<Rightarrow> (nat \<times> nat) set \<Rightarrow> 's \<Rightarrow> 's \<Rightarrow> bool" where
  "unchanged rd L s s' \<longleftrightarrow> (\<forall>(b, k) \<in> L. \<forall>x. b \<le> x \<and> x < b + k \<longrightarrow> rd s' x = rd s x)"

lemma unchanged_refl: "unchanged rd L s s"
  by (auto simp: unchanged_def)

lemma unchanged_trans: "unchanged rd L s s' \<Longrightarrow> unchanged rd M s' s'' \<Longrightarrow> M \<subseteq> L \<Longrightarrow> unchanged rd M s s''"
  unfolding unchanged_def by (auto simp: subset_iff split_beta)

definition vbyte :: "hp \<Rightarrow> nat \<Rightarrow> u8" where
  "vbyte s x = view s (of_nat x)"

abbreviation same_bytes :: "(nat \<times> nat) set \<Rightarrow> hp \<Rightarrow> hp \<Rightarrow> bool" where
  "same_bytes \<equiv> unchanged vbyte"

lemma same_bytesI:
  assumes h: "holds s ps st tp m" "holds s' ps' st' tp' m'" and L: "sized cs" "L \<subseteq> live HS cs" "HS + sz cs \<le> tp" "HS + sz cs \<le> tp'"
    and m: "\<And>b k x. (b, k) \<in> L \<Longrightarrow> b \<le> x \<Longrightarrow> x < b + k \<Longrightarrow> m' x = m x"
  shows "same_bytes L s s'"
  unfolding unchanged_def vbyte_def
proof (clarify)
  fix b k x
  assume bk: "(b, k) \<in> L" and x: "b \<le> x" "x < b + k"
  then have "HS + 12 \<le> b" "b + k \<le> HS + sz cs" using live_bounds [OF L(1), of b k HS] L(2) by blast+
  then have "HS \<le> x" "x < tp" "x < tp'" using x L(3,4) by simp_all
  then show "view s' (of_nat x) = view s (of_nat x)" using holdsD(6) [OF h(1)] holdsD(6) [OF h(2)] m [OF bk x] by simp
qed

section \<open>Allocation\<close>

lemma holds_start:
  assumes "holds s ps st tp m"
  shows "holds (s\<lparr>heap_start := x\<rparr>) ps x tp m"
proof -
  have eq: "inh (s\<lparr>heap_start := x\<rparr>) = inh s" "hframe (s\<lparr>heap_start := x\<rparr>) = hframe s" "view (s\<lparr>heap_start := x\<rparr>) = view s"
    by (simp_all add: fun_eq_iff inh_def hframe_def view_def)
  have eq': "hmm (s\<lparr>heap_start := x\<rparr>) = hmm s" "hdir (s\<lparr>heap_start := x\<rparr>) = hdir s"
    "heap_top (s\<lparr>heap_start := x\<rparr>) = heap_top s" "heap_start (s\<lparr>heap_start := x\<rparr>) = x" by simp_all
  have "region (s\<lparr>heap_start := x\<rparr>) ps = region s ps" unfolding region_def eq eq' ..
  then show ?thesis using assms unfolding holds_def eq eq' by blast
qed

lemma kmalloc_fit:
  assumes h: "heap s ps cs" and n: "n0 + 12 = n" "n < 2147483648"
    and cs: "cs = xs @ (l, True) # ys" "n \<le> l" "seek n 0 HS cs = Inr (HS + sz xs)"
  shows "\<exists>s'. kmalloc (of_nat n0) s = Inr (of_nat (HS + sz xs + 12), s') \<and> heap s' ps (xs @ carve False n l @ ys) \<and>
    same_bytes (live HS cs) s s'"
proof -
  obtain m where m: "holds s ps (if cs = [] then 0 else HEAP_START) (up (HS + sz cs)) m" "chunks m 0 HS 0 cs" "tidy cs" "sized cs"
    "HS + sz cs \<le> up (HS + sz cs)" using h by (rule heapE)
  obtain k zs where ys: "ys = (k, False) # zs" using m(3) unfolding cs(1) by (rule tidy_free)
  define a where "a = HS + sz xs"
  have st: "(if cs = [] then 0 else HEAP_START) = HEAP_START" using cs(1) by simp
  note h0 = m(1) [unfolded st]
  have find: "search_loop (of_nat n) 0 (heap_start s) s = Some (Inr (Fit (of_nat a)))"
    using search_loop_spec [OF m(1,2) order_refl m(5), of n] n cs(1,3) holdsD(2) [OF m(1)] by (simp add: a_def)
  have c: "chunks m 0 HS 0 (xs @ (l, True) # (k, False) # zs)" using m(2) by (simp add: cs(1) ys)
  have b: "a + l + k \<le> up (HS + sz cs)" using m(5) by (simp add: cs(1) ys a_def)
  obtain t1 m1 where s1: "split_chunk (of_nat a) (of_nat n) s = Inr t1" "holds t1 ps HEAP_START (up (HS + sz cs)) m1"
    "chunks m1 0 HS 0 (xs @ carve True n l @ ys)"
    "\<forall>x. m1 x = m x \<or> x \<in> {a..<a + 12} \<union> {a + n..<a + l} \<union> {a + l..<a + l + 12}"
    using split_chunk_spec [OF h0 c a_def b _ cs(2)] n(1) by (auto simp: ys)
  obtain j us where j: "\<And>f. carve f n l = (j, f) # us" "12 \<le> j" using carve_Cons [of n l] n(1) cs(2) by auto
  have t: "nld m1 (a + 8) = tag j True" using s1(3) by (simp add: j chunks_append a_def)
  have w: "within (up (HS + sz cs)) a" using b m(4) by (simp add: a_def cs(1))
  obtain t2 where s2: "set_free (of_nat a) False t1 = Inr t2"
    "holds t2 ps HEAP_START (up (HS + sz cs)) (nst m1 (a + 8) (tag j False))"
    using holds_set_last(3) [OF s1(2) w t, of False] by blast
  have c2: "chunks (nst m1 (a + 8) (tag j False)) 0 HS 0 (xs @ carve False n l @ ys)"
    using s1(3) chunks_flag [of m1 0 HS 0 xs j True "us @ ys" False] by (simp add: j a_def)
  have "sz (xs @ carve False n l @ ys) = sz cs" "xs @ carve False n l @ ys \<noteq> []" using cs(2) by (simp_all add: cs(1) j(1) carve_def)
  then have "heap t2 ps (xs @ carve False n l @ ys)"
    using s2(2) c2 tidy_carve [OF m(3) [unfolded cs(1)]] unfolding heap_def by auto
  moreover have "same_bytes (live HS cs) s t2"
  proof (rule same_bytesI [OF m(1) s2(2) m(4) order_refl m(5,5)])
    fix b k' x
    assume bk: "(b, k') \<in> live HS cs" and x: "b \<le> x" "x < b + k'"
    have "(b, k') \<in> live HS xs \<or> (b, k') \<in> live (a + l) ys" using bk by (simp add: cs(1) a_def)
    then have "x < a \<or> a + l + 12 \<le> x"
      using live_bounds [of xs b k' HS] live_bounds [of ys b k' "a + l"] m(4) x by (auto simp: cs(1) a_def)
    then show "nst m1 (a + 8) (tag j False) x = m x" using s1(4) [rule_format, of x] cs(2) m(4) by (auto simp: nst_other cs(1))
  qed
  moreover have "kmalloc (of_nat n0) s = Inr (of_nat (a + 12), t2)"
  proof -
    have "of_nat n0 + HEAD = (of_nat n :: u32)" unfolding n(1) [symmetric] by simp
    then show ?thesis using find s1(1) s2(1) by (simp add: kmalloc_def Let_def ended_def add.commute)
  qed
  ultimately show ?thesis by (intro exI [of _ t2]) (simp only: a_def)
qed

lemma kmalloc_none:
  assumes h: "heap s ps cs" and n: "n0 + 12 = n" and none: "seek n 0 HS cs = Inl (before 0 HS cs)"
    and lim: "up (HS + sz cs + n) \<le> 4294959104" and pages: "up (HS + sz cs) + 2048 * length ps \<ge> up (HS + sz cs + n)"
  shows "\<exists>s' qs. kmalloc (of_nat n0) s = Inr (of_nat (HS + sz cs + 12), s') \<and> heap s' qs (cs @ [(n, False)]) \<and>
    same_bytes (live HS cs) s s'"
proof -
  obtain m where m: "holds s ps (if cs = [] then 0 else HEAP_START) (up (HS + sz cs)) m" "chunks m 0 HS 0 cs" "tidy cs" "sized cs"
    "HS + sz cs \<le> up (HS + sz cs)" using h by (rule heapE)
  define a where "a = HS + sz cs"
  define p where "p = before 0 HS cs"
  obtain k where k: "up (a + n) = up a + 4096 * k" using up_steps [of a "a + n"] by auto
  have small: "n < 2147483648" "a + n < 4294967296" using lim up_bounds(1) [of "a + n"] by (simp_all add: a_def)
  have nn: "of_nat n0 + HEAD = (of_nat n :: u32)" unfolding n [symmetric] by simp
  have find: "search_loop (of_nat n) 0 (heap_start s) s = Some (Inr (Last (of_nat p)))"
    using search_loop_spec [OF m(1,2) order_refl m(5), of n] small none holdsD(2) [OF m(1)] by (simp add: p_def split: if_splits)
  define s1 where "s1 = (if cs = [] then s\<lparr>heap_start := HEAP_START\<rparr> else s)"
  have s1: "bnd (if (of_nat p :: u32) \<noteq> 0 then bnd (get_len (of_nat p) s) (\<lambda>l. Inr (of_nat p + l, s))
      else Inr (HEAP_START, s\<lparr>heap_start := HEAP_START\<rparr>)) f = f (of_nat a, s1)" for f :: "u32 \<times> hp \<Rightarrow> (u32 \<times> hp) res"
  proof (cases "cs = []")
    case False
    note b = before_hdr [OF m(2) False p_def]
    have "within (up (HS + sz cs)) p" using b m(5) by simp
    moreover have "(of_nat p :: u32) \<noteq> 0" using b small by (intro of_nat_nonnull) (simp_all add: a_def)
    moreover obtain us j g where u: "cs = us @ [(j, g)]" using False by (metis rev_exhaust surj_pair)
    moreover have "nld m (p + 8) = tag j g" "p + j = a" "j < 2147483648"
      using m(2) u small by (simp_all add: chunks_append p_def a_def)
    ultimately show ?thesis using holds_get(4) [OF m(1), of p j g] False by (simp add: s1_def flip: of_nat_add)
  qed (simp add: p_def s1_def a_def)
  have h1: "holds s1 ps HEAP_START (up a) m" using m(1) holds_start by (auto simp: s1_def a_def)
  have pg: "2 * k \<le> length ps" "up (a + n) \<le> 4294959104" using lim pages k by (simp_all add: a_def)
  obtain s2 qs m2 where s2: "alloc_loop (of_nat a) (of_nat n) s1 = Some (Inr s2)" "holds s2 qs HEAP_START (up (a + n)) m2"
    "\<forall>x < up a. m2 x = m x"
    using alloc_loop_spec [OF h1 k [symmetric] pg] by blast
  have c2: "chunks m2 0 HS 0 cs" by (rule chunks_keep [OF m(2)]) (use m(5) s2(3) in \<open>simp add: a_def\<close>)
  have n12: "12 \<le> n" using n by simp
  obtain s3 m3 where s3: "fill_chunk (of_nat a) (of_nat p) (of_nat n) s2 = Inr s3" "holds s3 qs HEAP_START (up (a + n)) m3"
    "chunks m3 0 HS 0 (cs @ [(n, False)])" "\<forall>x. m3 x = m2 x \<or> x \<in> hdrs HS cs \<or> a \<le> x"
    using fill_chunk_spec [OF s2(2) c2 a_def p_def n12 up_bounds(1)] by blast
  have "tidy (cs @ [(n, False)])" using m(3) by (simp add: tidy_def successively_append_iff)
  moreover have "up (HS + sz (cs @ [(n, False)])) = up (a + n)" by (simp add: a_def add.assoc)
  ultimately have "heap s3 qs (cs @ [(n, False)])"
    using s3(2,3) unfolding heap_def by (intro conjI exI [of _ m3]) simp_all
  moreover have "same_bytes (live HS cs) s s3"
  proof (rule same_bytesI [OF m(1) s3(2) m(4) order_refl m(5)])
    show "HS + sz cs \<le> up (a + n)" using up_bounds(1) [of "a + n"] by (simp add: a_def)
    fix b k' x
    assume bk: "(b, k') \<in> live HS cs" and x: "b \<le> x" "x < b + k'"
    have "x < a" using live_bounds [OF m(4) bk] x by (simp add: a_def)
    moreover have "x \<notin> hdrs HS cs" using live_off_hdrs [OF m(4) bk, of x] x by auto
    ultimately show "m3 x = m x" using s3(4) [rule_format, of x] s2(3) [rule_format, of x] m(5) by (auto simp: a_def)
  qed
  moreover have "kmalloc (of_nat n0) s = Inr (of_nat (a + 12), s3)"
    unfolding kmalloc_def Let_def nn ended_def find using s1 s2(1) s3(1)
    by (simp add: alloc_chunk_def ended_def add.commute)
  ultimately show ?thesis by (intro exI [of _ s3] exI [of _ qs]) (simp only: a_def)
qed

section \<open>Release\<close>

text \<open>\<open>touched m m' S\<close>: outside of the bytes \<open>S\<close> nothing has changed.\<close>

definition touched :: "cells \<Rightarrow> cells \<Rightarrow> nat set \<Rightarrow> bool" where
  "touched m m' S \<longleftrightarrow> (\<forall>x. x \<notin> S \<longrightarrow> m' x = m x)"

lemma touched_refl [simp]: "touched m m S"
  by (simp add: touched_def)

lemma touched_nst:
  assumes "touched m m' S" and "{a..<a + 4} \<subseteq> S"
  shows "touched m (nst m' a w) S"
  unfolding touched_def
proof (intro allI impI)
  fix x
  assume x: "x \<notin> S"
  then have "\<not> (a \<le> x \<and> x < a + 4)" using subsetD [OF assms(2), of x] by auto
  then have "x < a \<or> a + 4 \<le> x" by linarith
  then show "nst m' a w x = m x" using x assms(1) by (simp add: touched_def nst_other)
qed

lemma touched_hdr:
  assumes "touched m m' S" and "{b..<b + 12} \<subseteq> S"
  shows "touched m (nst m' b w) S" and "touched m (nst m' (b + 4) w) S" and "touched m (nst m' (b + 8) w) S"
  by (rule touched_nst [OF assms(1)], rule order_trans [OF _ assms(2)], force)+

fun join :: "nat \<Rightarrow> chunk list \<Rightarrow> nat \<times> chunk list" where
  "join l ((k, True) # ys) = (l + k, ys)"
| "join l ys = (l, ys)"

lemma glue_right_spec:
  assumes h: "holds t ps st tp m" and c: "chunks m 0 HS 0 (xs @ (l, f) # ys)" and a: "a = HS + sz xs"
    and tp: "a + l + sz ys \<le> tp" and last: "ys \<noteq> [] \<Longrightarrow> \<not> snd (last ys)" and j: "join l ys = (l', ys')"
  shows "\<exists>t' m'. glue_right (of_nat a) t = Inr t' \<and> holds t' ps st tp m' \<and> chunks m' 0 HS 0 (xs @ (l', f) # ys') \<and>
    touched m m' (hdrs HS (xs @ (l, f) # ys))"
proof (cases "\<exists>k zs. ys = (k, True) # zs")
  case False
  have wa: "within tp a" using c a tp by (auto simp: chunks_append)
  have nx: "nld m (a + 4) = of_nat (if ys = [] then 0 else a + l)" using c by (simp add: chunks_append a)
  have "join l ys = (l, ys)" using False by (cases "(l, ys)" rule: join.cases) auto
  moreover have "glue_right (of_nat a) t = Inr t"
  proof (cases ys)
    case (Cons y zs)
    then obtain k where y: "ys = (k, False) # zs" using False by (cases y) auto
    have wd: "within tp (a + l)" and d0: "(of_nat (a + l) :: u32) \<noteq> 0" and tg: "nld m (a + l + 8) = tag k False"
      using c a tp y holdsD(5) [OF h] of_nat_nonnull [of "a + l"] by (auto simp: chunks_append)
    show ?thesis using holds_get(2) [OF h wa] holds_get(3) [OF h wd tg] d0 nx y by (simp add: glue_right_def)
  qed (use holds_get(2) [OF h wa] nx in \<open>simp add: glue_right_def\<close>)
  ultimately show ?thesis using h c j by (intro exI [of _ t] exI [of _ m]) simp
next
  case True
  then obtain k zs where y: "ys = (k, True) # zs" by blast
  then obtain i g us where z: "zs = (i, g) # us" using last by (cases zs) auto
  define d where "d = a + l"
  define e where "e = d + k"
  have cc: "chunks m 0 HS a xs" "nld m a = of_nat (before 0 HS xs)" "nld m (a + 4) = of_nat d" "nld m (a + 8) = tag l f" "12 \<le> l"
    "nld m d = of_nat a" "nld m (d + 4) = of_nat e" "nld m (d + 8) = tag k True" "12 \<le> k"
    "nld m e = of_nat d" "nld m (e + 4) = of_nat (if us = [] then 0 else e + i)" "nld m (e + 8) = tag i g" "12 \<le> i"
    "chunks m e (e + i) 0 us"
    using c by (simp_all add: chunks_append a y z d_def e_def)
  have o: "a + 12 \<le> d" "d + 12 \<le> e" "HS + sz xs = a" using cc by (simp_all add: d_def e_def a)
  have w: "within tp a" "within tp d" "within tp e" and lim: "l < 2147483648" "k < 2147483648"
    using tp o cc(13) holdsD(5) [OF h] by (auto simp: y z d_def e_def)
  have d0: "(of_nat d :: u32) \<noteq> 0" using w(2) holdsD(5) [OF h] by (intro of_nat_nonnull) auto
  define m' where "m' = nst (nst (nst m (a + 8) (tag (l + k) f)) e (of_nat a)) (a + 4) (of_nat e)"
  have "\<exists>t'. glue_right (of_nat a) t = Inr t' \<and> holds t' ps st tp m'"
    unfolding glue_right_def m'_def
    apply (rule seq_get(2) [OF h w(1) cc(3)], simp only: d0 if_False)
    apply (rule seq_get(3) [OF h w(2) cc(8)], simp only: if_False simp_thms)
    apply (rule seq_get(4) [OF h w(1) cc(4) lim(1)])
    apply (rule seq_get(4) [OF h w(2) cc(8) lim(2)])
    apply (simp only: of_nat_add [symmetric])
    apply (rule seq_set(4) [OF h w(1) cc(4)])
    apply (rule seq_get(2) [where w = "of_nat e"], assumption, rule w(2))
    using o cc(7) apply simp
    apply (rule seq_set(1), assumption, rule w(3))
    apply (rule holds_set_last(2) [OF _ w(1)], assumption)
    done
  moreover have "chunks m' 0 HS 0 (xs @ (l + k, f) # zs)"
  proof -
    have "chunks m' 0 HS a xs" "chunks m' e (e + i) 0 us" using cc(1,13,14) o by (simp_all add: m'_def)
    moreover have "nld m' a = of_nat (before 0 HS xs)" "nld m' (a + 4) = of_nat e" "nld m' (a + 8) = tag (l + k) f"
      "nld m' e = of_nat a" "nld m' (e + 4) = of_nat (if us = [] then 0 else e + i)" "nld m' (e + 8) = tag i g"
      using o cc by (simp_all add: m'_def)
    moreover have "a + (l + k) = e" by (simp add: d_def e_def)
    ultimately show ?thesis using o cc(5,13) by (simp add: chunks_append z)
  qed
  moreover have "touched m m' (hdrs HS (xs @ (l, f) # ys))"
    unfolding m'_def using o(3) by (intro touched_nst touched_refl) (auto simp: y z d_def e_def)
  ultimately show ?thesis using j by (auto simp: y)
qed

fun join_left :: "chunk list \<Rightarrow> nat \<Rightarrow> chunk list \<times> nat" where
  "join_left xs l = (if xs \<noteq> [] \<and> snd (last xs) then (butlast xs, fst (last xs) + l) else (xs, l))"

lemma glue_left_spec:
  assumes h: "holds t ps st tp m" and c: "chunks m 0 HS 0 (xs @ (l, True) # ys)" and a: "a = HS + sz xs"
    and tp: "a + l + sz ys \<le> tp" and j: "join_left xs l = (xs', l')"
  shows "\<exists>t' m'. glue_left (of_nat a) t = Inr (of_nat (HS + sz xs'), t') \<and> holds t' ps st tp m' \<and>
    chunks m' 0 HS 0 (xs' @ (l', True) # ys) \<and> touched m m' (hdrs HS (xs @ (l, True) # ys))"
proof (cases "\<exists>us k. xs = us @ [(k, True)]")
  case False
  have wa: "within tp a" using c a tp by (auto simp: chunks_append)
  have pr: "nld m a = of_nat (before 0 HS xs)" using c by (simp add: chunks_append a)
  have "join_left xs l = (xs, l)"
  proof (rule ccontr)
    assume "join_left xs l \<noteq> (xs, l)"
    then have "xs \<noteq> []" "snd (last xs)" by (auto split: if_splits)
    then have "xs = butlast xs @ [(fst (last xs), True)]" by (metis append_butlast_last_id prod.collapse)
    then show False using False by blast
  qed
  moreover have "glue_left (of_nat a) t = Inr (of_nat a, t)"
  proof (cases xs rule: rev_cases)
    case (snoc us x)
    then obtain k where y: "xs = us @ [(k, False)]" using False by (cases x) auto
    have wp: "within tp (HS + sz us)" and tg: "nld m (HS + sz us + 8) = tag k False"
      using c a tp by (auto simp: chunks_append y)
    have pp: "nld m a = of_nat (HS + sz us)" using pr by (simp add: y)
    have p0: "(of_nat (HS + sz us) :: u32) \<noteq> 0" using wp holdsD(5) [OF h] by (intro of_nat_nonnull) auto
    show ?thesis
      using holds_get(1) [OF h wa] holds_get(3) [OF h wp tg] p0 pp by (simp add: glue_left_def)
  qed (use holds_get(1) [OF h wa] pr in \<open>simp add: glue_left_def\<close>)
  ultimately show ?thesis using h c j by (intro exI [of _ t] exI [of _ m]) (simp add: a)
next
  case True
  then obtain us k where x: "xs = us @ [(k, True)]" by blast
  define p where "p = HS + sz us"
  define d where "d = a + l"
  have cc: "chunks m 0 HS p us" "nld m p = of_nat (before 0 HS us)" "nld m (p + 4) = of_nat a" "nld m (p + 8) = tag k True" "12 \<le> k"
    "nld m a = of_nat p" "nld m (a + 4) = of_nat (if ys = [] then 0 else d)" "nld m (a + 8) = tag l True" "12 \<le> l"
    "chunks m a d 0 ys"
    using c by (simp_all add: chunks_append a x d_def p_def add.assoc)
  have o: "p + 12 \<le> a" "a + 12 \<le> d" "HS + sz us = p" "p + k = a" using cc by (simp_all add: d_def p_def a x)
  have sy: "ys \<noteq> [] \<Longrightarrow> 12 \<le> sz ys" using chunks_sized [OF cc(10)] by (cases ys) simp_all
  have pa: "HS \<le> p" "d + sz ys \<le> tp" "tp < 4294967296" using tp holdsD(5) [OF h] by (simp_all add: p_def d_def)
  have w: "within tp a" "within tp p" "ys \<noteq> [] \<Longrightarrow> within tp d" using pa o sy by simp_all
  have lim: "l < 2147483648" "k < 2147483648" using pa o by (simp_all add: d_def)
  have p0: "(of_nat p :: u32) \<noteq> 0" using w(2) holdsD(5) [OF h] by (intro of_nat_nonnull) auto
  define m2 where "m2 = nst (nst m (p + 8) (tag (k + l) True)) (p + 4) (of_nat (if ys = [] then 0 else d))"
  define m' where "m' = (if ys = [] then m2 else nst m2 d (of_nat p))"
  have tail: "\<exists>r. bnd (if (of_nat (if ys = [] then 0 else d) :: u32) = 0 then Inr s else set_prev (of_nat (if ys = [] then 0 else d)) (of_nat p) s)
      (\<lambda>s. Inr (of_nat p, s)) = Inr r \<and> (fst r = of_nat p \<and> holds (snd r) ps st tp m')" if s: "holds s ps st tp m2" for s
  proof (cases "ys = []")
    case False
    then have "(of_nat d :: u32) \<noteq> 0" using w(3) holdsD(5) [OF h] by (intro of_nat_nonnull) auto
    then show ?thesis using False holds_set_last(1) [OF s w(3) [OF False], of "of_nat p"] by (auto simp: m'_def)
  qed (use s in \<open>simp add: m'_def\<close>)
  have "\<exists>r. glue_left (of_nat a) t = Inr r \<and> (fst r = of_nat p \<and> holds (snd r) ps st tp m')"
    unfolding glue_left_def
    apply (rule seq_get(1) [OF h w(1) cc(6)], simp only: p0 if_False)
    apply (rule seq_get(3) [OF h w(2) cc(4)], simp only: if_False simp_thms)
    apply (rule seq_get(4) [OF h w(2) cc(4) lim(2)])
    apply (rule seq_get(4) [OF h w(1) cc(8) lim(1)])
    apply (simp only: of_nat_add [symmetric])
    apply (rule seq_set(4) [OF h w(2) cc(4)])
    apply (rule seq_get(2) [where w = "of_nat (if ys = [] then 0 else d)"], assumption, rule w(1))
    using o cc(7) apply simp
    apply (rule seq_set(2), assumption, rule w(2))
    apply (rule tail, unfold m2_def, assumption)
    done
  moreover have "chunks m' 0 HS 0 (us @ (k + l, True) # ys)"
  proof -
    have "chunks m' p d 0 ys"
    proof (cases ys)
      case (Cons y zs)
      then show ?thesis using cc(10) o by (cases y) (simp add: m'_def m2_def)
    qed simp
    moreover have "chunks m' 0 HS p us" using cc(1) o by (simp add: m'_def m2_def)
    moreover have "nld m' p = of_nat (before 0 HS us)" "nld m' (p + 4) = of_nat (if ys = [] then 0 else d)" "nld m' (p + 8) = tag (k + l) True"
      using o cc by (simp_all add: m'_def m2_def)
    moreover have "p + (k + l) = d" using o by (simp add: d_def)
    ultimately show ?thesis using o cc(5) by (simp add: chunks_append)
  qed
  moreover have "touched m m' (hdrs HS (xs @ (l, True) # ys))"
  proof -
    have "{p..<p + 12} \<subseteq> hdrs HS (xs @ (l, True) # ys)" by (auto simp: x p_def)
    moreover have "ys \<noteq> [] \<Longrightarrow> {d..<d + 12} \<subseteq> hdrs HS (xs @ (l, True) # ys)" by (auto simp: d_def a neq_Nil_conv)
    ultimately show ?thesis unfolding m'_def m2_def by (cases "ys = []") (simp_all only: if_True if_False simp_thms touched_hdr touched_refl)
  qed
  ultimately show ?thesis using j by (auto simp: x p_def)
qed

lemma chunks_last_next:
  assumes c: "chunks m 0 HS e cs" and ne: "cs \<noteq> []" and p: "p = before 0 HS cs"
  shows "chunks (nst m (p + 4) (of_nat e')) 0 HS e' cs"
proof -
  obtain us j g where u: "cs = us @ [(j, g)]" using ne by (metis rev_exhaust surj_pair)
  then show ?thesis using c p by (simp add: chunks_append)
qed

lemma free_chunk_spec:
  assumes h: "holds t ps HEAP_START (up (a + l)) m" and c: "chunks m 0 HS 0 (xs @ [(l, f)])" and a: "a = HS + sz xs"
  shows "\<exists>t' qs m'. free_chunk (of_nat a) t = Inr t' \<and> holds t' qs (if xs = [] then 0 else HEAP_START) (up a) m' \<and>
    chunks m' 0 HS 0 xs \<and> touched m m' (hdrs HS (xs @ [(l, f)])) \<and> length ps \<le> length qs"
proof -
  define p where "p = before 0 HS xs"
  have cc: "chunks m 0 HS a xs" "nld m a = of_nat p" "12 \<le> l" using c by (simp_all add: chunks_append a p_def)
  have wa: "within (up (a + l)) a" using cc(3) up_bounds(1) [of "a + l"] by (simp add: a)
  have "HS \<le> a" by (simp add: a)
  obtain k where k: "up (a + l) = up a + 4096 * k" using up_steps [of a "a + l"] by auto
  define m1 where "m1 = (if xs = [] then m else nst m (p + 4) (of_nat 0))"
  have c1: "chunks m1 0 HS 0 xs" "touched m m1 (hdrs HS (xs @ [(l, f)]))"
    "\<exists>t1. (if nld m a = 0 then Inr (t\<lparr>heap_start := 0\<rparr>) else set_next (nld m a) 0 t) = Inr t1 \<and>
      holds t1 ps (if xs = [] then 0 else HEAP_START) (up (a + l)) m1"
  proof (atomize (full), cases "xs = []")
    case False
    then obtain us j g where u: "xs = us @ [(j, g)]" by (metis rev_exhaust surj_pair)
    have pu: "p = HS + sz us" "p + j = a" "12 \<le> j" using u cc(1) by (simp_all add: p_def a chunks_append)
    have wp: "within (up (a + l)) p" using wa pu by simp
    then have "(of_nat p :: u32) \<noteq> 0" using holdsD(5) [OF h] by (intro of_nat_nonnull) auto
    then show "chunks m1 0 HS 0 xs \<and> touched m m1 (hdrs HS (xs @ [(l, f)])) \<and>
      (\<exists>t1. (if nld m a = 0 then Inr (t\<lparr>heap_start := 0\<rparr>) else set_next (nld m a) 0 t) = Inr t1 \<and>
      holds t1 ps (if xs = [] then 0 else HEAP_START) (up (a + l)) m1)"
      using holds_set_last(2) [OF h wp, of 0] cc(2) False chunks_last_next [OF cc(1) False p_def, of 0]
        touched_hdr(2) [OF touched_refl, of p "hdrs HS (xs @ [(l, f)])" m 0] u pu(1)
      by (auto simp: m1_def)
  qed (use holds_start [OF h, of 0] cc(2) in \<open>simp add: m1_def p_def\<close>)
  then obtain t1 where t1: "(if nld m a = 0 then Inr (t\<lparr>heap_start := 0\<rparr>) else set_next (nld m a) 0 t) = Inr t1"
    "holds t1 ps (if xs = [] then 0 else HEAP_START) (up a + 4096 * k) m1" unfolding k by blast
  obtain t2 qs where t2: "free_loop (of_nat a) t1 = Some (Inr t2)" "holds t2 qs (if xs = [] then 0 else HEAP_START) (up a) m1"
    "length qs = length ps + k" using free_loop_spec [OF t1(2) \<open>HS \<le> a\<close>] by blast
  have "free_chunk (of_nat a) t = Inr t2"
    using holds_get(1) [OF h wa] t1(1) t2(1) by (simp add: free_chunk_def ended_def)
  then show ?thesis using t2(2,3) c1(1,2) by (intro exI [of _ t2] exI [of _ qs] exI [of _ m1]) simp
qed

text \<open>What is left of the list when the chunk of length \<open>l\<close> between \<open>xs\<close> and \<open>ys\<close> is released.\<close>

definition release :: "chunk list \<Rightarrow> nat \<Rightarrow> chunk list \<Rightarrow> chunk list" where
  "release xs l ys =
     (case join l ys of (l1, ys1) \<Rightarrow> case join_left xs l1 of (xs1, l2) \<Rightarrow> if ys1 = [] then xs1 else xs1 @ (l2, True) # ys1)"

lemma join_facts:
  assumes "join l ys = (l', ys')"
  shows "l' + sz ys' = l + sz ys" and "hdrs (a + l') ys' \<subseteq> hdrs (a + l) ys" and "live (a + l') ys' = live (a + l) ys" and "l \<le> l'"
  using assms by (cases "(l, ys)" rule: join.cases; auto simp: add.assoc)+

lemma join_left_facts:
  assumes "join_left xs l = (xs', l')"
  shows "sz xs' + l' = sz xs + l" and "live a xs' = live a xs"
    and "hdrs a xs' \<union> {a + sz xs'..<a + sz xs' + 12} \<subseteq> hdrs a xs \<union> {a + sz xs..<a + sz xs + 12}"
proof -
  have "sz xs' + l' = sz xs + l \<and> live a xs' = live a xs \<and>
    hdrs a xs' \<union> {a + sz xs'..<a + sz xs' + 12} \<subseteq> hdrs a xs \<union> {a + sz xs..<a + sz xs + 12}"
  proof (cases xs rule: rev_cases)
    case (snoc us x)
    then show ?thesis using assms by (cases x) (auto split: if_splits)
  qed (use assms in simp)
  then show "sz xs' + l' = sz xs + l" "live a xs' = live a xs"
    "hdrs a xs' \<union> {a + sz xs'..<a + sz xs' + 12} \<subseteq> hdrs a xs \<union> {a + sz xs..<a + sz xs + 12}" by blast+
qed

lemma tidy_join:
  assumes "tidy (xs @ (l, False) # ys)" and "join l ys = (l1, ys1)"
  shows "tidy (xs @ (l1, False) # ys1)" and "ys1 \<noteq> [] \<Longrightarrow> \<not> snd (hd ys1)" and "ys1 = [] \<longleftrightarrow> ys = []"
  using assms by (cases "(l, ys)" rule: join.cases;
    auto simp: tidy_def successively_append_iff successively_Cons neq_Nil_conv split: if_splits)+

lemma tidy_join_left:
  assumes "tidy (xs @ (l, False) # ys)" and "ys \<noteq> [] \<Longrightarrow> \<not> snd (hd ys)" and "join_left xs l = (xs1, l1)"
  shows "tidy (if ys = [] then xs1 else xs1 @ (l1, True) # ys)"
proof (cases xs rule: rev_cases)
  case (snoc us x)
  then show ?thesis using assms
    by (cases "snd x"; cases us rule: rev_cases)
      (auto simp: tidy_def successively_append_iff successively_Cons butlast_append split: if_splits)
qed (use assms in \<open>auto simp: tidy_def successively_Cons split: if_splits\<close>)

lemma tidy_release:
  assumes "tidy (xs @ (l, False) # ys)"
  shows "tidy (release xs l ys)"
proof -
  obtain l1 ys1 xs1 l2 where j: "join l ys = (l1, ys1)" "join_left xs l1 = (xs1, l2)" by (metis surj_pair)
  show ?thesis
    using tidy_join_left [OF tidy_join(1,2) [OF assms j(1)] j(2)] j by (simp add: release_def del: join_left.simps)
qed

lemma live_release:
  assumes "sized (xs @ (l, False) # ys)"
  shows "live a (release xs l ys) = live a (xs @ (l, False) # ys) - {(a + sz xs + 12, l - 12)}"
proof -
  obtain l1 ys1 xs1 l2 where j: "join l ys = (l1, ys1)" "join_left xs l1 = (xs1, l2)" by (metis surj_pair)
  have e: "a + sz xs1 + l2 = a + sz xs + l1" using join_left_facts(1) [OF j(2)] by simp
  have "(a + sz xs + 12, l - 12) \<notin> live a xs \<union> live (a + sz xs + l) ys"
    using assms live_bounds [of xs "a + sz xs + 12" "l - 12" a] live_bounds [of ys "a + sz xs + 12" "l - 12" "a + sz xs + l"] by auto
  moreover have "live a (release xs l ys) = live a xs \<union> live (a + sz xs + l) ys"
    using join_left_facts(2) [OF j(2), of a] join_facts(3) [OF j(1), of "a + sz xs"]
    by (cases "ys1 = []") (simp_all add: release_def j e del: join_left.simps)
  ultimately show ?thesis by auto
qed

lemma touched_step: "touched m m1 S \<Longrightarrow> touched m1 m2 S' \<Longrightarrow> S' \<subseteq> S \<Longrightarrow> touched m m2 S"
  by (auto simp: touched_def subset_iff)

lemma kfree_spec:
  assumes h: "heap s ps (xs @ (l, False) # ys)"
  shows "\<exists>s' qs. kfree (of_nat (HS + sz xs + 12)) s = Inr s' \<and> heap s' qs (release xs l ys) \<and>
    same_bytes (live HS (release xs l ys)) s s' \<and> length ps \<le> length qs"
proof -
  let ?cs = "xs @ (l, False) # ys"
  obtain m where m: "holds s ps HEAP_START (up (HS + sz ?cs)) m" "chunks m 0 HS 0 ?cs" "tidy ?cs" "sized ?cs"
    "HS + sz ?cs \<le> up (HS + sz ?cs)" using h by (auto elim: heapE)
  obtain l1 ys1 xs1 l2 where j: "join l ys = (l1, ys1)" "join_left xs l1 = (xs1, l2)" by (metis surj_pair)
  define a where "a = HS + sz xs"
  let ?tp = "up (HS + sz ?cs)" and ?S = "hdrs HS ?cs"
  have wa: "within ?tp a" using m(4,5) by (simp add: a_def)
  have tg: "nld m (a + 8) = tag l False" using m(2) by (simp add: chunks_append a_def)
  obtain t1 where s1: "set_free (of_nat a) True s = Inr t1" "holds t1 ps HEAP_START ?tp (nst m (a + 8) (tag l True))"
    using holds_set_last(3) [OF m(1) wa tg] by blast
  let ?m1 = "nst m (a + 8) (tag l True)"
  have c1: "chunks ?m1 0 HS 0 (xs @ (l, True) # ys)" using chunks_flag [OF m(2), of True] by (simp add: a_def)
  have T1: "touched m ?m1 ?S" by (rule touched_hdr [OF touched_refl]) (auto simp: a_def)
  have b1: "a + l + sz ys \<le> ?tp" using m(5) by (simp add: a_def)
  have last: "\<not> snd (last ys)" if "ys \<noteq> []" using that m(3) by (simp add: tidy_def)
  obtain t2 m2 where s2: "glue_right (of_nat a) t1 = Inr t2" "holds t2 ps HEAP_START ?tp m2" "chunks m2 0 HS 0 (xs @ (l1, True) # ys1)"
    "touched ?m1 m2 ?S"
    using glue_right_spec [OF s1(2) c1 a_def b1 last j(1)] by auto
  have b2: "a + l1 + sz ys1 \<le> ?tp" using join_facts(1) [OF j(1)] b1 by simp
  obtain t3 m3 where s3: "glue_left (of_nat a) t2 = Inr (of_nat (HS + sz xs1), t3)" "holds t3 ps HEAP_START ?tp m3"
    "chunks m3 0 HS 0 (xs1 @ (l2, True) # ys1)" "touched m2 m3 (hdrs HS (xs @ (l1, True) # ys1))"
    using glue_left_spec [OF s2(2,3) a_def b2 j(2)] by blast
  have T3: "touched m m3 ?S"
  proof (rule touched_step [OF touched_step [OF T1 s2(4) order_refl] s3(4)])
    show S1: "hdrs HS (xs @ (l1, True) # ys1) \<subseteq> ?S" using join_facts(2) [OF j(1), of "HS + sz xs"] by auto
  qed
  define b where "b = HS + sz xs1"
  have sz: "b + l2 + sz ys1 = HS + sz ?cs" using join_facts(1) [OF j(1)] join_left_facts(1) [OF j(2)] by (simp add: b_def)
  have c3: "nld m3 (b + 4) = of_nat (if ys1 = [] then 0 else b + l2)" "12 \<le> l2" using s3(3) by (simp_all add: chunks_append b_def)
  have wb: "within ?tp b" using c3(2) sz m(5) by (simp add: b_def)
  have fin: "\<exists>s' qs m4. bnd (get_next (of_nat b) t3) (\<lambda>nx. if nx = 0 then free_chunk (of_nat b) t3 else Inr t3) = Inr s' \<and>
    holds s' qs (if release xs l ys = [] then 0 else HEAP_START) (up (HS + sz (release xs l ys))) m4 \<and>
    chunks m4 0 HS 0 (release xs l ys) \<and> touched m m4 ?S \<and> length ps \<le> length qs"
  proof (cases "ys1 = []")
    case True
    have r: "release xs l ys = xs1" using True j by (simp add: release_def del: join_left.simps)
    have h3: "holds t3 ps HEAP_START (up (b + l2)) m3" using s3(2) sz True by simp
    obtain s' qs m4 where f: "free_chunk (of_nat b) t3 = Inr s'" "holds s' qs (if xs1 = [] then 0 else HEAP_START) (up b) m4"
      "chunks m4 0 HS 0 xs1" "touched m3 m4 (hdrs HS (xs1 @ [(l2, True)]))" "length ps \<le> length qs"
      using free_chunk_spec [OF h3 s3(3) [unfolded True] b_def] by blast
    have "hdrs HS (xs1 @ [(l2, True)]) \<subseteq> ?S" using join_left_facts(3) [OF j(2), of HS] by auto
    then have "touched m m4 ?S" by (rule touched_step [OF T3 f(4)])
    then show ?thesis using f True holds_get(2) [OF s3(2) wb] c3(1) unfolding r b_def [symmetric]
      by (intro exI [of _ s'] exI [of _ qs] exI [of _ m4]) simp
  next
    case False
    have r: "release xs l ys = xs1 @ (l2, True) # ys1" using False j by (simp add: release_def del: join_left.simps)
    have "(of_nat (b + l2) :: u32) \<noteq> 0"
      using sz m(5) holdsD(5) [OF m(1)] by (intro of_nat_nonnull) (simp_all add: b_def)
    moreover have "HS + sz (xs1 @ (l2, True) # ys1) = HS + sz ?cs" using sz by (simp add: b_def)
    ultimately show ?thesis using s3(2,3) T3 holds_get(2) [OF s3(2) wb] c3(1) False unfolding r
      by (intro exI [of _ t3] exI [of _ ps] exI [of _ m3]) simp
  qed
  then obtain s' qs m4 where f: "bnd (get_next (of_nat b) t3) (\<lambda>nx. if nx = 0 then free_chunk (of_nat b) t3 else Inr t3) = Inr s'"
    "holds s' qs (if release xs l ys = [] then 0 else HEAP_START) (up (HS + sz (release xs l ys))) m4"
    "chunks m4 0 HS 0 (release xs l ys)" "touched m m4 ?S" "length ps \<le> length qs" by (elim exE conjE) (erule (4) that)
  have "kfree (of_nat (HS + sz xs + 12)) s = Inr s'"
  proof -
    have "of_nat (HS + sz xs + 12) - HEAD = (of_nat a :: u32)" by (simp add: a_def)
    then show ?thesis unfolding kfree_def using s1(1) s2(1) s3(1) [folded b_def] f(1)
      by (simp only: glue_chunk_def bnd_Inr prod.case)
  qed
  moreover have "heap s' qs (release xs l ys)" using f(2,3) tidy_release [OF m(3)] by (auto simp: heap_def)
  moreover have "same_bytes (live HS (release xs l ys)) s s'"
  proof (rule same_bytesI [OF m(1) f(2) chunks_sized [OF f(3)] order_refl _ up_bounds(1)])
    show "HS + sz (release xs l ys) \<le> ?tp" using m(5) sz j by (simp add: release_def b_def del: join_left.simps)
    fix c k x
    assume ck: "(c, k) \<in> live HS (release xs l ys)" and x: "c \<le> x" "x < c + k"
    then have "(c, k) \<in> live HS ?cs" using live_release [OF m(4)] by blast
    then have "x \<notin> ?S" using live_off_hdrs [OF m(4), of c k HS x] x by auto
    then show "m4 x = m x" using f(4) unfolding touched_def by blast
  qed
  ultimately show ?thesis using f(5) by blast
qed

section \<open>The contract of an allocator\<close>

text \<open>
  \<open>inv s L\<close>: the blocks handed out are \<open>L\<close>, pairs of address and length. \<open>room s n\<close>: a request of \<open>n\<close> bytes can be
  served.
\<close>

primrec frees :: "(u32 \<Rightarrow> 's \<Rightarrow> 's res) \<Rightarrow> u32 list \<Rightarrow> 's \<Rightarrow> 's res" where
  "frees f [] s = Inr s"
| "frees f (p # ps) s = bnd (f p s) (frees f ps)"

locale allocator =
  fixes alloc :: "u32 \<Rightarrow> 's \<Rightarrow> (u32 \<times> 's) res"
    and free :: "u32 \<Rightarrow> 's \<Rightarrow> 's res"
    and inv :: "'s \<Rightarrow> (nat \<times> nat) set \<Rightarrow> bool"
    and room :: "'s \<Rightarrow> nat \<Rightarrow> bool"
    and rd :: "'s \<Rightarrow> nat \<Rightarrow> u8"
  assumes alloc_law: "inv s L \<Longrightarrow> room s n \<Longrightarrow>
      \<exists>p k s'. alloc (of_nat n) s = Inr (of_nat p, s') \<and> n \<le> k \<and> (p, k) \<notin> L \<and> inv s' (insert (p, k) L) \<and> unchanged rd L s s'"
    and free_law: "inv s L \<Longrightarrow> (p, k) \<in> L \<Longrightarrow>
      \<exists>s'. free (of_nat p) s = Inr s' \<and> inv s' (L - {(p, k)}) \<and> unchanged rd (L - {(p, k)}) s s'"
    and apart_law: "inv s L \<Longrightarrow> (p, k) \<in> L \<Longrightarrow> (q, j) \<in> L \<Longrightarrow> (p, k) \<noteq> (q, j) \<Longrightarrow> p + k \<le> q \<or> q + j \<le> p"
begin

lemma frees_any_order:
  "inv s L \<Longrightarrow> distinct bs \<Longrightarrow> set bs \<subseteq> L \<Longrightarrow>
    \<exists>s'. frees free (map (\<lambda>b. of_nat (fst b)) bs) s = Inr s' \<and> inv s' (L - set bs) \<and> unchanged rd (L - set bs) s s'"
proof (induction bs arbitrary: s L)
  case (Cons b bs)
  obtain p k where b: "b = (p, k)" by (cases b)
  obtain s1 where s1: "free (of_nat p) s = Inr s1" "inv s1 (L - {(p, k)})" "unchanged rd (L - {(p, k)}) s s1"
    using free_law [OF Cons.prems(1), of p k] Cons.prems(3) b by auto
  have "set bs \<subseteq> L - {(p, k)}" using Cons.prems(2,3) b by auto
  then obtain s' where s': "frees free (map (\<lambda>b. of_nat (fst b)) bs) s1 = Inr s'" "inv s' (L - {(p, k)} - set bs)"
    "unchanged rd (L - {(p, k)} - set bs) s1 s'"
    using Cons.IH [OF s1(2)] Cons.prems(2) by auto
  have eq: "L - {(p, k)} - set bs = L - set (b # bs)" using b by auto
  have "unchanged rd (L - set (b # bs)) s s'" using unchanged_trans [OF s1(3) s'(3)] unfolding eq [symmetric] by blast
  then show ?case using s1(1) s'(1,2) unfolding eq [symmetric] by (intro exI [of _ s']) (simp add: b)
qed (simp add: unchanged_refl)

lemma alloc_then_free:
  assumes "inv s L" and "room s n"
  shows "\<exists>p s1 s2. alloc (of_nat n) s = Inr (p, s1) \<and> free p s1 = Inr s2 \<and> inv s2 L \<and> unchanged rd L s s2"
proof -
  obtain p k s1 where s1: "alloc (of_nat n) s = Inr (of_nat p, s1)" "(p, k) \<notin> L" "inv s1 (insert (p, k) L)" "unchanged rd L s s1"
    using alloc_law [OF assms] by blast
  moreover obtain s2 where "free (of_nat p) s1 = Inr s2" "inv s2 L" "unchanged rd L s1 s2"
    using free_law [OF s1(3), of p k] s1(2) by auto
  ultimately show ?thesis using unchanged_trans [OF s1(4)] by blast
qed

end

section \<open>The heap keeps the contract\<close>

text \<open>First fit on lists of chunks: the offset of the chunk and the list after it has been taken.\<close>

fun place :: "nat \<Rightarrow> chunk list \<Rightarrow> nat \<times> chunk list" where
  "place n [] = (0, [(n, False)])"
| "place n ((l, f) # cs) =
     (if f \<and> n \<le> l then (0, carve False n l @ cs) else case place n cs of (off, cs') \<Rightarrow> (l + off, (l, f) # cs'))"

lemma place_fit:
  "\<forall>c \<in> set xs. \<not> (snd c \<and> n \<le> fst c) \<Longrightarrow> n \<le> l \<Longrightarrow> place n (xs @ (l, True) # ys) = (sz xs, xs @ carve False n l @ ys)"
  by (induction xs) (auto split: prod.splits)

lemma place_none: "\<forall>c \<in> set cs. \<not> (snd c \<and> n \<le> fst c) \<Longrightarrow> place n cs = (sz cs, cs @ [(n, False)])"
  by (induction cs) (auto split: prod.splits)

lemma place_live:
  assumes "sized cs" and "12 \<le> n" and "place n cs = (off, cs')"
  shows "\<exists>k. n \<le> k + 12 \<and> (a + off + 12, k) \<notin> live a cs \<and> live a cs' = insert (a + off + 12, k) (live a cs)"
  using assms
proof (induction n cs arbitrary: a off cs' rule: place.induct)
  case (2 n l f cs)
  show ?case
  proof (cases "f \<and> n \<le> l")
    case True
    have "(a + 12, k) \<notin> live (a + l) cs" for k using live_bounds [of cs "a + 12" k "a + l"] 2 by auto
    then show ?thesis using 2 True
      by (intro exI [of _ "if l - n \<le> 12 then l - 12 else n - 12"]) (auto simp: carve_def)
  next
    case False
    obtain o1 c1 where p: "place n cs = (o1, c1)" by (cases "place n cs")
    obtain k where k: "n \<le> k + 12" "(a + l + o1 + 12, k) \<notin> live (a + l) cs" "live (a + l) c1 = insert (a + l + o1 + 12, k) (live (a + l) cs)"
      using "2.IH" [OF False _ _ p, of "a + l"] 2(2,3) by auto
    have "off = l + o1" "cs' = (l, f) # c1" using 2(4) p False by (simp_all split: if_splits)
    moreover have "a + (l + o1) + 12 \<noteq> a + 12" using 2(2,3) by simp
    ultimately show ?thesis using k by (intro exI [of _ k]) (auto simp: add.assoc)
  qed
qed auto

text \<open>Enough address space and enough pages for \<open>n\<close> more bytes and a header, two pages for each page of the heap.\<close>

definition fits :: "nat \<Rightarrow> nat \<Rightarrow> nat \<Rightarrow> bool" where
  "fits len pages n \<longleftrightarrow> up (HS + len + n + 12) \<le> 4294959104 \<and> up (HS + len + n + 12) \<le> up (HS + len) + 2048 * pages"

lemma kmalloc_spec:
  assumes h: "heap s ps cs" and f: "fits (sz cs) (length ps) n" and p: "place (n + 12) cs = (off, cs')"
  shows "\<exists>s' qs. kmalloc (of_nat n) s = Inr (of_nat (HS + off + 12), s') \<and> heap s' qs cs' \<and> same_bytes (live HS cs) s s'"
proof -
  have lim: "n + 12 < 2147483648" using f up_bounds(1) [of "HS + sz cs + n + 12"] by (simp add: fits_def)
  show ?thesis
  proof (cases rule: seek_cases [of cs "n + 12" 0 HS])
    case (fit xs l ys)
    then show ?thesis using kmalloc_fit [OF h refl lim fit(1,2,3)] place_fit [of xs "n + 12" l ys] p by auto
  next
    case none
    have "\<exists>s' qs. kmalloc (of_nat n) s = Inr (of_nat (HS + sz cs + 12), s') \<and> heap s' qs (cs @ [(n + 12, False)]) \<and>
      same_bytes (live HS cs) s s'"
      by (rule kmalloc_none [OF h refl none(1)]) (use f in \<open>simp_all add: fits_def add.assoc\<close>)
    then show ?thesis using place_none [OF none(2)] p by auto
  qed
qed

definition heap_blocks :: "hp \<Rightarrow> (nat \<times> nat) set \<Rightarrow> bool" where
  "heap_blocks s L \<longleftrightarrow> (\<exists>ps cs. heap s ps cs \<and> L = live HS cs)"

definition heap_room :: "hp \<Rightarrow> nat \<Rightarrow> bool" where
  "heap_room s n \<longleftrightarrow> (\<forall>ps cs. heap s ps cs \<longrightarrow> fits (sz cs) (length ps) n)"

lemma live_split: "(p, k) \<in> live a cs \<Longrightarrow> sized cs \<Longrightarrow> \<exists>xs l ys. cs = xs @ (l, False) # ys \<and> p = a + sz xs + 12 \<and> k = l - 12"
proof (induction a cs rule: live.induct)
  case (2 a l f cs)
  show ?case
  proof (cases "(p, k) \<in> live (a + l) cs")
    case True
    then obtain xs j ys where "cs = xs @ (j, False) # ys" "p = a + l + sz xs + 12" "k = j - 12" using 2 by auto
    then show ?thesis by (intro exI [of _ "(l, f) # xs"] exI [of _ j] exI [of _ ys]) simp
  next
    case False
    then show ?thesis using 2(2) by (intro exI [of _ "[]"] exI [of _ l] exI [of _ cs]) (auto split: if_splits)
  qed
qed simp

interpretation kheap: allocator kmalloc kfree heap_blocks heap_room vbyte
proof
  fix s L n
  assume inv: "heap_blocks s L" and room: "heap_room s n"
  obtain ps cs where h: "heap s ps cs" "L = live HS cs" using inv by (auto simp: heap_blocks_def)
  obtain off cs' where p: "place (n + 12) cs = (off, cs')" by (cases "place (n + 12) cs")
  have "sized cs" using h(1) by (auto elim: heapE)
  then obtain k where k: "n + 12 \<le> k + 12" "(HS + off + 12, k) \<notin> live HS cs" "live HS cs' = insert (HS + off + 12, k) (live HS cs)"
    using place_live [OF _ _ p, of HS] by auto
  have "fits (sz cs) (length ps) n" using room h(1) by (simp add: heap_room_def)
  then obtain s' qs where s': "kmalloc (of_nat n) s = Inr (of_nat (HS + off + 12), s')" "heap s' qs cs'" "same_bytes (live HS cs) s s'"
    using kmalloc_spec [OF h(1) _ p] by blast
  then show "\<exists>p k s'. kmalloc (of_nat n) s = Inr (of_nat p, s') \<and> n \<le> k \<and> (p, k) \<notin> L \<and> heap_blocks s' (insert (p, k) L) \<and> same_bytes L s s'"
    using k h(2) by (intro exI [of _ "HS + off + 12"] exI [of _ k] exI [of _ s']) (auto simp: heap_blocks_def)
next
  fix s L p k
  assume inv: "heap_blocks s L" and pk: "(p, k) \<in> L"
  obtain ps cs where h: "heap s ps cs" "L = live HS cs" using inv by (auto simp: heap_blocks_def)
  have sd: "sized cs" using h(1) by (auto elim: heapE)
  then obtain xs l ys where c: "cs = xs @ (l, False) # ys" "p = HS + sz xs + 12" "k = l - 12"
    using live_split [of p k HS cs] pk h(2) by auto
  have "live HS (release xs l ys) = L - {(p, k)}" using live_release [OF sd [unfolded c(1)], of HS] c h(2) by simp
  then show "\<exists>s'. kfree (of_nat p) s = Inr s' \<and> heap_blocks s' (L - {(p, k)}) \<and> same_bytes (L - {(p, k)}) s s'"
    using kfree_spec [OF h(1) [unfolded c(1)]] unfolding c(2,3) heap_blocks_def by metis
next
  fix s L p k q j
  assume inv: "heap_blocks s L" and pq: "(p, k) \<in> L" "(q, j) \<in> L" "(p, k) \<noteq> (q, j)"
  obtain ps cs where h: "heap s ps cs" "L = live HS cs" using inv by (auto simp: heap_blocks_def)
  have "sized cs" using h(1) by (auto elim: heapE)
  then have "p + k < q \<or> q + j < p" using live_apart [of cs p k HS q j] pq h(2) by blast
  then show "p + k \<le> q \<or> q + j \<le> p" by linarith
qed

lemma heap_blocks_empty:
  assumes "heap_blocks s {}"
  shows "heap_top s = HEAP_START" and "heap_start s = 0"
proof -
  obtain ps cs where h: "heap s ps cs" "live HS cs = {}" using assms by (auto simp: heap_blocks_def)
  obtain m where m: "holds s ps (if cs = [] then 0 else HEAP_START) (up (HS + sz cs)) m" "tidy cs" using h(1) by (rule heapE)
  have "cs = []" using tidy_live [OF m(2)] h(2) by simp
  with holdsD(2,3) [OF m(1)] have "unat (heap_top s) = HS" "heap_start s = 0" by (simp_all add: up_def)
  then show "heap_top s = HEAP_START" "heap_start s = 0" by (simp_all add: word_unat_eq_iff)
qed

section \<open>Properties\<close>

text \<open>A task with an empty heap and the two free pages of \<open>two_pages\<close>.\<close>

definition empty_heap :: hp where
  "empty_heap = \<lparr>hmm = two_pages, hdir = 0x80402000, heap_start = 0, heap_top = HEAP_START\<rparr>"

lemma empty_heap_ok: "heap empty_heap [0x80400000, 0x80401000] []"
proof -
  have "\<not> inh empty_heap v" for v by (simp add: inh_def empty_heap_def)
  then have "region empty_heap [0x80400000, 0x80401000]"
    using two_pages_pt two_pages_entry unfolding region_def by (simp add: empty_heap_def aligned_def present_def)
  then have "holds empty_heap [0x80400000, 0x80401000] 0 HS (vbyte empty_heap)"
    by (simp add: holds_def vbyte_def) (simp add: empty_heap_def)
  then show ?thesis by (auto simp: heap_def up_def tidy_def)
qed

lemma empty_heap_fits: "fits (sz []) (length [0x80400000 :: u32, 0x80401000]) 100"
  by (simp add: fits_def up_def)

lemma empty_heap_alloc:
  obtains s1 ps where "kmalloc 100 empty_heap = Inr (HEAP_START + 12, s1)" "heap s1 ps [(112, False)]"
  using kmalloc_spec [OF empty_heap_ok empty_heap_fits, of 0 "[(112, False)]"] by auto

text \<open>
  C3. \<^verbatim>\<open>kmalloc\<close> implements first fit on lists of chunks: when the address space and the free pages suffice, it returns
  the payload of the first free chunk that is large enough, cut in two when more than a header is left over, or of a
  new chunk behind the last one; the headers in memory then describe the list \<open>place\<close> computes, the region grows to
  exactly the pages the list needs, and no byte of a block in use changes.
\<close>

theorem kmalloc_first_fit:
  assumes "heap s ps cs" and "fits (sz cs) (length ps) n"
  shows "\<exists>s' qs. kmalloc (of_nat n) s = Inr (of_nat (HS + fst (place (n + 12) cs) + 12), s') \<and>
    heap s' qs (snd (place (n + 12) cs)) \<and> same_bytes (live HS cs) s s'"
  using kmalloc_spec [OF assms, of "fst (place (n + 12) cs)" "snd (place (n + 12) cs)"] by simp

theorem kmalloc_first_fit_witness:
  "\<exists>s' qs. kmalloc 100 empty_heap = Inr (HEAP_START + 12, s') \<and> heap s' qs [(112, False)]"
  using kmalloc_first_fit [OF empty_heap_ok empty_heap_fits] by auto





end
