(* ===== verification/Fifo.thy ===== *)
theory Fifo
  imports Chunix_Base
begin

text \<open>
  The contract of a first-in first-out queue inside a larger state: \<open>repr s xs\<close> says that \<open>xs\<close> are
  the entries of the queue, oldest first, and \<open>room s x\<close> that \<open>x\<close> may be appended.
\<close>

primrec enq_all :: "('a \<Rightarrow> 's \<Rightarrow> 's res) \<Rightarrow> 'a list \<Rightarrow> 's \<Rightarrow> 's res" where
  "enq_all enq [] s = Inr s"
| "enq_all enq (x # xs) s = bnd (enq x s) (enq_all enq xs)"

primrec deq_n :: "('s \<Rightarrow> ('a \<times> 's) option) \<Rightarrow> nat \<Rightarrow> 's \<Rightarrow> 'a list \<times> 's" where
  "deq_n deq 0 s = ([], s)"
| "deq_n deq (Suc n) s =
     (case deq s of None \<Rightarrow> ([], s)
      | Some (x, s1) \<Rightarrow> (let (xs, s2) = deq_n deq n s1 in (x # xs, s2)))"

locale fifo =
  fixes enq :: "'a \<Rightarrow> 's \<Rightarrow> 's res" and deq :: "'s \<Rightarrow> ('a \<times> 's) option"
    and repr :: "'s \<Rightarrow> 'a list \<Rightarrow> bool" and room :: "'s \<Rightarrow> 'a list \<Rightarrow> 'a \<Rightarrow> bool"
  assumes enq_room: "repr s xs \<Longrightarrow> room s xs x \<Longrightarrow>
      \<exists>s'. enq x s = Inr s' \<and> repr s' (xs @ [x]) \<and> room s' = room s"
    and deq_empty: "repr s [] \<Longrightarrow> deq s = None"
    and deq_first: "repr s (x # xs) \<Longrightarrow> \<exists>s'. deq s = Some (x, s') \<and> repr s' xs \<and> room s' = room s"
begin

lemma enq_all_append:
  "repr s xs \<Longrightarrow> (\<And>us v ws. ys = us @ v # ws \<Longrightarrow> room s (xs @ us) v) \<Longrightarrow>
   \<exists>s'. enq_all enq ys s = Inr s' \<and> repr s' (xs @ ys) \<and> room s' = room s"
proof (induction ys arbitrary: s xs)
  case Nil
  then show ?case by simp
next
  case (Cons y ys)
  obtain s1 where s1: "enq y s = Inr s1" "repr s1 (xs @ [y])" "room s1 = room s"
    using enq_room [OF Cons.prems(1), of y] Cons.prems(2) [of "[]" y ys] by auto
  have "room s1 ((xs @ [y]) @ us) v" if "ys = us @ v # ws" for us v ws
    using Cons.prems(2) [of "y # us" v ws] that s1(3) by simp
  from Cons.IH [OF s1(2) this] s1 show ?case by auto
qed

lemma deq_n_take:
  "repr s xs \<Longrightarrow> \<exists>s'. deq_n deq n s = (take n xs, s') \<and> repr s' (drop n xs) \<and> room s' = room s"
proof (induction n arbitrary: s xs)
  case 0
  then show ?case by simp
next
  case (Suc n)
  show ?case
  proof (cases xs)
    case Nil
    with Suc.prems show ?thesis by (auto simp: deq_empty)
  next
    case (Cons x ys)
    with Suc.prems obtain s1 where s1: "deq s = Some (x, s1)" "repr s1 ys" "room s1 = room s"
      using deq_first by blast
    with Suc.IH [OF s1(2)] Cons show ?thesis by auto
  qed
qed

lemma fifo_order:
  assumes "repr s []" and "\<And>us v ws. ys = us @ v # ws \<Longrightarrow> room s us v"
  shows "\<exists>s1 s2. enq_all enq ys s = Inr s1 \<and> deq_n deq (length ys) s1 = (ys, s2) \<and> repr s2 []"
proof -
  obtain s1 where s1: "enq_all enq ys s = Inr s1" "repr s1 ys"
    using enq_all_append [OF assms(1), of ys] assms(2) by auto
  with deq_n_take [OF s1(2), of "length ys"] show ?thesis by auto
qed

end

end
