(* ===== verification/Drv_Console.thy ===== *)
theory Drv_Console
  imports Fifo
begin

text \<open>
  The console \<^verbatim>\<open>drv/console.c\<close>, the serial line \<^verbatim>\<open>drv/serial.c\<close> it echoes to, and the spin locks of
  \<^verbatim>\<open>kern/spinlock.c\<close>. The screen is the video memory \<open>cells\<close>, one 16-bit cell per character, and the
  two cursor registers of the CGA controller; \<open>serial\<close> is what has been sent on the serial line (the
  wait for an idle transmitter is not modelled); \<open>cwoken\<close> counts the \<^verbatim>\<open>wakeup\<close> calls on the input buffer;
  \<open>cports\<close> logs what is written to the other ports.
\<close>

section \<open>Spin locks\<close>

record spinlock =
  hold :: u32
  lname :: string

definition init_lock :: "string \<Rightarrow> spinlock \<Rightarrow> spinlock" where
  "init_lock nm l = l\<lparr>hold := 0, lname := nm\<rparr>"

definition is_hold :: "spinlock \<Rightarrow> bool" where
  "is_hold l \<longleftrightarrow> hold l = 1"

definition xchg :: "spinlock \<Rightarrow> u32 \<Rightarrow> u32 \<times> spinlock" where
  "xchg l v = (hold l, l\<lparr>hold := v\<rparr>)"

partial_function (option) acquire_loop :: "spinlock \<Rightarrow> spinlock option" where
  "acquire_loop l = (case xchg l 1 of (old, l') \<Rightarrow> if old \<noteq> 0 then acquire_loop l' else Some l')"

definition acquire :: "spinlock \<Rightarrow> spinlock res" where
  "acquire l =
     (if is_hold l then Inl (Panic ''acquire spinlock'')
      else case acquire_loop l of None \<Rightarrow> Inl (Hang ''acquire'') | Some l' \<Rightarrow> Inr l')"

definition release :: "spinlock \<Rightarrow> spinlock res" where
  "release l = (if \<not> is_hold l then Inl (Panic ''release spinlock'') else Inr (snd (xchg l 0)))"

section \<open>The screen\<close>

abbreviation CONS_COLS :: u16 where "CONS_COLS \<equiv> 80"
abbreviation CONS_SIZE :: u16 where "CONS_SIZE \<equiv> 2000"
abbreviation BLANK_CHAR :: u16 where "BLANK_CHAR \<equiv> 0xA20"
abbreviation CBUF_SIZE :: nat where "CBUF_SIZE \<equiv> 2000"

record cons =
  cells :: "u16 \<Rightarrow> u16"
  cons_pos :: u16
  dcolor :: u8
  cga_hi :: u8
  cga_lo :: u8
  cons_lock :: spinlock
  timer_flag :: u8
  has_serial :: bool
  serial :: "u8 list"
  cbuf :: "u8 list"
  rpos :: nat
  wpos :: nat
  cwoken :: nat
  cports :: "(u16 \<times> u8) list"

definition locate_cursor :: "cons \<Rightarrow> u16" where
  "locate_cursor s = push_bit 8 (ucast (cga_hi s)) OR ucast (cga_lo s)"

definition put_cursor :: "u16 \<Rightarrow> cons \<Rightarrow> cons" where
  "put_cursor pos s = s\<lparr>cga_hi := ucast (drop_bit 8 pos), cga_lo := ucast pos\<rparr>"

definition clean_screen :: "cons \<Rightarrow> cons" where
  "clean_screen s =
     put_cursor 0 (s\<lparr>cells := (\<lambda>i. if i < CONS_SIZE then BLANK_CHAR else cells s i), cons_pos := 0\<rparr>)"

definition get_cursor :: "cons \<Rightarrow> u16 \<times> u16" where
  "get_cursor s = (cons_pos s mod CONS_COLS, cons_pos s div CONS_COLS)"

definition set_cursor :: "u16 \<Rightarrow> u16 \<Rightarrow> cons \<Rightarrow> cons" where
  "set_cursor x y s = (let p = y * CONS_COLS + x in put_cursor p (s\<lparr>cons_pos := p\<rparr>))"

definition cons_init :: "cons \<Rightarrow> cons" where
  "cons_init s =
     clean_screen (s\<lparr>cons_pos := 0, wpos := 0, rpos := 0, cons_lock := init_lock ''cons_lock'' (cons_lock s)\<rparr>)"

definition settextcolor :: "u8 \<Rightarrow> u8 \<Rightarrow> cons \<Rightarrow> cons" where
  "settextcolor fore back_col s = s\<lparr>dcolor := push_bit 4 back_col OR (fore AND 0x0F)\<rparr>"

definition resettextcolor :: "cons \<Rightarrow> cons" where
  "resettextcolor s = s\<lparr>dcolor := 0xa\<rparr>"

definition CEIL :: "nat \<Rightarrow> nat \<Rightarrow> nat" where
  "CEIL num base = (num div base + 1) * base"

text \<open>\<open>tab_loop\<close>: the loop of the \<^verbatim>\<open>\t\<close> case, \<open>n\<close> blanks left to write.\<close>

primrec tab_loop :: "nat \<Rightarrow> u16 \<Rightarrow> cons \<Rightarrow> cons" where
  "tab_loop 0 v s = s"
| "tab_loop (Suc n) v s =
     tab_loop n v (s\<lparr>cells := (cells s)(cons_pos s := v), cons_pos := cons_pos s + 1\<rparr>)"

definition scroll :: "u16 \<Rightarrow> cons \<Rightarrow> cons" where
  "scroll color s =
     (if CONS_SIZE \<le> cons_pos s
      then s\<lparr>cells := (\<lambda>i. if CONS_SIZE - CONS_COLS \<le> i \<and> i < CONS_SIZE then color OR 0x20
                           else if CONS_COLS \<le> i \<and> i < CONS_SIZE - CONS_COLS then cells s (i + CONS_COLS)
                           else cells s i),
             cons_pos := cons_pos s - CONS_COLS\<rparr>
      else s)"

text \<open>
  The \<^verbatim>\<open>switch\<close> of \<^verbatim>\<open>putc_to_console\<close>. A \<^verbatim>\<open>char\<close> is signed: it is sign-extended when it is combined with
  the colour.
\<close>

definition putc_switch :: "u8 \<Rightarrow> u16 \<Rightarrow> cons \<Rightarrow> cons" where
  "putc_switch c color s =
     (if c = 8
      then (if 0 < cons_pos s
            then s\<lparr>cells := (cells s)(cons_pos s - 1 := BLANK_CHAR), cons_pos := cons_pos s - 1\<rparr>
            else s)
      else if c = 10 \<or> c = 13
      then s\<lparr>cons_pos := (cons_pos s + CONS_COLS) - (cons_pos s + CONS_COLS) mod CONS_COLS\<rparr>
      else if c = 9
      then tab_loop (CEIL (unat (cons_pos s)) 8 - unat (cons_pos s)) (color OR 0x20) s
      else s\<lparr>cells := (cells s)(cons_pos s := color OR scast c), cons_pos := cons_pos s + 1\<rparr>)"

definition putc_to_console :: "u8 \<Rightarrow> cons \<Rightarrow> cons" where
  "putc_to_console c s =
     (let color = push_bit 8 (ucast (dcolor s));
          s2 = scroll color (putc_switch c color s)
      in put_cursor (cons_pos s2) s2)"

definition write_serial :: "u8 \<Rightarrow> cons \<Rightarrow> cons" where
  "write_serial c s =
     (if \<not> has_serial s then s
      else s\<lparr>serial := serial s @ (if c = 13 then [13, 10] else [c])\<rparr>)"

definition put_c :: "u8 \<Rightarrow> cons \<Rightarrow> cons" where
  "put_c c s =
     (let s1 = putc_to_console c s in if timer_flag s1 = 0 then write_serial c s1 else s1)"

definition put_color_c :: "u8 \<Rightarrow> u8 \<Rightarrow> cons \<Rightarrow> cons" where
  "put_color_c color c s = (put_c c (s\<lparr>dcolor := color\<rparr>))\<lparr>dcolor := dcolor s\<rparr>"

section \<open>The input buffer\<close>

definition cbuf_put :: "u8 \<Rightarrow> cons \<Rightarrow> cons" where
  "cbuf_put v s =
     (let w = wpos s + 1
      in s\<lparr>cbuf := (cbuf s)[wpos s := v], wpos := (if CBUF_SIZE \<le> w then 0 else w)\<rparr>)"

definition cbuf_take :: "cons \<Rightarrow> u8 \<times> cons" where
  "cbuf_take s =
     (let r = rpos s + 1 in (cbuf s ! rpos s, s\<lparr>rpos := (if r = CBUF_SIZE then 0 else r)\<rparr>))"

text \<open>
  \<^verbatim>\<open>get_c\<close>: \<open>None\<close> when the task goes to sleep on the empty buffer; when it is woken it goes on with
  \<open>cbuf_take\<close>. The character is returned as a signed \<^verbatim>\<open>char\<close>.
\<close>

definition get_c :: "bool \<Rightarrow> cons \<Rightarrow> (int \<times> cons) option" where
  "get_c block s =
     (if rpos s = wpos s \<and> block then None
      else if rpos s = wpos s then Some (- 1, s)
      else case cbuf_take s of (c, s1) \<Rightarrow> Some (sint c, s1))"

text \<open>\<open>getc\<close> reads the device behind the interrupt; the loop runs until it has no more data.\<close>

partial_function (option) console_isr ::
    "('k \<Rightarrow> int \<times> 'k) \<Rightarrow> 'k \<Rightarrow> cons \<Rightarrow> ('k \<times> cons) option" where
  "console_isr getc k s =
     (case getc k of (c, k1) \<Rightarrow>
        if c = - 1 then Some (k1, s)
        else if c = 0 then console_isr getc k1 s
        else (let v = word_of_int c :: u8;
                  s1 = cbuf_put v s;
                  s2 = s1\<lparr>cwoken := cwoken s1 + 1\<rparr>
              in console_isr getc k1 (if sint v \<le> 0x7f then put_c v s2 else s2)))"

section \<open>The serial line\<close>

text \<open>The bytes waiting in the receiver; \<^verbatim>\<open>init_serial\<close> finds a line or not.\<close>

definition read_serial :: "bool \<times> u8 list \<Rightarrow> int \<times> (bool \<times> u8 list)" where
  "read_serial k =
     (case k of
        (False, bs) \<Rightarrow> (- 1, k)
      | (True, []) \<Rightarrow> (- 1, k)
      | (True, b # bs) \<Rightarrow> (uint b, (True, bs)))"

definition cons_outb :: "u16 \<Rightarrow> u8 \<Rightarrow> cons \<Rightarrow> cons" where
  "cons_outb port v s = s\<lparr>cports := cports s @ [(port, v)]\<rparr>"

text \<open>\<open>lsr\<close> and \<open>imr\<close> are what the line status and the interrupt mask registers read as.\<close>

definition init_serial :: "u8 \<Rightarrow> u8 \<Rightarrow> cons \<Rightarrow> cons" where
  "init_serial lsr imr s =
     (let s1 = fold (\<lambda>(port, v). cons_outb port v)
                [(0x3F9, 0), (0x3FB, 0x80), (0x3F8, 12), (0x3F9, 0), (0x3FB, 3), (0x3FA, 0), (0x3FC, 0), (0x3F9, 1)] s
      in if lsr = 0xFF then s1
         else fold write_serial
           [105, 110, 105, 116, 32, 115, 101, 114, 105, 97, 108, 32, 100, 111, 110, 101]
           (cons_outb 0x21 (imr AND 0xef) (s1\<lparr>has_serial := True\<rparr>)))"

definition serial_isr :: "u8 list \<Rightarrow> cons \<Rightarrow> (u8 list \<times> cons) option" where
  "serial_isr bs s =
     (case console_isr read_serial (has_serial s, bs) s of
        None \<Rightarrow> None | Some ((_, bs'), s') \<Rightarrow> Some (bs', cons_outb 0x20 0x20 s'))"

section \<open>The input buffer is a queue\<close>

definition cb_repr :: "cons \<Rightarrow> u8 list \<Rightarrow> bool" where
  "cb_repr s xs \<longleftrightarrow> length (cbuf s) = CBUF_SIZE \<and> rpos s < CBUF_SIZE \<and> length xs < CBUF_SIZE \<and>
     wpos s = (rpos s + length xs) mod CBUF_SIZE \<and>
     (\<forall>i < length xs. cbuf s ! ((rpos s + i) mod CBUF_SIZE) = xs ! i)"

definition cb_room :: "cons \<Rightarrow> u8 list \<Rightarrow> u8 \<Rightarrow> bool" where
  "cb_room s xs c \<longleftrightarrow> Suc (length xs) < CBUF_SIZE"

definition cbuf_get :: "cons \<Rightarrow> (u8 \<times> cons) option" where
  "cbuf_get s = (if rpos s = wpos s then None else Some (cbuf_take s))"

lemma mod_inj:
  fixes r i j N :: nat
  assumes "(r + i) mod N = (r + j) mod N" and "i < N" and "j < N"
  shows "i = j"
proof -
  have "int i mod int N = int j mod int N"
    using assms(1) by (metis mod_diff_left_eq add_diff_cancel_left' of_nat_add of_nat_mod)
  with assms(2,3) show ?thesis by simp
qed

lemma cbuf_put_repr:
  assumes "cb_repr s xs" and "cb_room s xs c"
  shows "cb_repr (cbuf_put c s) (xs @ [c])"
proof -
  have r: "length (cbuf s) = CBUF_SIZE" "rpos s < CBUF_SIZE" "Suc (length xs) < CBUF_SIZE"
    "wpos s = (rpos s + length xs) mod CBUF_SIZE"
    "\<And>i. i < length xs \<Longrightarrow> cbuf s ! ((rpos s + i) mod CBUF_SIZE) = xs ! i"
    using assms by (auto simp: cb_repr_def cb_room_def)
  have w: "wpos s < CBUF_SIZE" by (simp add: r(4))
  have "(if CBUF_SIZE \<le> wpos s + 1 then 0 else wpos s + 1) = (rpos s + Suc (length xs)) mod CBUF_SIZE"
  proof -
    have "(rpos s + Suc (length xs)) mod CBUF_SIZE = Suc (wpos s) mod CBUF_SIZE" by (simp add: r(4) mod_Suc_eq)
    with w show ?thesis by (cases "wpos s = 1999") simp_all
  qed
  moreover have "(cbuf s)[wpos s := c] ! ((rpos s + i) mod CBUF_SIZE) = (xs @ [c]) ! i" if "i < Suc (length xs)" for i
  proof (cases "i = length xs")
    case True
    with r(1) w show ?thesis by (simp flip: r(4))
  next
    case False
    then have "(rpos s + i) mod CBUF_SIZE \<noteq> wpos s"
      using that r(3) mod_inj [of "rpos s" i CBUF_SIZE "length xs"] by (auto simp: r(4))
    with False that r(5) show ?thesis by (simp add: nth_append)
  qed
  ultimately show ?thesis using r(1-3) by (auto simp: cb_repr_def cbuf_put_def Let_def split: if_splits)
qed

lemma cbuf_take_repr:
  assumes "cb_repr s (x # xs)"
  shows "cbuf_get s = Some (x, s\<lparr>rpos := (rpos s + 1) mod CBUF_SIZE\<rparr>)"
    and "cb_repr (s\<lparr>rpos := (rpos s + 1) mod CBUF_SIZE\<rparr>) xs"
proof -
  have r: "length (cbuf s) = CBUF_SIZE" "rpos s < CBUF_SIZE" "Suc (length xs) < CBUF_SIZE"
    "wpos s = (rpos s + Suc (length xs)) mod CBUF_SIZE"
    "\<And>i. i < Suc (length xs) \<Longrightarrow> cbuf s ! ((rpos s + i) mod CBUF_SIZE) = (x # xs) ! i"
    using assms by (auto simp: cb_repr_def)
  have "rpos s \<noteq> wpos s"
    using mod_inj [of "rpos s" 0 CBUF_SIZE "Suc (length xs)"] r(2,3) by (auto simp: r(4))
  moreover have "cbuf s ! rpos s = x" using r(5) [of 0] r(2) by simp
  moreover have m: "(rpos s + 1) mod CBUF_SIZE = (if rpos s + 1 = CBUF_SIZE then 0 else rpos s + 1)" using r(2) by auto
  ultimately show "cbuf_get s = Some (x, s\<lparr>rpos := (rpos s + 1) mod CBUF_SIZE\<rparr>)"
    unfolding m by (simp add: cbuf_get_def cbuf_take_def Let_def)
  show "cb_repr (s\<lparr>rpos := (rpos s + 1) mod CBUF_SIZE\<rparr>) xs"
    using r(1,3) r(5) [of "Suc _"] by (simp add: cb_repr_def r(4) mod_add_left_eq)
qed

interpretation cbq: fifo "\<lambda>c s. Inr (cbuf_put c s)" cbuf_get cb_repr cb_room
proof unfold_locales
  fix s x xs
  show "\<exists>s'. Inr (cbuf_put x s) = Inr s' \<and> cb_repr s' (xs @ [x]) \<and> cb_room s' = cb_room s"
    if "cb_repr s xs" "cb_room s xs x"
    using cbuf_put_repr [OF that] by (auto simp: cb_room_def fun_eq_iff)
  show "cbuf_get s = None" if "cb_repr s []" using that by (simp add: cb_repr_def cbuf_get_def)
  show "\<exists>s'. cbuf_get s = Some (x, s') \<and> cb_repr s' xs \<and> cb_room s' = cb_room s" if "cb_repr s (x # xs)"
    using cbuf_take_repr [OF that] by (auto simp: cb_room_def fun_eq_iff)
qed

section \<open>The screen stays in bounds\<close>

definition cons_ok :: "cons \<Rightarrow> bool" where
  "cons_ok s \<longleftrightarrow> cons_pos s < CONS_SIZE"

lemma locate_put [simp]: "locate_cursor (put_cursor p s) = p"
proof -
  have "push_bit 8 (ucast (ucast (drop_bit 8 p) :: u8) :: u16) OR ucast (ucast p :: u8) = p" for p :: u16
  proof (rule bit_eqI)
    fix n
    assume "possible_bit TYPE(16 word) n"
    then show "bit (push_bit 8 (ucast (ucast (drop_bit 8 p) :: u8) :: u16) OR ucast (ucast p :: u8)) n = bit p n"
      by (cases "n < 8") (auto simp: bit_simps)
  qed
  then show ?thesis by (simp add: locate_cursor_def put_cursor_def)
qed

lemma put_cursor_simps [simp]:
  "cells (put_cursor p s) = cells s" "cons_pos (put_cursor p s) = cons_pos s" "dcolor (put_cursor p s) = dcolor s"
  "timer_flag (put_cursor p s) = timer_flag s" "cbuf (put_cursor p s) = cbuf s" "rpos (put_cursor p s) = rpos s"
  "wpos (put_cursor p s) = wpos s" "serial (put_cursor p s) = serial s" "has_serial (put_cursor p s) = has_serial s"
  "cwoken (put_cursor p s) = cwoken s"
  by (simp_all add: put_cursor_def)

lemma u16_less: "unat (x :: u16) < 65536"
  using unsigned_less [of x] by simp

lemma tab_loop_spec:
  "unat (cons_pos s) + n \<le> 65535 \<Longrightarrow>
   tab_loop n v s = s\<lparr>cells := (\<lambda>i. if unat (cons_pos s) \<le> unat i \<and> unat i < unat (cons_pos s) + n then v else cells s i),
     cons_pos := cons_pos s + of_nat n\<rparr>"
proof (induction n arbitrary: s)
  case 0
  have "(\<lambda>i. if unat (cons_pos s) \<le> unat i \<and> unat i < unat (cons_pos s) then v else cells s i) = cells s" by (rule ext) auto
  then show ?case by simp
next
  case (Suc n)
  let ?s = "s\<lparr>cells := (cells s)(cons_pos s := v), cons_pos := cons_pos s + 1\<rparr>"
  have up: "unat (cons_pos s + 1) = unat (cons_pos s) + 1" using Suc.prems by (simp add: unat_word_ariths)
  have "(\<lambda>i. if unat (cons_pos s) + 1 \<le> unat i \<and> unat i < unat (cons_pos s) + 1 + n then v
             else ((cells s)(cons_pos s := v)) i) =
      (\<lambda>i. if unat (cons_pos s) \<le> unat i \<and> unat i < unat (cons_pos s) + Suc n then v else cells s i)"
    by (auto simp: fun_eq_iff word_unat_eq_iff)
  then show ?case using Suc.IH [of ?s] Suc.prems by (simp add: up add.assoc cong: if_cong)
qed

text \<open>
  What \<^verbatim>\<open>put_c\<close> may change: the visible cells, the position and what was sent on the serial line;
  \<open>same_input\<close> relates states with the same input buffer and modes.
\<close>

definition same_input :: "cons \<Rightarrow> cons \<Rightarrow> bool" where
  "same_input s s' \<longleftrightarrow> cbuf s' = cbuf s \<and> rpos s' = rpos s \<and> wpos s' = wpos s \<and> cwoken s' = cwoken s \<and>
     dcolor s' = dcolor s \<and> timer_flag s' = timer_flag s \<and> has_serial s' = has_serial s"

lemma putc_switch_bounds:
  assumes "cons_ok s"
  shows "cons_pos (putc_switch c color s) \<le> CONS_SIZE"
    and "CONS_SIZE \<le> i \<Longrightarrow> cells (putc_switch c color s) i = cells s i"
    and "same_input s (putc_switch c color s)"
    and "serial (putc_switch c color s) = serial s"
proof -
  have p: "unat (cons_pos s) < 2000" using assms by (simp add: cons_ok_def word_less_nat_alt)
  have nl: "unat ((cons_pos s + 80) - (cons_pos s + 80) mod 80) = (unat (cons_pos s) + 80) div 80 * 80"
    using p by (simp add: unat_sub_if' unat_word_ariths unat_mod minus_mod_eq_div_mult)
  have tb: "unat (cons_pos s) div 8 * 8 + 8 \<le> 2000"
  proof -
    have "unat (cons_pos s) div 8 \<le> 1999 div 8" using p by (intro div_le_mono) simp
    then show ?thesis by simp
  qed
  have le: "unat (cons_pos s) \<le> unat (cons_pos s) div 8 * 8 + 8"
    using div_mult_mod_eq [of "unat (cons_pos s)" 8] mod_less_divisor [of 8 "unat (cons_pos s)"] by linarith
  have nl2: "(unat (cons_pos s) + 80) div 80 * 80 \<le> 2000"
  proof -
    have "(unat (cons_pos s) + 80) div 80 \<le> 2079 div 80" using p by (intro div_le_mono) simp
    then show ?thesis by simp
  qed
  have tl: "tab_loop (CEIL (unat (cons_pos s)) 8 - unat (cons_pos s)) v s =
      s\<lparr>cells := (\<lambda>i. if unat (cons_pos s) \<le> unat i \<and> unat i < unat (cons_pos s) div 8 * 8 + 8 then v else cells s i),
        cons_pos := cons_pos s + of_nat (unat (cons_pos s) div 8 * 8 + 8 - unat (cons_pos s))\<rparr>" for v
    using tb le by (subst tab_loop_spec) (simp_all add: CEIL_def ac_simps)
  show "cons_pos (putc_switch c color s) \<le> CONS_SIZE"
    using p nl nl2 tb le unfolding putc_switch_def tl
    by (auto simp: word_le_nat_alt word_less_nat_alt unat_word_ariths unat_sub_if' unat_of_nat)
  show "cells (putc_switch c color s) i = cells s i" if "CONS_SIZE \<le> i"
    using that p tb unfolding putc_switch_def tl
    by (auto simp: word_le_nat_alt word_less_nat_alt unat_sub_if' split: if_splits)
  show "same_input s (putc_switch c color s)" "serial (putc_switch c color s) = serial s"
    unfolding putc_switch_def tl by (simp_all add: same_input_def)
qed

lemma scroll_bounds:
  assumes "cons_pos s \<le> CONS_SIZE"
  shows "cons_ok (scroll color s)" and "CONS_SIZE \<le> i \<Longrightarrow> cells (scroll color s) i = cells s i"
    and "same_input s (scroll color s)" and "serial (scroll color s) = serial s"
  using assms
  by (auto simp: scroll_def cons_ok_def same_input_def word_le_nat_alt word_less_nat_alt unat_sub_if')

lemma same_input_trans: "same_input a b \<Longrightarrow> same_input b c \<Longrightarrow> same_input a c"
  by (simp add: same_input_def)

lemma put_c_bounds:
  assumes "cons_ok s"
  shows "cons_ok (put_c c s)" and "CONS_SIZE \<le> i \<Longrightarrow> cells (put_c c s) i = cells s i"
    and "same_input s (put_c c s)" and "locate_cursor (put_c c s) = cons_pos (put_c c s)"
proof -
  define s1 where "s1 = putc_switch c (push_bit 8 (ucast (dcolor s))) s"
  define s2 where "s2 = scroll (push_bit 8 (ucast (dcolor s))) s1"
  note a = putc_switch_bounds [OF assms, where c = c and color = "push_bit 8 (ucast (dcolor s))", folded s1_def]
  note b = scroll_bounds [OF a(1), where color = "push_bit 8 (ucast (dcolor s))", folded s2_def]
  have pc: "putc_to_console c s = put_cursor (cons_pos s2) s2"
    by (simp add: putc_to_console_def Let_def s1_def s2_def)
  have ws: "cells (write_serial c x) = cells x" "cons_pos (write_serial c x) = cons_pos x" "same_input x (write_serial c x)"
    "locate_cursor (write_serial c x) = locate_cursor x" for x
    by (simp_all add: write_serial_def same_input_def locate_cursor_def)
  have si: "same_input s2 (put_cursor p s2)" for p by (simp add: same_input_def)
  have eq: "cells (put_c c s) = cells s2" "cons_pos (put_c c s) = cons_pos s2" "same_input s2 (put_c c s)"
    "locate_cursor (put_c c s) = cons_pos s2"
    using si same_input_trans [OF si ws(3)] by (simp_all add: put_c_def pc Let_def ws)
  show "cons_ok (put_c c s)" using b(1) by (simp add: cons_ok_def eq)
  show "cells (put_c c s) i = cells s i" if "CONS_SIZE \<le> i" using that a(2) b(2) by (simp add: eq)
  show "same_input s (put_c c s)" using same_input_trans a(3) b(3) eq(3) by blast
  show "locate_cursor (put_c c s) = cons_pos (put_c c s)" by (simp add: eq)
qed

text \<open>\<^verbatim>\<open>console_isr\<close> on the serial line: every waiting byte but NUL is queued, announced and echoed.\<close>

definition feed :: "u8 \<Rightarrow> cons \<Rightarrow> cons" where
  "feed b s = (if b = 0 then s else let s1 = cbuf_put b s in put_c b (s1\<lparr>cwoken := cwoken s1 + 1\<rparr>))"

lemma console_isr_serial:
  "console_isr read_serial (True, bs) s = Some ((True, []), fold feed bs s)"
proof (induction bs arbitrary: s)
  case Nil
  then show ?case by (simp add: console_isr.simps read_serial_def)
next
  case (Cons b bs)
  have "uint b \<noteq> - 1" using uint_nonnegative [of b] by linarith
  moreover have "sint b \<le> 127" using sint_less [of b] by simp
  moreover have "uint b = 0 \<longleftrightarrow> b = 0" by (simp add: uint_0_iff)
  ultimately show ?case
    using Cons.IH by (simp add: console_isr.simps [of _ "(True, b # bs)"] read_serial_def feed_def Let_def)
qed

lemma feed_repr:
  assumes "cb_repr s xs" and "cons_ok s" and "length xs + length (filter (\<lambda>b. b \<noteq> 0) [b]) < CBUF_SIZE"
  shows "cb_repr (feed b s) (xs @ filter (\<lambda>b. b \<noteq> 0) [b])" and "cons_ok (feed b s)"
    and "cwoken (feed b s) = cwoken s + length (filter (\<lambda>b. b \<noteq> 0) [b])"
proof -
  let ?s1 = "(cbuf_put b s)\<lparr>cwoken := cwoken (cbuf_put b s) + 1\<rparr>"
  have "cb_repr (feed b s) (xs @ filter (\<lambda>b. b \<noteq> 0) [b]) \<and> cons_ok (feed b s) \<and>
    cwoken (feed b s) = cwoken s + length (filter (\<lambda>b. b \<noteq> 0) [b])"
  proof (cases "b = 0")
    case True
    then show ?thesis using assms by (simp add: feed_def)
  next
    case False
    have "cb_repr (cbuf_put b s) (xs @ [b])"
      using assms(1,3) False by (intro cbuf_put_repr) (simp_all add: cb_room_def)
    moreover have ok: "cons_ok ?s1" using assms(2) by (simp add: cons_ok_def cbuf_put_def Let_def)
    moreover note put_c_bounds(1,3) [OF ok, of b]
    moreover have "cwoken (cbuf_put b s) = cwoken s" by (simp add: cbuf_put_def Let_def)
    ultimately show ?thesis using False by (simp add: feed_def Let_def cb_repr_def same_input_def)
  qed
  then show "cb_repr (feed b s) (xs @ filter (\<lambda>b. b \<noteq> 0) [b])" "cons_ok (feed b s)"
    "cwoken (feed b s) = cwoken s + length (filter (\<lambda>b. b \<noteq> 0) [b])" by simp_all
qed

lemma fold_feed_repr:
  "cb_repr s xs \<Longrightarrow> cons_ok s \<Longrightarrow> length xs + length (filter (\<lambda>b. b \<noteq> 0) bs) < CBUF_SIZE \<Longrightarrow>
   cb_repr (fold feed bs s) (xs @ filter (\<lambda>b. b \<noteq> 0) bs) \<and> cons_ok (fold feed bs s) \<and>
   cwoken (fold feed bs s) = cwoken s + length (filter (\<lambda>b. b \<noteq> 0) bs)"
proof (induction bs arbitrary: s xs)
  case (Cons b bs)
  have "length xs + length (filter (\<lambda>b. b \<noteq> 0) [b]) < CBUF_SIZE"
    "length (xs @ filter (\<lambda>b. b \<noteq> 0) [b]) + length (filter (\<lambda>b. b \<noteq> 0) bs) < CBUF_SIZE"
    using Cons.prems(3) by (auto split: if_splits)
  note f = feed_repr [OF Cons.prems(1,2) this(1)] and l = this(2)
  from Cons.IH [OF f(1,2) l] f(3) show ?case by (auto simp: ac_simps)
qed simp

lemma cb_repr_outb [simp]: "cb_repr (cons_outb p v s) xs \<longleftrightarrow> cb_repr s xs" "cwoken (cons_outb p v s) = cwoken s"
  by (simp_all add: cb_repr_def cons_outb_def)

lemma get_c_empty: "cb_repr s [] \<Longrightarrow> get_c True s = None"
  by (simp add: get_c_def cb_repr_def)

lemma get_c_all:
  "cb_repr s xs \<Longrightarrow> \<exists>s'. deq_n (get_c True) (length xs) s = (map sint xs, s') \<and> cb_repr s' []"
proof (induction xs arbitrary: s)
  case (Cons x xs)
  note t = cbuf_take_repr [OF Cons.prems]
  then have "get_c True s = Some (sint x, s\<lparr>rpos := (rpos s + 1) mod CBUF_SIZE\<rparr>)"
    by (auto simp: get_c_def cbuf_get_def split: if_splits prod.splits)
  with Cons.IH [OF t(2)] show ?case by auto
qed auto

section \<open>Properties\<close>

definition blank_cons :: cons where
  "blank_cons =
     \<lparr>cells = (\<lambda>_. 0), cons_pos = 1999, dcolor = 0xa, cga_hi = 0, cga_lo = 0,
      cons_lock = \<lparr>hold = 0, lname = []\<rparr>, timer_flag = 0, has_serial = True, serial = [],
      cbuf = replicate CBUF_SIZE 0, rpos = 1999, wpos = 1999, cwoken = 0, cports = []\<rparr>"

lemma blank_cons_ok: "cons_ok blank_cons" "cb_repr blank_cons []"
  by (simp_all add: cons_ok_def cb_repr_def blank_cons_def)

text \<open>
  C26. Whatever character \<^verbatim>\<open>put_c\<close> is given (printable, backspace, newline, tab, a negative \<^verbatim>\<open>char\<close>), the
  position stays on the screen, no cell outside the 25 rows of 80 columns is written, the hardware
  cursor shows the position, and the input buffer and the modes do not change.
\<close>

theorem put_c_in_bounds:
  assumes "cons_pos s < CONS_SIZE"
  shows "cons_pos (put_c c s) < CONS_SIZE \<and> (\<forall>i. \<not> i < CONS_SIZE \<longrightarrow> cells (put_c c s) i = cells s i) \<and>
    locate_cursor (put_c c s) = cons_pos (put_c c s) \<and> same_input s (put_c c s)"
proof -
  have ok: "cons_ok s" using assms by (simp add: cons_ok_def)
  show ?thesis using put_c_bounds [OF ok, where c = c] by (simp add: cons_ok_def not_less)
qed

theorem put_c_in_bounds_witness:
  "cons_pos (put_c 9 blank_cons) < CONS_SIZE \<and> cells (put_c 9 blank_cons) 2000 = 0"
  using put_c_in_bounds [of blank_cons 9] by (simp add: blank_cons_def)

text \<open>
  C27. A printable character appears at the position with the current colour and the position moves on;
  at the last cell of the screen the rows below the status row move up by one, the character with them,
  the last row is blanked in the current colour, the status row stays, and the position is the start
  of the last row.
\<close>

theorem put_c_shows:
  assumes "cons_pos s < CONS_SIZE" and "c \<notin> {8, 9, 10, 13}"
    and "v = push_bit 8 (ucast (dcolor s)) OR scast c" and "bl = push_bit 8 (ucast (dcolor s)) OR 0x20"
  shows "(cons_pos s < CONS_SIZE - 1 \<longrightarrow>
      cells (put_c c s) = (cells s)(cons_pos s := v) \<and> cons_pos (put_c c s) = cons_pos s + 1) \<and>
    (cons_pos s = CONS_SIZE - 1 \<longrightarrow>
      (\<forall>i. cells (put_c c s) i =
         (if i < CONS_COLS \<or> CONS_SIZE \<le> i then cells s i
          else if i < CONS_SIZE - CONS_COLS then ((cells s)(CONS_SIZE - 1 := v)) (i + CONS_COLS) else bl)) \<and>
      cons_pos (put_c c s) = CONS_SIZE - CONS_COLS)"
proof -
  have cu: "cells (put_c c s) = cells (putc_to_console c s)" "cons_pos (put_c c s) = cons_pos (putc_to_console c s)"
    by (simp_all add: put_c_def write_serial_def Let_def)
  have sw: "putc_switch c (push_bit 8 (ucast (dcolor s))) s = s\<lparr>cells := (cells s)(cons_pos s := v), cons_pos := cons_pos s + 1\<rparr>"
    using assms(2,3) by (simp add: putc_switch_def)
  have up: "unat (cons_pos s + 1) = unat (cons_pos s) + 1"
    using assms(1) by (simp add: word_less_nat_alt unat_word_ariths)
  show ?thesis
    unfolding cu putc_to_console_def Let_def sw scroll_def
    using assms(4) up by (auto simp: word_le_nat_alt word_less_nat_alt)
qed

theorem put_c_shows_witness:
  "cells (put_c 65 blank_cons) 1919 = 0xA41 \<and> cons_pos (put_c 65 blank_cons) = 1920"
  using put_c_shows [of blank_cons 65, OF _ _ refl refl] by (simp add: blank_cons_def)

text \<open>
  C28. Input: the bytes that wait on the serial line when its interrupt comes are all taken, the reader
  is woken once for each byte but NUL, and \<^verbatim>\<open>get_c\<close> then returns exactly these bytes in the order of
  arrival, across the end of the circular buffer, as long as they fit.
\<close>

theorem serial_input_fifo:
  assumes "cb_repr s xs" and "cons_pos s < CONS_SIZE" and "has_serial s" and "length xs + length bs < CBUF_SIZE"
  shows "\<exists>s1 s2. serial_isr bs s = Some ([], s1) \<and> cwoken s1 = cwoken s + length (filter (\<lambda>b. b \<noteq> 0) bs) \<and>
    deq_n (get_c True) (length xs + length (filter (\<lambda>b. b \<noteq> 0) bs)) s1 =
      (map sint (xs @ filter (\<lambda>b. b \<noteq> 0) bs), s2) \<and> get_c True s2 = None"
proof -
  have ok: "cons_ok s" using assms(2) by (simp add: cons_ok_def)
  have "length xs + length (filter (\<lambda>b. b \<noteq> 0) bs) < CBUF_SIZE"
    using assms(4) length_filter_le [of "\<lambda>b. b \<noteq> 0" bs] by linarith
  note f = fold_feed_repr [OF assms(1) ok this]
  have "serial_isr bs s = Some ([], cons_outb 0x20 0x20 (fold feed bs s))"
    using assms(3) by (simp add: serial_isr_def console_isr_serial)
  moreover have "cb_repr (cons_outb 0x20 0x20 (fold feed bs s)) (xs @ filter (\<lambda>b. b \<noteq> 0) bs)"
    using f by simp
  ultimately show ?thesis using f get_c_all get_c_empty by fastforce
qed

theorem serial_input_fifo_witness:
  "\<exists>s1 s2. serial_isr [72, 0, 105] blank_cons = Some ([], s1) \<and> cwoken s1 = 2 \<and>
    deq_n (get_c True) 2 s1 = ([72, 105], s2) \<and> get_c True s2 = None"
proof -
  have "cons_pos blank_cons < CONS_SIZE" "has_serial blank_cons" "cwoken blank_cons = 0"
    by (simp_all add: blank_cons_def)
  moreover have "filter (\<lambda>b. b \<noteq> 0) [72, 0, 105 :: u8] = [72, 105]" by code_simp
  moreover have "length [72, 105 :: u8] = 2" "map sint [72, 105 :: u8] = [72, 105]" by simp_all
  ultimately show ?thesis using serial_input_fifo [OF blank_cons_ok(2), of "[72, 0, 105]"]
    by (simp del: deq_n.simps add: numeral_2_eq_2)
qed

text \<open>
  C29. The input buffer has no test for being full: when 1999 characters wait, one more makes it look
  empty and all of them are lost to \<^verbatim>\<open>get_c\<close>.
\<close>

theorem input_overrun_loses_all:
  assumes "cb_repr s xs" and "length xs = CBUF_SIZE - 1"
  shows "get_c False (cbuf_put c s) = Some (- 1, cbuf_put c s)"
proof -
  have "rpos s < CBUF_SIZE" "wpos s = (rpos s + 1999) mod CBUF_SIZE" using assms by (simp_all add: cb_repr_def)
  then have "wpos s = (if rpos s = 0 then 1999 else rpos s - 1)" by (auto simp: mod_if)
  then show ?thesis using \<open>rpos s < CBUF_SIZE\<close> by (auto simp: get_c_def cbuf_put_def Let_def)
qed

theorem input_overrun_loses_all_witness:
  "get_c False (cbuf_put 65 (blank_cons\<lparr>rpos := 0\<rparr>)) = Some (- 1, cbuf_put 65 (blank_cons\<lparr>rpos := 0\<rparr>))"
proof -
  have "cb_repr (blank_cons\<lparr>rpos := 0\<rparr>) (replicate 1999 0)"
    by (simp add: cb_repr_def blank_cons_def)
  from input_overrun_loses_all [OF this, of 65] show ?thesis by simp
qed

end
