(* ===== verification/Kern_Printf.thy ===== *)
theory Kern_Printf
  imports Kern_String Drv_Console
begin

text \<open>
  Formatted output: \<^verbatim>\<open>kern/printf.c\<close>, which prints on the console, and \<^verbatim>\<open>lib/printf.c\<close>, the same
  routines of the user programs, which write each character with a system call. The format and the
  arguments are read from memory, the arguments from the words above the format on the stack.
\<close>

section \<open>Numbers\<close>

abbreviation BUF_LEN :: nat where "BUF_LEN \<equiv> 67"

definition digits :: "u8 list" where
  "digits = [48, 49, 50, 51, 52, 53, 54, 55, 56, 57, 65, 66, 67, 68, 69, 70]"

text \<open>\<^verbatim>\<open>buf[i++] = c\<close>, where writing past the end of the buffer is a fault.\<close>

definition push_char :: "u8 \<Rightarrow> u8 list \<Rightarrow> u8 list res" where
  "push_char c buf = (if length buf < BUF_LEN then Inr (buf @ [c]) else Inl (Fault ''printint: buf''))"

text \<open>The callers pass the bases 2, 8, 10 and 16 only.\<close>

partial_function (option) digit_loop :: "u32 \<Rightarrow> u32 \<Rightarrow> u8 list \<Rightarrow> u8 list res option" where
  "digit_loop base ui buf =
     (if base = 0 then Some (Inl (Fault ''printint: division by zero''))
      else case push_char (digits ! unat (ui mod base)) buf of
             Inl e \<Rightarrow> Some (Inl e)
           | Inr buf1 \<Rightarrow> if ui div base \<noteq> 0 then digit_loop base (ui div base) buf1 else Some (Inr buf1))"

definition printint_buf :: "u32 \<Rightarrow> u32 \<Rightarrow> bool \<Rightarrow> u8 list res" where
  "printint_buf n base sign =
     (let flag = sign \<and> sint n < 0; ui = (if flag then - n else n)
      in bnd (ended ''printint'' (digit_loop base ui [])) (\<lambda>buf.
         bnd (if flag then push_char 45 buf else Inr buf) (\<lambda>buf.
         bnd (if base = 2 then push_char 98 buf
              else if base = 8 then push_char 111 buf
              else if base = 16 then push_char 120 buf else Inr buf) (\<lambda>buf.
         if base \<noteq> 10 then push_char 48 buf else Inr buf))))"

definition printint :: "u32 \<Rightarrow> u32 \<Rightarrow> bool \<Rightarrow> cons \<Rightarrow> cons res" where
  "printint n base sign s = bnd (printint_buf n base sign) (\<lambda>buf. Inr (fold put_c (rev buf) s))"

section \<open>Formats\<close>

partial_function (option) put_str :: "mem \<Rightarrow> u32 \<Rightarrow> cons \<Rightarrow> cons option" where
  "put_str m a s = (if m a = 0 then Some s else put_str m (a + 1) (put_c (m a) s))"

text \<open>The cases \<^verbatim>\<open>d\<close>, \<^verbatim>\<open>b\<close>, \<^verbatim>\<open>o\<close>, \<^verbatim>\<open>x\<close> and \<^verbatim>\<open>p\<close> of the \<^verbatim>\<open>switch\<close>: the base and the sign.\<close>

definition num_conv :: "u8 \<Rightarrow> (u32 \<times> bool) option" where
  "num_conv c =
     (if c = 100 then Some (10, True)
      else if c = 98 then Some (2, False)
      else if c = 111 then Some (8, False)
      else if c = 120 \<or> c = 112 then Some (16, False)
      else None)"

partial_function (option) printk_loop :: "mem \<Rightarrow> u32 \<Rightarrow> u32 \<Rightarrow> cons \<Rightarrow> cons res option" where
  "printk_loop m p ap s =
     (if m p = 0 then Some (Inr s)
      else if m p \<noteq> 37 then printk_loop m (p + 1) ap (put_c (m p) s)
      else if m (p + 1) = 0 then Some (Inr s)
      else case num_conv (m (p + 1)) of
             Some (base, sign) \<Rightarrow>
               (case printint (ld32 m ap) base sign s of
                  Inl e \<Rightarrow> Some (Inl e)
                | Inr s1 \<Rightarrow> printk_loop m (p + 2) (ap + 4) s1)
           | None \<Rightarrow>
               if m (p + 1) = 99 then printk_loop m (p + 2) (ap + 4) (put_c (ucast (ld32 m ap)) s)
               else if m (p + 1) = 115
               then (case put_str m (ld32 m ap) s of
                       None \<Rightarrow> None
                     | Some s1 \<Rightarrow> printk_loop m (p + 2) (ap + 4) s1)
               else printk_loop m (p + 2) ap s)"

text \<open>\<open>fp\<close> is the address of the parameter \<^verbatim>\<open>fmt\<close> on the stack.\<close>

definition printk :: "mem \<Rightarrow> u32 \<Rightarrow> cons \<Rightarrow> cons res" where
  "printk m fp s =
     (if ld32 m fp = 0 then Inr s else ended ''printk'' (printk_loop m (ld32 m fp) (fp + 4) s))"

section \<open>The digits of a number\<close>

text \<open>The reference: the digits of \<open>n\<close> in base \<open>b\<close>, least significant first.\<close>

function digs :: "nat \<Rightarrow> nat \<Rightarrow> u8 list" where
  "digs b n = digits ! (n mod b) # (if b < 2 \<or> n div b = 0 then [] else digs b (n div b))"
  by pat_completeness auto
termination digs
  by (relation "measure snd") (auto simp: div_less_dividend div_greater_zero_iff)

declare digs.simps [simp del]

lemma digs_length: "2 \<le> b \<Longrightarrow> n < b ^ Suc k \<Longrightarrow> length (digs b n) \<le> Suc k"
proof (induction k arbitrary: n)
  case 0
  then show ?case by (simp add: digs.simps)
next
  case (Suc k)
  then have "n div b < b ^ Suc k" by (simp add: less_mult_imp_div_less mult.commute)
  with Suc show ?case by (subst digs.simps) simp
qed

lemma digs_length_u32: "2 \<le> b \<Longrightarrow> length (digs b (unat (n :: u32))) \<le> 32"
proof -
  assume b: "2 \<le> b"
  have "unat n < 2 ^ Suc 31" using u32_less [of n] by simp
  also have "(2 :: nat) ^ Suc 31 \<le> b ^ Suc 31" using b by (rule power_mono) simp
  finally show ?thesis using digs_length [OF b, of _ 31] by simp
qed

lemma digit_loop_digs:
  "2 \<le> unat base \<Longrightarrow> length buf + length (digs (unat base) (unat ui)) \<le> BUF_LEN \<Longrightarrow>
   digit_loop base ui buf = Some (Inr (buf @ digs (unat base) (unat ui)))"
proof (induction "unat ui" arbitrary: ui buf rule: less_induct)
  case less
  have nz: "base \<noteq> 0" using less.prems(1) by auto
  have d: "unat (ui div base) = unat ui div unat base" "unat (ui mod base) = unat ui mod unat base"
    by (simp_all add: unat_div_distrib unat_mod_distrib)
  have z: "ui div base = 0 \<longleftrightarrow> unat ui div unat base = 0"
    using d(1) by (metis unsigned_0 unsigned_eq_0_iff)
  have room: "length buf < BUF_LEN" using less.prems(2) by (subst (asm) digs.simps) simp
  show ?case
  proof (cases "unat ui div unat base = 0")
    case True
    then show ?thesis
      using room nz z d(2) by (simp add: digit_loop.simps [of base ui] digs.simps push_char_def)
  next
    case False
    then have "0 < unat ui" by (cases "unat ui = 0") simp_all
    then have lt: "unat (ui div base) < unat ui" using less.prems(1) d(1) by simp
    have eq: "digs (unat base) (unat ui) = digits ! (unat ui mod unat base) # digs (unat base) (unat (ui div base))"
      using False less.prems(1) d(1) by (subst digs.simps) simp
    then have "length (buf @ [digits ! (unat ui mod unat base)]) + length (digs (unat base) (unat (ui div base))) \<le> BUF_LEN"
      using less.prems(2) by simp
    from less.hyps [OF lt less.prems(1) this] show ?thesis
      using False room nz z d(2) eq by (simp add: digit_loop.simps [of base ui] push_char_def)
  qed
qed

text \<open>What \<^verbatim>\<open>printint\<close> prints: the reference text.\<close>

definition int_text :: "u32 \<Rightarrow> u32 \<Rightarrow> bool \<Rightarrow> u8 list" where
  "int_text n base sign =
     (if base = 2 then [48, 98] else if base = 8 then [48, 111] else if base = 16 then [48, 120]
      else if base \<noteq> 10 then [48] else [])
     @ (if sign \<and> sint n < 0 then [45] else [])
     @ rev (digs (unat base) (unat (if sign \<and> sint n < 0 then - n else n)))"

lemma printint_buf_text:
  assumes "2 \<le> unat base"
  shows "printint_buf n base sign = Inr (rev (int_text n base sign))"
proof -
  define flag where "flag \<longleftrightarrow> sign \<and> sint n < 0"
  define ds where "ds = digs (unat base) (unat (if flag then - n else n))"
  have l: "length ds \<le> 32" unfolding ds_def by (rule digs_length_u32 [OF assms])
  have "digit_loop base (if flag then - n else n) [] = Some (Inr ds)"
    using digit_loop_digs [OF assms, of "[]" "if flag then - n else n"] l by (simp add: ds_def)
  then have "printint_buf n base sign = bnd (if flag then push_char 45 ds else Inr ds) (\<lambda>buf.
     bnd (if base = 2 then push_char 98 buf else if base = 8 then push_char 111 buf
          else if base = 16 then push_char 120 buf else Inr buf) (\<lambda>buf.
     if base \<noteq> 10 then push_char 48 buf else Inr buf))"
    by (simp add: printint_buf_def flag_def [symmetric])
  moreover have "rev (int_text n base sign) = ds @ (if flag then [45] else []) @
     (if base = 2 then [98, 48] else if base = 8 then [111, 48] else if base = 16 then [120, 48]
      else if base \<noteq> 10 then [48] else [])"
    by (simp add: int_text_def flag_def ds_def)
  moreover have "push_char c buf = Inr (buf @ [c])" if "length buf \<le> 34" for c buf
    using that by (simp add: push_char_def)
  ultimately show ?thesis using l by simp
qed

lemma printint_text:
  "2 \<le> unat base \<Longrightarrow> printint n base sign s = Inr (fold put_c (int_text n base sign) s)"
  by (simp add: printint_def printint_buf_text)

section \<open>Rendering a format\<close>

text \<open>
  The reference: a format is a list of characters and an argument is a number or a string.
  \<open>fmt_ok\<close> says that the arguments fit the conversions.
\<close>

datatype arg = Num u32 | Str "u8 list"

fun render :: "u8 list \<Rightarrow> arg list \<Rightarrow> u8 list" where
  "render [] as = []"
| "render [c] as = (if c = 37 then [] else [c])"
| "render (c # d # cs) as =
     (if c \<noteq> 37 then c # render (d # cs) as
      else case num_conv d of
             Some (base, sign) \<Rightarrow>
               (case as of Num n # as' \<Rightarrow> int_text n base sign @ render cs as' | _ \<Rightarrow> [])
           | None \<Rightarrow>
               if d = 99 then (case as of Num n # as' \<Rightarrow> ucast n # render cs as' | _ \<Rightarrow> [])
               else if d = 115 then (case as of Str bs # as' \<Rightarrow> bs @ render cs as' | _ \<Rightarrow> [])
               else render cs as)"

fun fmt_ok :: "u8 list \<Rightarrow> arg list \<Rightarrow> bool" where
  "fmt_ok [] as \<longleftrightarrow> True"
| "fmt_ok [c] as \<longleftrightarrow> True"
| "fmt_ok (c # d # cs) as \<longleftrightarrow>
     (if c \<noteq> 37 then fmt_ok (d # cs) as
      else if num_conv d \<noteq> None \<or> d = 99 then (case as of Num n # as' \<Rightarrow> fmt_ok cs as' | _ \<Rightarrow> False)
      else if d = 115 then (case as of Str bs # as' \<Rightarrow> fmt_ok cs as' | _ \<Rightarrow> False)
      else fmt_ok cs as)"

text \<open>The arguments as the caller pushed them.\<close>

fun args_at :: "mem \<Rightarrow> u32 \<Rightarrow> arg list \<Rightarrow> bool" where
  "args_at m ap [] \<longleftrightarrow> True"
| "args_at m ap (Num n # as) \<longleftrightarrow> ld32 m ap = n \<and> args_at m (ap + 4) as"
| "args_at m ap (Str bs # as) \<longleftrightarrow> cstr m (ld32 m ap) bs \<and> args_at m (ap + 4) as"

lemma put_str_cstr: "cstr m a xs \<Longrightarrow> put_str m a s = Some (fold put_c xs s)"
  by (induction xs arbitrary: a s) (simp_all add: put_str.simps)

lemma num_conv_base: "num_conv d = Some (base, sign) \<Longrightarrow> 2 \<le> unat base"
  by (auto simp: num_conv_def split: if_splits)

lemma printk_loop_render:
  "cstr m p fmt \<Longrightarrow> fmt_ok fmt as \<Longrightarrow> args_at m ap as \<Longrightarrow>
   printk_loop m p ap s = Some (Inr (fold put_c (render fmt as) s))"
proof (induction fmt as arbitrary: p ap s rule: render.induct)
  case (1 as)
  then show ?case by (simp add: printk_loop.simps)
next
  case (2 c as)
  then show ?case by (simp add: printk_loop.simps [of m p] printk_loop.simps [of m "p + 1"])
next
  case (3 c d cs as)
  have p2: "p + 1 + 1 = p + 2" by simp
  have s: "m p = c" "c \<noteq> 0" "m (p + 1) = d" "d \<noteq> 0" "cstr m (p + 1) (d # cs)" "cstr m (p + 2) cs"
    using "3.prems"(1) unfolding cstr.simps p2 by auto
  show ?case
  proof (cases "c = 37")
    case False
    then show ?thesis using "3.IH"(1) [OF False s(5)] "3.prems" s by (simp add: printk_loop.simps [of m p])
  next
    case c: True
    show ?thesis
    proof (cases "num_conv d")
      case (Some bs)
      obtain base sign where bs: "bs = (base, sign)" by fastforce
      obtain n as' where as: "as = Num n # as'" "fmt_ok cs as'"
        using "3.prems"(2) c Some by (auto split: list.splits arg.splits)
      have "num_conv d = Some (base, sign)" using Some bs by simp
      note t = printint_text [OF num_conv_base [OF this], of n sign s]
      then show ?thesis
        using "3.IH"(2-5) "3.prems" s c Some bs as
        by (simp add: printk_loop.simps [of m p])
    next
      case None
      then show ?thesis
        using "3.IH"(2-5) "3.prems" s c put_str_cstr
        by (auto simp: printk_loop.simps [of m p] split: list.splits arg.splits)
    qed
  qed
qed

text \<open>
  Callers with literal formats: \<open>kprint\<close> is \<^verbatim>\<open>printk\<close> applied to a format and arguments, whatever place
  in memory they have, as \<open>printk_render\<close> shows.
\<close>

definition chars :: "string \<Rightarrow> u8 list" where
  "chars str = map of_char str"

definition kprint :: "string \<Rightarrow> arg list \<Rightarrow> cons \<Rightarrow> cons" where
  "kprint fmt as s = fold put_c (render (chars fmt) as) s"

lemma printk_render:
  assumes "ld32 m fp \<noteq> 0" and "cstr m (ld32 m fp) fmt" and "fmt_ok fmt as" and "args_at m (fp + 4) as"
  shows "printk m fp s = Inr (fold put_c (render fmt as) s)"
  using assms by (simp add: printk_def printk_loop_render)

section \<open>Panic\<close>

text \<open>The screen \<^verbatim>\<open>panic\<close> and \<^verbatim>\<open>assert_failed\<close> leave; then they loop with the interrupts off.\<close>

definition panic :: "u8 list \<Rightarrow> cons \<Rightarrow> cons" where
  "panic str s = kprint ''Kernel PANIC!! --> %s\<newline>'' [Str str] (settextcolor 14 4 s)"

definition assert_failed :: "u8 list \<Rightarrow> u32 \<Rightarrow> u8 list \<Rightarrow> cons \<Rightarrow> cons" where
  "assert_failed file line desc s =
     kprint ''File(%s: %d): %s\<newline>'' [Str file, Num line, Str desc]
       (kprint ''ASSERTION FAILED!!\<newline>'' [] (settextcolor 14 4 s))"

section \<open>Properties\<close>

text \<open>Reading a number back from its text.\<close>

definition digit_val :: "u8 \<Rightarrow> nat" where
  "digit_val c = (if c < 65 then unat (c - 48) else unat (c - 55))"

definition read_digits :: "nat \<Rightarrow> u8 list \<Rightarrow> nat" where
  "read_digits b ds = foldl (\<lambda>a c. a * b + digit_val c) 0 ds"

definition read_num :: "u8 list \<Rightarrow> int" where
  "read_num cs =
     (if take 2 cs = [48, 98] then int (read_digits 2 (drop 2 cs))
      else if take 2 cs = [48, 111] then int (read_digits 8 (drop 2 cs))
      else if take 2 cs = [48, 120] then int (read_digits 16 (drop 2 cs))
      else if take 1 cs = [45] then - int (read_digits 10 (drop 1 cs))
      else int (read_digits 10 cs))"

lemma digit_val_digits: "k < 16 \<Longrightarrow> digit_val (digits ! k) = k"
proof -
  have "list_all (\<lambda>k. digit_val (digits ! k) = k) [0..<16]" by code_simp
  then show "k < 16 \<Longrightarrow> digit_val (digits ! k) = k" by (simp add: list_all_iff)
qed

lemma decimal_digit: "k < 10 \<Longrightarrow> digits ! k \<notin> {45, 98, 111, 120}"
proof -
  have "list_all (\<lambda>k. digits ! k \<notin> {45, 98, 111, 120}) [0..<10]" by code_simp
  then show "k < 10 \<Longrightarrow> digits ! k \<notin> {45, 98, 111, 120}" by (simp add: list_all_iff)
qed

lemma read_digs: "2 \<le> b \<Longrightarrow> b \<le> 16 \<Longrightarrow> read_digits b (rev (digs b n)) = n"
proof (induction b n rule: digs.induct)
  case (1 b n)
  have m: "digit_val (digits ! (n mod b)) = n mod b"
    using "1.prems" mod_less_divisor [of b n] by (intro digit_val_digits) linarith
  show ?case
  proof (cases "n div b = 0")
    case True
    then have "n mod b = n" using div_mult_mod_eq [of n b] by simp
    then show ?thesis using m True by (simp add: digs.simps read_digits_def)
  next
    case False
    then show ?thesis using "1.IH" "1.prems" m
      by (subst digs.simps) (simp add: read_digits_def)
  qed
qed

lemma decimal_digs: "x \<in> set (digs 10 n) \<Longrightarrow> x \<notin> {45, 98, 111, 120}"
proof (induction "10 :: nat" n rule: digs.induct)
  case (1 n)
  have "n mod 10 < 10" by simp
  from decimal_digit [OF this] show ?case
    using 1 by (subst (asm) (2) digs.simps) (auto split: if_splits)
qed

lemma sint_cases_u32:
  fixes n :: u32
  shows "sint n = (if sint n < 0 then - int (unat (- n)) else int (unat n))"
proof -
  have u: "uint n < 2 ^ 32" "0 \<le> uint n" using uint_lt2p [of n] by simp_all
  note s = sint_u32 [of n]
  show ?thesis
  proof (cases "sint n < 0")
    case True
    then have "n \<noteq> 0" by auto
    then have "unat (- n) = 2 ^ 32 - unat n" using unat_sub_if' [of 0 n] by (simp add: unsigned_eq_0_iff)
    moreover have "unat n \<le> 2 ^ 32" using u32_less [of n] by simp
    ultimately have "int (unat (- n)) = 2 ^ 32 - uint n" by (simp only: of_nat_diff) simp
    moreover have "sint n = uint n - 2 ^ 32" using True s u by (auto split: if_splits)
    ultimately show ?thesis using True by simp
  next
    case False
    then show ?thesis using s u by (simp split: if_splits)
  qed
qed

text \<open>
  C31. The numbers \<^verbatim>\<open>printint\<close> prints read back as the number printed: in decimal as the signed value,
  also for the smallest \<^verbatim>\<open>int\<close>, whose negation wraps around; in binary, octal and hexadecimal as the
  unsigned value. It never writes past its buffer of 67 characters.
\<close>

theorem printint_reads_back:
  "(\<exists>out. printint n 10 True s = Inr (fold put_c out s) \<and> read_num out = sint n \<and> length out \<le> 33) \<and>
   (\<exists>out. printint n 2 False s = Inr (fold put_c out s) \<and> read_num out = uint n \<and> length out \<le> 34) \<and>
   (\<exists>out. printint n 8 False s = Inr (fold put_c out s) \<and> read_num out = uint n \<and> length out \<le> 34) \<and>
   (\<exists>out. printint n 16 False s = Inr (fold put_c out s) \<and> read_num out = uint n \<and> length out \<le> 34)"
proof -
  let ?dec = "int_text n 10 True"
  have "take 2 (rev (digs 10 k)) \<noteq> [48, 98]" "take 2 (rev (digs 10 k)) \<noteq> [48, 111]"
    "take 2 (rev (digs 10 k)) \<noteq> [48, 120]" "take 1 (rev (digs 10 k)) \<noteq> [45]" for k
    using decimal_digs [of _ k] by (metis decimal_digs in_set_takeD insert_iff list.set_intros set_rev)+
  then have "read_num ?dec = (if sint n < 0 then - int (unat (- n)) else int (unat n))"
    by (simp add: read_num_def int_text_def read_digs)
  then have "read_num ?dec = sint n" using sint_cases_u32 [of n] by metis
  moreover have "length ?dec \<le> 33"
    using digs_length_u32 [of 10 n] digs_length_u32 [of 10 "- n"] by (simp add: int_text_def)
  moreover have "read_num (int_text n base False) = uint n \<and> length (int_text n base False) \<le> 34"
    if "base \<in> {2, 8, 16}" for base
    using that digs_length_u32 [of "unat base" n] by (auto simp: read_num_def int_text_def read_digs)
  ultimately show ?thesis
    using printint_text [of 10 n True s] printint_text [of _ n False s] by (intro conjI) (auto intro!: exI)
qed



section \<open>The user library\<close>

text \<open>
  \<^verbatim>\<open>lib/printf.c\<close>: \<^verbatim>\<open>putc\<close> writes one character to the file 1; \<open>out\<close> is what has been written. The
  conversion \<^verbatim>\<open>c\<close> is not known to it.
\<close>

definition lib_putc :: "u8 \<Rightarrow> u8 list \<Rightarrow> u8 list" where
  "lib_putc c out = out @ [c]"

definition lib_printint :: "u32 \<Rightarrow> u32 \<Rightarrow> bool \<Rightarrow> u8 list \<Rightarrow> u8 list res" where
  "lib_printint n base sign out = bnd (printint_buf n base sign) (\<lambda>buf. Inr (fold lib_putc (rev buf) out))"

partial_function (option) lib_put_str :: "mem \<Rightarrow> u32 \<Rightarrow> u8 list \<Rightarrow> u8 list option" where
  "lib_put_str m a out = (if m a = 0 then Some out else lib_put_str m (a + 1) (lib_putc (m a) out))"

partial_function (option) printf_loop :: "mem \<Rightarrow> u32 \<Rightarrow> u32 \<Rightarrow> u8 list \<Rightarrow> u8 list res option" where
  "printf_loop m p ap out =
     (if m p = 0 then Some (Inr out)
      else if m p \<noteq> 37 then printf_loop m (p + 1) ap (lib_putc (m p) out)
      else if m (p + 1) = 0 then Some (Inr out)
      else case num_conv (m (p + 1)) of
             Some (base, sign) \<Rightarrow>
               (case lib_printint (ld32 m ap) base sign out of
                  Inl e \<Rightarrow> Some (Inl e)
                | Inr out1 \<Rightarrow> printf_loop m (p + 2) (ap + 4) out1)
           | None \<Rightarrow>
               if m (p + 1) = 115
               then (case lib_put_str m (ld32 m ap) out of
                       None \<Rightarrow> None
                     | Some out1 \<Rightarrow> printf_loop m (p + 2) (ap + 4) out1)
               else printf_loop m (p + 2) ap out)"

definition printf :: "mem \<Rightarrow> u32 \<Rightarrow> u8 list \<Rightarrow> u8 list res" where
  "printf m fp out =
     (if ld32 m fp = 0 then Inr out else ended ''printf'' (printf_loop m (ld32 m fp) (fp + 4) out))"

lemma fold_lib_putc: "fold lib_putc xs out = out @ xs"
  by (induction xs arbitrary: out) (simp_all add: lib_putc_def)

lemma lib_put_str_cstr: "cstr m a xs \<Longrightarrow> lib_put_str m a out = Some (out @ xs)"
  by (induction xs arbitrary: a out) (simp_all add: lib_put_str.simps lib_putc_def)

lemma lib_printint_text: "2 \<le> unat base \<Longrightarrow> lib_printint n base sign out = Inr (out @ int_text n base sign)"
  by (simp add: lib_printint_def printint_buf_text fold_lib_putc)

end
