(* ===== verification/Kern_Desc.thy ===== *)
theory Kern_Desc
  imports Kern_Printf Kern_Switch
begin

text \<open>
  Segment descriptors and interrupt gates: \<^verbatim>\<open>kern/descriptor.c\<close> with \<^verbatim>\<open>kern/descriptor.h\<close>. The GDT is an array of bytes
  into which descriptors are stored at byte offsets, the selectors; the IDT is an array of gates.
\<close>

section \<open>Descriptors and gates\<close>

abbreviation ISR_NUM :: nat where "ISR_NUM \<equiv> 0x30"
abbreviation GDT_NUM :: nat where "GDT_NUM \<equiv> 128"
abbreviation IDT_NUM :: nat where "IDT_NUM \<equiv> 256"
abbreviation T_SYSCALL :: nat where "T_SYSCALL \<equiv> 48"
abbreviation DA_DPL3 :: u16 where "DA_DPL3 \<equiv> 0x60"
abbreviation DA_DRW :: u16 where "DA_DRW \<equiv> 0x92"
abbreviation DA_CR :: u16 where "DA_CR \<equiv> 0x9A"
abbreviation DA_386TSS :: u16 where "DA_386TSS \<equiv> 0x89"
abbreviation TSS_SIZE :: u32 where "TSS_SIZE \<equiv> 104"

record descriptor =
  lim_low :: u16
  base_low :: u16
  base_mid :: u8
  attr1 :: u8
  attr2_lim_high :: u8
  base_high :: u8

record gate =
  offset_low :: u16
  g_sel :: u16
  g_dcount :: u8
  g_attr :: u8
  offset_high :: u16

definition set_descriptor :: "u32 \<Rightarrow> u32 \<Rightarrow> u16 \<Rightarrow> descriptor" where
  "set_descriptor base lim attr =
     \<lparr>lim_low = ucast (lim AND 0xffff), base_low = ucast (base AND 0xffff), base_mid = ucast (drop_bit 16 base AND 0xff),
      attr1 = ucast (attr AND 0xff),
      attr2_lim_high = ucast (ucast (drop_bit 8 attr AND 0xf0) OR (drop_bit 16 lim AND 0x0f)),
      base_high = ucast (drop_bit 24 base)\<rparr>"

definition set_gate :: "u32 \<Rightarrow> u8 \<Rightarrow> u16 \<Rightarrow> gate" where
  "set_gate offset attr sel =
     \<lparr>offset_low = ucast (offset AND 0xffff), g_sel = sel, g_dcount = 0, g_attr = attr,
      offset_high = ucast (drop_bit 16 offset AND 0xffff)\<rparr>"

definition d_base :: "descriptor \<Rightarrow> u32" where
  "d_base d = push_bit 24 (ucast (base_high d)) OR push_bit 16 (ucast (base_mid d)) OR ucast (base_low d)"

definition d_lim :: "descriptor \<Rightarrow> u32" where
  "d_lim d = ucast (lim_low d) OR push_bit 16 (ucast (attr2_lim_high d AND 0x0f))"

definition d_attr :: "descriptor \<Rightarrow> u16" where
  "d_attr d = ucast (attr1 d) OR push_bit 8 (ucast (attr2_lim_high d AND 0xf0))"

definition dump_descriptor :: "descriptor \<Rightarrow> cons \<Rightarrow> cons" where
  "dump_descriptor d = kprint ''base: %x, lim: %x, attr: %x\<newline>'' [Num (d_base d), Num (d_lim d), Num (ucast (d_attr d))]"

section \<open>The tables\<close>

text \<open>
  What the compiler lays out: a descriptor is eight bytes, its words little-endian. \<open>tss0\<close> is \<^verbatim>\<open>tss.ss0\<close>, the only
  field of the cleared \<^verbatim>\<open>tss\<close> that is set; \<open>gdtr\<close> and \<open>idtr\<close> are what \<^verbatim>\<open>lgdt\<close> and \<^verbatim>\<open>lidt\<close> load, base and limit. The last
  three fields are addresses the linker fixes.
\<close>

record dtabs =
  gdt :: "u8 list"
  idt :: "gate list"
  tss0 :: u32
  gdtr :: "u32 \<times> u16"
  idtr :: "u32 \<times> u16"
  sym_tss :: u32
  sym_gdt :: u32
  sym_idt :: u32

definition desc_bytes :: "descriptor \<Rightarrow> u8 list" where
  "desc_bytes d = [ucast (lim_low d), ucast (drop_bit 8 (lim_low d)), ucast (base_low d), ucast (drop_bit 8 (base_low d)),
     base_mid d, attr1 d, attr2_lim_high d, base_high d]"

definition desc_at :: "nat \<Rightarrow> u8 list \<Rightarrow> descriptor" where
  "desc_at i g = \<lparr>lim_low = ucast (g ! i) OR push_bit 8 (ucast (g ! (i + 1))),
     base_low = ucast (g ! (i + 2)) OR push_bit 8 (ucast (g ! (i + 3))), base_mid = g ! (i + 4), attr1 = g ! (i + 5),
     attr2_lim_high = g ! (i + 6), base_high = g ! (i + 7)\<rparr>"

definition put_desc :: "u32 \<Rightarrow> descriptor \<Rightarrow> u8 list \<Rightarrow> u8 list" where
  "put_desc sel d g = take (unat sel) g @ desc_bytes d @ drop (unat sel + 8) g"

abbreviation KER_TSS :: u32 where "KER_TSS \<equiv> 0x28"
abbreviation USR_CODE_SEL :: u32 where "USR_CODE_SEL \<equiv> 0x18"
abbreviation USR_DATA_SEL :: u32 where "USR_DATA_SEL \<equiv> 0x20"

definition init_gdt :: "dtabs \<Rightarrow> dtabs" where
  "init_gdt s =
     (let g0 = replicate (GDT_NUM * 8) 0;
          g1 = put_desc KER_CODE (set_descriptor 0 0xfffff (0xC000 OR DA_CR)) g0;
          g2 = put_desc KER_DATA (set_descriptor 0 0xfffff (0xC000 OR DA_DRW)) g1;
          g3 = put_desc USR_CODE_SEL (set_descriptor 0 0xfffff (0xC000 OR DA_DPL3 OR DA_CR)) g2;
          g4 = put_desc USR_DATA_SEL (set_descriptor 0 0xfffff (0xC000 OR DA_DPL3 OR DA_DRW)) g3;
          g5 = put_desc KER_TSS (set_descriptor (sym_tss s) (TSS_SIZE - 1) DA_386TSS) g4
      in s\<lparr>gdt := g5, tss0 := KER_DATA, gdtr := (sym_gdt s, of_nat (GDT_NUM * 8 - 1))\<rparr>)"

definition null_gate :: gate where
  "null_gate = \<lparr>offset_low = 0, g_sel = 0, g_dcount = 0, g_attr = 0, offset_high = 0\<rparr>"

definition init_idt :: "u32 list \<Rightarrow> dtabs \<Rightarrow> dtabs" where
  "init_idt isr_table s =
     (let t0 = replicate IDT_NUM null_gate;
          t1 = fold (\<lambda>i t. t[i := set_gate (isr_table ! i) 0x8e (ucast KER_CODE)]) [0..<ISR_NUM] t0;
          t2 = t1[T_SYSCALL := set_gate (isr_table ! T_SYSCALL) 0xee (ucast KER_CODE)]
      in s\<lparr>idt := t2, idtr := (sym_idt s, of_nat (IDT_NUM * 8 - 1))\<rparr>)"

definition dump_gdt :: "dtabs \<Rightarrow> cons \<Rightarrow> cons" where
  "dump_gdt s c =
     kprint ''------- dump_gdt() end --------\<newline>'' []
       (fold (\<lambda>i. dump_descriptor (desc_at (8 * i) (gdt s))) [0..<6]
         (kprint (''\<newline>------- dump_gdt() start ------\<newline>'') [] c))"

section \<open>What the processor reads\<close>

lemma masks:
  "0xff = (mask 8 :: u32)" "0xffff = (mask 16 :: u32)" "0xfffff = (mask 20 :: u32)" "0x0f = (mask 4 :: u32)" "0x0f = (mask 4 :: u8)"
  "0xff = (mask 8 :: u16)" "0xf0 = (push_bit 4 (mask 4) :: u16)" "0xf0 = (push_bit 4 (mask 4) :: u8)"
  "0xf0ff = (push_bit 12 (mask 4) OR mask 8 :: u16)"
  by (simp_all add: mask_eq_exp_minus_1)

lemma d_base_set: "d_base (set_descriptor base lim attr) = base"
proof (rule bit_word_eqI)
  fix n :: nat
  assume "n < LENGTH(32)"
  then show "bit (d_base (set_descriptor base lim attr)) n = bit base n"
    unfolding d_base_def set_descriptor_def masks descriptor.simps by (cases "24 \<le> n") (auto simp: bit_simps)
qed

lemma d_lim_set: "d_lim (set_descriptor base lim attr) = lim AND 0xfffff"
proof (rule bit_word_eqI)
  fix n :: nat
  assume "n < LENGTH(32)"
  then show "bit (d_lim (set_descriptor base lim attr)) n = bit (lim AND 0xfffff) n"
    unfolding d_lim_def set_descriptor_def masks descriptor.simps by (cases "16 \<le> n") (auto simp: bit_simps)
qed

lemma d_attr_set: "d_attr (set_descriptor base lim attr) = attr AND 0xf0ff"
proof (rule bit_word_eqI)
  fix n :: nat
  assume "n < LENGTH(16)"
  then show "bit (d_attr (set_descriptor base lim attr)) n = bit (attr AND 0xf0ff) n"
    unfolding d_attr_def set_descriptor_def masks descriptor.simps by (cases "8 \<le> n") (auto simp: bit_simps)
qed

definition gate_offset :: "gate \<Rightarrow> u32" where
  "gate_offset g = ucast (offset_low g) OR push_bit 16 (ucast (offset_high g))"

lemma gate_offset_set: "gate_offset (set_gate off attr sel) = off"
proof (rule bit_word_eqI)
  fix n :: nat
  assume "n < LENGTH(32)"
  then show "bit (gate_offset (set_gate off attr sel)) n = bit off n"
    unfolding gate_offset_def set_gate_def masks gate.simps by (cases "16 \<le> n") (auto simp: bit_simps)
qed

lemma join16: "ucast (ucast w :: u8) OR push_bit 8 (ucast (ucast (drop_bit 8 w) :: u8)) = (w :: u16)"
proof (rule bit_word_eqI)
  fix n :: nat
  assume "n < LENGTH(16)"
  then show "bit (ucast (ucast w :: u8) OR push_bit 8 (ucast (ucast (drop_bit 8 w) :: u8)) :: u16) n = bit w n"
    by (cases "8 \<le> n") (auto simp: bit_simps)
qed

lemma desc_bytes_length: "length (desc_bytes d) = 8"
  by (simp add: desc_bytes_def)

lemma put_desc_length: "unat sel + 8 \<le> length g \<Longrightarrow> length (put_desc sel d g) = length g"
  by (simp add: put_desc_def desc_bytes_def)

lemma put_desc_same:
  assumes "unat sel + 8 \<le> length g" and "i = unat sel"
  shows "desc_at i (put_desc sel d g) = d"
proof -
  have "put_desc sel d g ! (i + k) = desc_bytes d ! k" if "k < 8" for k
    using assms that by (simp add: put_desc_def nth_append desc_bytes_length)
  from this [of 0] this [of 1] this [of 2] this [of 3] this [of 4] this [of 5] this [of 6] this [of 7]
  show ?thesis by (simp add: desc_at_def desc_bytes_def join16)
qed

lemma put_desc_other:
  assumes "unat sel + 8 \<le> length g" and "i + 8 \<le> unat sel \<or> unat sel + 8 \<le> i" and "i + 8 \<le> length g"
  shows "desc_at i (put_desc sel d g) = desc_at i g"
proof -
  have "put_desc sel d g ! (i + k) = g ! (i + k)" if "k < 8" for k
    using assms that by (auto simp: put_desc_def nth_append desc_bytes_def)
  from this [of 0] this [of 1] this [of 2] this [of 3] this [of 4] this [of 5] this [of 6] this [of 7]
  show ?thesis by (simp add: desc_at_def)
qed

lemma init_gdt_at:
  "desc_at 8 (gdt (init_gdt s)) = set_descriptor 0 0xfffff (0xC000 OR DA_CR)"
  "desc_at 16 (gdt (init_gdt s)) = set_descriptor 0 0xfffff (0xC000 OR DA_DRW)"
  "desc_at 24 (gdt (init_gdt s)) = set_descriptor 0 0xfffff (0xC000 OR DA_DPL3 OR DA_CR)"
  "desc_at 32 (gdt (init_gdt s)) = set_descriptor 0 0xfffff (0xC000 OR DA_DPL3 OR DA_DRW)"
  "desc_at 40 (gdt (init_gdt s)) = set_descriptor (sym_tss s) (TSS_SIZE - 1) DA_386TSS"
  unfolding init_gdt_def Let_def by (simp_all add: put_desc_same put_desc_other put_desc_length)

lemma fold_gates:
  assumes "n \<le> length t"
  shows "length (fold (\<lambda>i t. t[i := f i]) [0..<n] t) = length t"
    and "i < length t \<Longrightarrow> fold (\<lambda>i t. t[i := f i]) [0..<n] t ! i = (if i < n then f i else t ! i)"
proof -
  have "length (fold (\<lambda>i t. t[i := f i]) [0..<n] t) = length t \<and>
    (\<forall>i < length t. fold (\<lambda>i t. t[i := f i]) [0..<n] t ! i = (if i < n then f i else t ! i))"
    using assms by (induction n) (auto simp: nth_list_update)
  then show "length (fold (\<lambda>i t. t[i := f i]) [0..<n] t) = length t"
    "i < length t \<Longrightarrow> fold (\<lambda>i t. t[i := f i]) [0..<n] t ! i = (if i < n then f i else t ! i)" by blast+
qed

lemma init_idt_at:
  assumes "i < IDT_NUM"
  shows "idt (init_idt tab s) ! i =
    (if i < ISR_NUM then set_gate (tab ! i) 0x8e (ucast KER_CODE)
     else if i = T_SYSCALL then set_gate (tab ! i) 0xee (ucast KER_CODE) else null_gate)"
  using assms fold_gates [of ISR_NUM "replicate IDT_NUM null_gate"]
  by (simp add: init_idt_def Let_def nth_list_update del: upt_rec_numeral)

section \<open>Properties\<close>


end
