(* ===== verification/Kern_Clock.thy ===== *)
theory Kern_Clock
  imports Kern_Printf Kern_Task
begin

text \<open>
  The real-time clock (\<^verbatim>\<open>kern/get_time.c\<close>, \<^verbatim>\<open>inc/time.h\<close>) and the timer (\<^verbatim>\<open>kern/time.c\<close>).
\<close>

section \<open>The real-time clock\<close>

text \<open>
  The CMOS chip is a parameter: \<open>cmos k r\<close> is what the \<open>k\<close>-th read of the data port delivers when register \<open>r\<close> has
  been selected. A reader is a function of the number of reads so far.
\<close>

type_synonym cmos = "nat \<Rightarrow> u8 \<Rightarrow> u8"

record tm =
  tm_sec :: int
  tm_min :: int
  tm_hour :: int
  tm_mday :: int
  tm_mon :: int
  tm_year :: int

abbreviation CURRENT_YEAR :: int where "CURRENT_YEAR \<equiv> 2013"

definition bcd2bin :: "int \<Rightarrow> int" where
  "bcd2bin a = (a AND 0x0F) + a div 16 * 10"

definition get_update_in_progress_flag :: "cmos \<Rightarrow> nat \<Rightarrow> bool \<times> nat" where
  "get_update_in_progress_flag cm k = (cm k 0x0A AND 0x80 \<noteq> 0, k + 1)"

definition get_RTC_register :: "cmos \<Rightarrow> u8 \<Rightarrow> nat \<Rightarrow> int \<times> nat" where
  "get_RTC_register cm r k = (uint (cm k r), k + 1)"

partial_function (option) wait_update :: "cmos \<Rightarrow> nat \<Rightarrow> nat option" where
  "wait_update cm k =
     (case get_update_in_progress_flag cm k of (busy, k1) \<Rightarrow> if busy then wait_update cm k1 else Some k1)"

text \<open>The registers in the order they are read; the century only when its register is known (\<open>cr\<close> is not 0).\<close>

definition read_regs :: "cmos \<Rightarrow> u8 \<Rightarrow> int \<Rightarrow> nat \<Rightarrow> (tm \<times> int) \<times> nat" where
  "read_regs cm cr century k =
     (case get_RTC_register cm 0x00 k of (sec, k) \<Rightarrow>
      case get_RTC_register cm 0x02 k of (mi, k) \<Rightarrow>
      case get_RTC_register cm 0x04 k of (hour, k) \<Rightarrow>
      case get_RTC_register cm 0x07 k of (mday, k) \<Rightarrow>
      case get_RTC_register cm 0x08 k of (mon, k) \<Rightarrow>
      case get_RTC_register cm 0x09 k of (year, k) \<Rightarrow>
      let t = \<lparr>tm_sec = sec, tm_min = mi, tm_hour = hour, tm_mday = mday, tm_mon = mon, tm_year = year\<rparr>
      in if cr \<noteq> 0 then (case get_RTC_register cm cr k of (c, k) \<Rightarrow> ((t, c), k)) else ((t, century), k))"

text \<open>\<open>do ... while\<close>: another reading is taken as long as the last two agree.\<close>

partial_function (option) rtc_loop :: "cmos \<Rightarrow> u8 \<Rightarrow> tm \<times> int \<Rightarrow> nat \<Rightarrow> ((tm \<times> int) \<times> nat) option" where
  "rtc_loop cm cr old k =
     (case wait_update cm k of
        None \<Rightarrow> None
      | Some k1 \<Rightarrow>
          (case read_regs cm cr (snd old) k1 of (new, k2) \<Rightarrow>
             if old = new then rtc_loop cm cr new k2 else Some (new, k2)))"

definition from_bcd :: "u8 \<Rightarrow> tm \<times> int \<Rightarrow> tm \<times> int" where
  "from_bcd cr = (\<lambda>(t, century).
     (t\<lparr>tm_sec := bcd2bin (tm_sec t), tm_min := bcd2bin (tm_min t),
        tm_hour := ((tm_hour t AND 0x0F) + (tm_hour t AND 0x70) div 16 * 10) OR (tm_hour t AND 0x80),
        tm_mday := bcd2bin (tm_mday t), tm_mon := bcd2bin (tm_mon t), tm_year := bcd2bin (tm_year t)\<rparr>,
      if cr \<noteq> 0 then bcd2bin century else century))"

definition to_24h :: "tm \<Rightarrow> tm" where
  "to_24h t = t\<lparr>tm_hour := ((tm_hour t AND 0x7F) + 12) mod 24\<rparr>"

definition full_year :: "u8 \<Rightarrow> int \<Rightarrow> tm \<Rightarrow> tm" where
  "full_year cr century t =
     (if cr \<noteq> 0 then t\<lparr>tm_year := tm_year t + century * 100\<rparr>
      else let y = tm_year t + CURRENT_YEAR div 100 * 100
           in t\<lparr>tm_year := if y < CURRENT_YEAR then y + 100 else y\<rparr>)"

text \<open>\<open>junk\<close> is what \<^verbatim>\<open>century\<close> holds before it is assigned, if it is.\<close>

definition read_rtc :: "cmos \<Rightarrow> u8 \<Rightarrow> int \<Rightarrow> nat \<Rightarrow> (tm \<times> nat) option" where
  "read_rtc cm cr junk k =
     (case wait_update cm k of
        None \<Rightarrow> None
      | Some k1 \<Rightarrow>
          (case read_regs cm cr junk k1 of (first, k2) \<Rightarrow>
             (case rtc_loop cm cr first k2 of
                None \<Rightarrow> None
              | Some (raw, k3) \<Rightarrow>
                  (case get_RTC_register cm 0x0B k3 of (b, k4) \<Rightarrow>
                     let (t, century) = (if b AND 0x04 = 0 then from_bcd cr raw else raw);
                         t1 = (if b AND 0x02 = 0 \<and> tm_hour t AND 0x80 \<noteq> 0 then to_24h t else t)
                     in Some (full_year cr century t1, k4)))))"

definition get_time :: "cmos \<Rightarrow> u8 \<Rightarrow> int \<Rightarrow> nat \<Rightarrow> cons \<Rightarrow> ((tm \<times> nat) \<times> cons) option" where
  "get_time cm cr junk k c =
     (case read_rtc cm cr junk k of
        None \<Rightarrow> None
      | Some (t, k1) \<Rightarrow>
          let c1 = settextcolor 12 0 c; (x, y) = get_cursor c1;
              c2 = kprint ''Boot Time: %d-%d-%d %d:%d:%d''
                     (map (Num \<circ> word_of_int) [tm_year t, tm_mon t, tm_mday t, tm_hour t, tm_min t, tm_sec t]) (set_cursor 30 0 c1)
          in Some ((t, k1), resettextcolor (set_cursor x y c2)))"

section \<open>The timer\<close>

text \<open>\<open>mask\<close> is what reading the mask register of the interrupt controller delivers.\<close>

definition install_timer :: "u32 \<Rightarrow> u8 \<Rightarrow> cons \<Rightarrow> cons" where
  "install_timer freq msk c =
     (let d = 1193180 div freq; c1 = kprint ''install timer now...\<newline>'' [] c
      in cons_outb 0x21 (msk AND 0xfe) (cons_outb 0x40 (ucast (drop_bit 8 d)) (cons_outb 0x40 (ucast (d AND 0xff)) (cons_outb 0x43 0x36 c1))))"

record clk =
  timer_ticks :: u32
  reent :: int

definition show_seconds :: "u32 \<Rightarrow> cons \<Rightarrow> cons" where
  "show_seconds ticks c =
     (let (x, y) = get_cursor c;
          c1 = kprint ''time: %d sec\<newline>'' [Num (ticks div 100)] ((set_cursor 64 0 c)\<lparr>timer_flag := 1\<rparr>)
      in set_cursor x y (c1\<lparr>timer_flag := 0\<rparr>))"

text \<open>The handler returns with \<open>None\<close>, or the scheduler has switched to a task.\<close>

definition timer_isr :: "clk \<times> cons \<times> kst \<Rightarrow> (nat option \<times> clk \<times> cons \<times> kst) res" where
  "timer_isr = (\<lambda>(k, c, s).
     if reent k + 1 \<noteq> 0 then Inr (None, k, c, s)
     else let c1 = cons_outb 0x20 0x20 c; t1 = timer_ticks k + 1;
              c2 = (if timer_ticks k mod 100 = 0 then show_seconds t1 c1 else c1)
          in bnd (sched_yield s) (\<lambda>(i, s1). Inr (Some i, k\<lparr>timer_ticks := t1\<rparr>, c2, s1)))"

section \<open>Lemmas\<close>

lemma bcd2bin_digits:
  assumes "0 \<le> t" and "0 \<le> u" "u < 10"
  shows "bcd2bin (16 * t + u) = 10 * t + u"
proof -
  have "(16 * t + u) AND 0x0F = (16 * t + u) mod 16"
    using take_bit_eq_mask [of 4 "16 * t + u"] take_bit_eq_mod [of 4 "16 * t + u"] by (simp add: mask_eq_exp_minus_1)
  then show ?thesis using assms by (simp add: bcd2bin_def)
qed

text \<open>The divisor the timer chip gets, low byte first.\<close>

lemma install_timer_divisor:
  "cports (install_timer freq msk c) =
     cports (kprint ''install timer now...\<newline>'' [] c) @
       [(0x43, 0x36), (0x40, ucast (1193180 div freq)), (0x40, ucast (drop_bit 8 (1193180 div freq))), (0x21, msk AND 0xfe)]"
proof -
  have "ucast (d AND 0xff) = (ucast d :: u8)" for d :: u32
  proof (rule bit_word_eqI)
    fix n :: nat
    have m: "(0xff :: u32) = mask 8" by (simp add: mask_eq_exp_minus_1)
    assume "n < LENGTH(8)"
    then show "bit (ucast (d AND 0xff) :: u8) n = bit (ucast d :: u8) n" unfolding m by (auto simp: bit_simps)
  qed
  then show ?thesis by (simp add: install_timer_def Let_def cons_outb_def)
qed

text \<open>Six registers at consecutive reads, with no update in progress.\<close>

definition reading :: "cmos \<Rightarrow> nat \<Rightarrow> tm" where
  "reading cm k = \<lparr>tm_sec = uint (cm k 0x00), tm_min = uint (cm (k + 1) 0x02), tm_hour = uint (cm (k + 2) 0x04),
     tm_mday = uint (cm (k + 3) 0x07), tm_mon = uint (cm (k + 4) 0x08), tm_year = uint (cm (k + 5) 0x09)\<rparr>"

definition never_busy :: "cmos \<Rightarrow> bool" where
  "never_busy cm \<longleftrightarrow> (\<forall>k. cm k 0x0A AND 0x80 = 0)"

lemma wait_update_idle: "never_busy cm \<Longrightarrow> wait_update cm k = Some (k + 1)"
  by (simp add: wait_update.simps get_update_in_progress_flag_def never_busy_def)

lemma read_regs_6: "read_regs cm 0 c k = ((reading cm k, c), k + 6)"
  by (simp add: read_regs_def get_RTC_register_def reading_def numeral_eq_Suc)

lemma rtc_loop_step:
  assumes "never_busy cm"
  shows "rtc_loop cm 0 (reading cm j, c) (j + 6) =
    (if reading cm j = reading cm (j + 7) then rtc_loop cm 0 (reading cm (j + 7), c) (j + 7 + 6)
     else Some ((reading cm (j + 7), c), j + 7 + 6))"
  by (subst rtc_loop.simps) (simp add: wait_update_idle [OF assms] read_regs_6 add.commute [of 7])

lemma rtc_loop_ends:
  assumes "never_busy cm" and "reading cm (j + 7 * n) \<noteq> reading cm (j + 7 * Suc n)"
  shows "\<exists>r. rtc_loop cm 0 (reading cm j, c) (j + 6) = Some r"
  using assms(2)
proof (induction n arbitrary: j)
  case 0
  then show ?case by (simp add: rtc_loop_step [OF assms(1)])
next
  case (Suc n)
  have "\<exists>r. rtc_loop cm 0 (reading cm (j + 7), c) (j + 7 + 6) = Some r"
    using Suc.prems by (intro Suc.IH) (simp add: algebra_simps)
  then show ?case by (simp add: rtc_loop_step [OF assms(1), of j])
qed

lemma rtc_loop_changed:
  assumes "rtc_loop cm cr old k = Some r" and "cr = 0" "never_busy cm" "k = j + 6" "old = (reading cm j, c)"
  shows "\<exists>n. reading cm (j + 7 * n) \<noteq> reading cm (j + 7 * Suc n)"
proof -
  have "\<forall>j c. cr = 0 \<and> never_busy cm \<and> k = j + 6 \<and> old = (reading cm j, c) \<longrightarrow>
    (\<exists>n. reading cm (j + 7 * n) \<noteq> reading cm (j + 7 * Suc n))"
  proof (rule rtc_loop.raw_induct [OF _ assms(1)], intro allI impI)
    fix f cm cr old k r j c
    assume IH: "\<And>cm cr old k r. f cm cr old k = Some r \<Longrightarrow> \<forall>j c. cr = 0 \<and> never_busy cm \<and> k = j + 6 \<and> old = (reading cm j, c) \<longrightarrow>
        (\<exists>n. reading cm (j + 7 * n) \<noteq> reading cm (j + 7 * Suc n))"
      and eq: "(case wait_update cm k of None \<Rightarrow> None | Some k1 \<Rightarrow>
        (case read_regs cm cr (snd old) k1 of (new, k2) \<Rightarrow> if old = new then f cm cr new k2 else Some (new, k2))) = Some r"
      and p: "cr = 0 \<and> never_busy cm \<and> k = j + 6 \<and> old = (reading cm j, c)"
    show "\<exists>n. reading cm (j + 7 * n) \<noteq> reading cm (j + 7 * Suc n)"
    proof (cases "reading cm j = reading cm (j + 7)")
      case True
      then have "f cm 0 (reading cm (j + 7), c) (j + 7 + 6) = Some r"
        using eq p by (simp add: wait_update_idle read_regs_6 algebra_simps)
      from IH [OF this] obtain n where "reading cm (j + 7 + 7 * n) \<noteq> reading cm (j + 7 + 7 * Suc n)" using p by blast
      then show ?thesis by (intro exI [of _ "Suc n"]) (simp add: algebra_simps)
    next
      case False
      then show ?thesis by (intro exI [of _ 0]) simp
    qed
  qed
  then show ?thesis using assms(2-5) by blast
qed

section \<open>Properties\<close>

text \<open>
  C37. \<^verbatim>\<open>read_rtc\<close> returns exactly when two successive readings of the clock differ: the loop that should wait for two
  equal readings runs on while they are equal. On a clock that shows no update in progress the call ends if and only
  if some reading differs from the one before it; on a clock that stands still the boot never goes on.
\<close>

theorem read_rtc_ends_iff:
  assumes "never_busy cm"
  shows "(\<exists>t k'. read_rtc cm 0 junk k = Some (t, k')) \<longleftrightarrow>
    (\<exists>n. reading cm (k + 1 + 7 * n) \<noteq> reading cm (k + 1 + 7 * Suc n))"
proof -
  let ?l = "rtc_loop cm 0 (reading cm (k + 1), junk) (k + 1 + 6)"
  have "(\<exists>t k'. read_rtc cm 0 junk k = Some (t, k')) \<longleftrightarrow> (\<exists>r. ?l = Some r)"
    by (simp add: read_rtc_def wait_update_idle [OF assms] read_regs_6 get_RTC_register_def Let_def split: option.split prod.split)
  then show ?thesis using rtc_loop_ends [OF assms] rtc_loop_changed [OF _ refl assms refl refl] by blast
qed

text \<open>A clock whose seconds advance with the third reading.\<close>

definition ticking :: cmos where
  "ticking k r = (if r = 0 \<and> 15 \<le> k then 1 else 0)"

theorem read_rtc_ends_iff_witness: "\<exists>t k'. read_rtc ticking 0 0 0 = Some (t, k')"
proof -
  have "never_busy ticking" by (simp add: never_busy_def ticking_def)
  moreover have "reading ticking (0 + 1 + 7 * 1) \<noteq> reading ticking (0 + 1 + 7 * Suc 1)" by (simp add: reading_def ticking_def)
  ultimately show ?thesis using read_rtc_ends_iff [of ticking 0 0] by blast
qed

end
