(* ===== verification/Kern_Tools.thy ===== *)
theory Kern_Tools
  imports Kern_Printf
begin

text \<open>
  Reading from the console and the built-in monitor: \<^verbatim>\<open>kern/tools.c\<close> with the strings of \<^verbatim>\<open>kern/sys.h\<close>.
\<close>

section \<open>Reading\<close>

text \<open>
  \<^verbatim>\<open>stdin_read\<close>: the value returned and the bytes stored from \<^verbatim>\<open>buf\<close> on, which are stored also when the call returns
  -1 because the input ran out.
\<close>

primrec stdin_loop :: "nat \<Rightarrow> u8 list \<Rightarrow> cons \<Rightarrow> int \<times> u8 list \<times> cons" where
  "stdin_loop 0 out c = (int (length out), out, c)"
| "stdin_loop (Suc n) out c =
     (case get_c False c of
        None \<Rightarrow> (- 1, out, c)
      | Some (r, c1) \<Rightarrow> if r = - 1 then (r, out, c1) else stdin_loop n (out @ [word_of_int r]) c1)"

definition stdin_read :: "int \<Rightarrow> cons \<Rightarrow> int \<times> u8 list \<times> cons" where
  "stdin_read n c = stdin_loop (nat n) [] c"

text \<open>\<^verbatim>\<open>readline\<close> fills \<^verbatim>\<open>monbuf\<close>; a task that sleeps in it does not come back.\<close>

abbreviation MONBUF :: nat where "MONBUF \<equiv> 1024"

partial_function (option) line_loop :: "nat \<Rightarrow> u8 list \<Rightarrow> cons \<Rightarrow> (nat \<times> u8 list \<times> cons) res option" where
  "line_loop i buf c =
     (case get_c True c of
        None \<Rightarrow> Some (Inl (Asleep ''get_c''))
      | Some (r, c1) \<Rightarrow>
          if MONBUF \<le> i then Some (Inl (Fault ''monbuf is full''))
          else let buf1 = buf[i := word_of_int r]
               in if r = 10 then Some (Inr (i, buf1, c1)) else line_loop (i + 1) buf1 c1)"

definition readline :: "u8 list option \<Rightarrow> u8 list \<Rightarrow> cons \<Rightarrow> (u8 list \<times> cons) res" where
  "readline str monbuf c =
     (let c0 = (case str of None \<Rightarrow> c | Some p \<Rightarrow> kprint ''%s'' [Str p] c)
      in bnd (ended ''readline'' (line_loop 0 monbuf c0)) (\<lambda>(i, buf, c1). Inr (buf[i := 0], c1)))"

section \<open>The monitor\<close>

text \<open>A string is the list of its characters without the final NUL.\<close>

definition strip_lspace :: "u8 list \<Rightarrow> u8 list" where
  "strip_lspace str = dropWhile (\<lambda>ch. ch = 32) str"

definition bc :: "cons \<Rightarrow> cons" where
  "bc = kprint ''Sorry, not done yet\<newline>'' []"

definition clr :: "cons \<Rightarrow> cons" where
  "clr = clean_screen"

definition mon_help :: "cons \<Rightarrow> cons" where
  "mon_help c = kprint ''    help: show available commands\<newline>'' []
     (kprint ''    info: some info about chunix\<newline>'' []
     (kprint ''    clr: clean screen\<newline>'' []
     (kprint ''    bc: a very simple calculator just works on +,-,*,/,%%\<newline>'' []
     (kprint ''Available commands:\<newline>'' [] c))))"

definition sys_version :: "u8 list" where "sys_version = chars ''0.0.1''"
definition sys_info :: "u8 list" where
  "sys_info = chars ''Author: Chunis Deng (chunchengfh@gmail.com)\<newline>Code: http://code.google.com/p/chunix/\<newline>Site: http://www.chunix.org''"

text \<open>\<open>date\<close> is the string the compiler puts for \<^verbatim>\<open>__DATE__\<close>.\<close>

definition sysinfo :: "u8 list \<Rightarrow> cons \<Rightarrow> cons" where
  "sysinfo date c = kprint ''Build: %s\<newline>\<newline>'' [Str date]
     (kprint ''%s\<newline>'' [Str sys_info] (kprint ''ChuniX, versioin: %s\<newline>\<newline>'' [Str sys_version] c))"

text \<open>\<^verbatim>\<open>!strncmp(cmd, word, strlen(word))\<close>: the command begins with the word.\<close>

definition begins :: "u8 list \<Rightarrow> string \<Rightarrow> bool" where
  "begins cmd word \<longleftrightarrow> take (length word) cmd = chars word"

definition monitor_cmd :: "u8 list \<Rightarrow> u8 list \<Rightarrow> cons \<Rightarrow> cons" where
  "monitor_cmd date cmd c =
     (if cmd = [] then c
      else if begins cmd ''bc'' then bc c
      else if begins cmd ''clr'' then clr c
      else if begins cmd ''help'' then mon_help c
      else if begins cmd ''info'' then sysinfo date c
      else kprint (''Error! no such command: '' @ [CHR 0x27] @ ''%s'' @ [CHR 0x27] @ ''. type '' @ [CHR 0x27] @ ''help'' @ [CHR 0x27] @ '' for help\<newline>'')
             [Str cmd] c)"

text \<open>One round of the loop of \<^verbatim>\<open>monitor\<close>.\<close>

definition monitor :: "u8 list \<Rightarrow> u8 list \<Rightarrow> cons \<Rightarrow> (u8 list \<times> cons) res" where
  "monitor date monbuf c =
     bnd (readline (Some (chars ''>>> '')) monbuf c) (\<lambda>(buf, c1).
       Inr (buf, monitor_cmd date (strip_lspace (takeWhile (\<lambda>ch. ch \<noteq> 0) buf)) c1))"

section \<open>The wheel\<close>

text \<open>
  \<^verbatim>\<open>wheel\<close>, where the kernel stays at the end of \<^verbatim>\<open>main\<close>: one round writes the character at index \<open>i\<close> to the first cell of
  the last line. Index 4 is outside of the array of four.
\<close>

definition wheel_chars :: "u8 list" where
  "wheel_chars = chars [CHR 0x5C, CHR 0x7C, CHR 0x2F, CHR 0x2D]"

definition wheel :: "nat \<Rightarrow> cons \<Rightarrow> (nat \<times> cons) res" where
  "wheel i c =
     (if length wheel_chars \<le> i then Inl (Fault ''wheel: index out of bounds'')
      else let c1 = c\<lparr>cells := (cells c)(80 * 24 := (cells c (80 * 24) AND 0xff00) OR ucast (wheel_chars ! i))\<rparr>
           in Inr (if i = length wheel_chars then 0 else i + 1, c1))"

primrec wheel_run :: "nat \<Rightarrow> nat \<Rightarrow> cons \<Rightarrow> (nat \<times> cons) res" where
  "wheel_run 0 i c = Inr (i, c)"
| "wheel_run (Suc n) i c = bnd (wheel i c) (\<lambda>(j, c1). wheel_run n j c1)"

section \<open>Lemmas\<close>

lemma get_c_first:
  assumes "cb_repr c (x # xs)"
  shows "\<exists>c1. get_c block c = Some (sint x, c1) \<and> cb_repr c1 xs"
proof -
  let ?c1 = "c\<lparr>rpos := (rpos c + 1) mod CBUF_SIZE\<rparr>"
  have "cbuf_get c = Some (x, ?c1)" "cb_repr ?c1 xs" using cbuf_take_repr [OF assms] by blast+
  then show ?thesis by (intro exI [of _ ?c1]) (auto simp: cbuf_get_def get_c_def split: if_splits)
qed

lemma get_c_nothing: "cb_repr c [] \<Longrightarrow> get_c False c = Some (- 1, c) \<and> get_c True c = None"
  by (simp add: get_c_def cb_repr_def)

lemma sint_not_m1: "x \<noteq> 0xff \<Longrightarrow> sint (x :: u8) \<noteq> - 1"
proof
  assume "x \<noteq> 0xff" and e: "sint x = - 1"
  have "x = of_int (sint x)" by simp
  then have "x = - 1" unfolding e by simp
  with \<open>x \<noteq> 0xff\<close> show False by simp
qed

text \<open>Reading delivers what is waiting, and -1 when that is less than was asked for or a byte 0xff is among it.\<close>

lemma stdin_loop_spec:
  assumes "cb_repr c xs" and "0xff \<notin> set (take n xs)"
  shows "\<exists>c'. stdin_loop n out c = (if n \<le> length xs then int (length out + n) else - 1, out @ take n xs, c') \<and> cb_repr c' (drop n xs)"
  using assms
proof (induction n arbitrary: out c xs)
  case (Suc n)
  show ?case
  proof (cases xs)
    case Nil
    then show ?thesis using get_c_nothing Suc.prems(1) by auto
  next
    case (Cons x ys)
    obtain c1 where c1: "get_c False c = Some (sint x, c1)" "cb_repr c1 ys" using get_c_first Suc.prems(1) Cons by blast
    have "x \<noteq> 0xff" using Suc.prems(2) Cons by auto
    then have "sint x \<noteq> - 1" by (rule sint_not_m1)
    then show ?thesis using Suc.IH [OF c1(2), of "out @ [x]"] c1(1) Suc.prems(2) Cons by auto
  qed
qed auto

lemma line_loop_spec:
  assumes "cb_repr c (ln @ 10 # rest)" and "10 \<notin> set ln" and "i + length ln < MONBUF" and "length buf = MONBUF"
  shows "\<exists>c'. line_loop i buf c = Some (Inr (i + length ln, take i buf @ ln @ 10 # drop (i + length ln + 1) buf, c')) \<and> cb_repr c' rest"
  using assms
proof (induction ln arbitrary: i buf c)
  case Nil
  obtain c1 where "get_c True c = Some (10, c1)" "cb_repr c1 rest" using get_c_first [of c 10 rest] Nil.prems(1) by auto
  then show ?case using Nil.prems(3,4) by (auto simp: line_loop.simps Let_def upd_conv_take_nth_drop)
next
  case (Cons x ln)
  obtain c1 where c1: "get_c True c = Some (sint x, c1)" "cb_repr c1 (ln @ 10 # rest)"
    using get_c_first [of c x "ln @ 10 # rest"] Cons.prems(1) by auto
  have "sint x \<noteq> 10" using Cons.prems(2) signed_word_eqI [of x 10] by auto
  moreover have "i < MONBUF" using Cons.prems(3) by simp
  ultimately have "line_loop i buf c = line_loop (i + 1) (buf[i := x]) c1"
    using c1(1) by (subst line_loop.simps) (simp add: Let_def)
  moreover have "\<exists>c'. line_loop (i + 1) (buf[i := x]) c1 =
      Some (Inr (i + 1 + length ln, take (i + 1) (buf[i := x]) @ ln @ 10 # drop (i + 1 + length ln + 1) (buf[i := x]), c')) \<and> cb_repr c' rest"
    using Cons.prems(2,3,4) by (intro Cons.IH [OF c1(2)]) simp_all
  moreover have "take (i + 1) (buf[i := x]) = take i buf @ [x]" using Cons.prems(3,4) by (simp add: take_Suc_conv_app_nth)
  ultimately show ?case by simp
qed

lemma readline_spec:
  assumes "cb_repr c (ln @ 10 # rest)" and "10 \<notin> set ln" "0 \<notin> set ln" and "length ln < MONBUF" and "length buf = MONBUF"
  shows "\<exists>buf' c'. readline None buf c = Inr (buf', c') \<and> takeWhile (\<lambda>ch. ch \<noteq> 0) buf' = ln \<and> cb_repr c' rest"
proof -
  obtain c' where c': "line_loop 0 buf c = Some (Inr (length ln, ln @ 10 # drop (length ln + 1) buf, c'))" "cb_repr c' rest"
    using line_loop_spec [OF assms(1,2), of 0 buf] assms(4,5) by auto
  have "takeWhile (\<lambda>ch. ch \<noteq> 0) (ln @ 0 # drop (length ln + 1) buf) = ln" 
    using assms(3) by (subst takeWhile_append2) auto
  then show ?thesis using c' by (simp add: readline_def ended_def list_update_append)
qed

text \<open>The fifth round of the wheel reads past the end of the array.\<close>

lemma wheel_overruns: "wheel_run 5 0 c = Inl (Fault ''wheel: index out of bounds'')"
  by (simp add: numeral_eq_Suc wheel_def wheel_chars_def chars_def)

end
