(* ===== verification/Drv_Disk.thy ===== *)
theory Drv_Disk
  imports Kern_String Fifo
begin

text \<open>
  Block buffers and the two block devices: \<^verbatim>\<open>inc/buf.h\<close>, \<^verbatim>\<open>drv/memhd.c\<close> (the RAM disk that holds the
  initial file system) and \<^verbatim>\<open>drv/hd.c\<close> (the IDE disk with its request queue). A pointer to a buffer is
  its index in \<^verbatim>\<open>fsbuf\<close>. The IDE controller is outside the program: what it answers on the status port
  is the stream \<open>hd_status\<close>, what the driver writes is the log \<open>ports\<close>, and the sector an interrupt
  announces is an argument of the interrupt handler. \<^verbatim>\<open>wakeup\<close> calls are logged in \<open>woken\<close>.
\<close>

section \<open>Definitions\<close>

abbreviation BUF_BUSY :: u32 where "BUF_BUSY \<equiv> 1"
abbreviation BUF_VALID :: u32 where "BUF_VALID \<equiv> 2"
abbreviation BUF_DIRTY :: u32 where "BUF_DIRTY \<equiv> 4"
abbreviation BUF_SIZE :: nat where "BUF_SIZE \<equiv> 512"
abbreviation NBUF :: nat where "NBUF \<equiv> 16"
abbreviation MEM_MAJOR :: u16 where "MEM_MAJOR \<equiv> 1"
abbreviation HD_MAJOR :: u16 where "HD_MAJOR \<equiv> 3"

definition MAJOR :: "u16 \<Rightarrow> u16" where
  "MAJOR a = drop_bit 8 a"

definition MINOR :: "u16 \<Rightarrow> u16" where
  "MINOR a = a AND 0xFF"

definition MKDEV :: "u32 \<Rightarrow> u32 \<Rightarrow> u32" where
  "MKDEV a b = push_bit 8 (a AND 0xFF) OR (b AND 0xFF)"

datatype bptr = Head | Buf nat

record buf =
  b_dev :: u16
  b_flags :: u32
  b_num :: u32
  b_prev :: bptr
  b_next :: bptr
  b_hdnext :: "nat option"
  b_data :: "u8 list"

record bio =
  fsbuf :: "buf list"
  head_prev :: bptr
  head_next :: bptr
  ram :: mem
  hdstart :: u32
  disksize :: u32
  hdqueue :: "nat option"
  ports :: "(u16 \<times> u32) list"
  woken :: "nat list"

definition bget :: "bio \<Rightarrow> nat \<Rightarrow> buf" where
  "bget s i = fsbuf s ! i"

definition bupd :: "nat \<Rightarrow> (buf \<Rightarrow> buf) \<Rightarrow> bio \<Rightarrow> bio" where
  "bupd i f s = s\<lparr>fsbuf := (fsbuf s)[i := f (fsbuf s ! i)]\<rparr>"

subsection \<open>The RAM disk\<close>

definition init_memhd :: "u32 \<Rightarrow> u32 \<Rightarrow> bio \<Rightarrow> bio" where
  "init_memhd start sz s = s\<lparr>hdstart := start, disksize := sz div 512\<rparr>"

text \<open>The block copies of \<^verbatim>\<open>memmove\<close> between a buffer's data and the RAM disk.\<close>

definition peek :: "mem \<Rightarrow> u32 \<Rightarrow> nat \<Rightarrow> u8 list" where
  "peek m a n = map (\<lambda>i. m (a + of_nat i)) [0..<n]"

definition poke :: "mem \<Rightarrow> u32 \<Rightarrow> u8 list \<Rightarrow> mem" where
  "poke m a xs = (\<lambda>x. if unat (x - a) < length xs then xs ! unat (x - a) else m x)"

definition memhd_rw :: "nat \<Rightarrow> bio \<Rightarrow> bio res" where
  "memhd_rw i s =
     (let b = bget s i; p = hdstart s + b_num b * 512
      in if b_flags b AND BUF_BUSY = 0 then Inl (Panic ''memhd_rw: buf not busy'')
         else if b_flags b AND (BUF_VALID OR BUF_DIRTY) = BUF_VALID
         then Inl (Panic ''memhd_rw: nothing to do'')
         else if MAJOR (b_dev b) \<noteq> MEM_MAJOR then Inl (Panic ''memhd_rw: request not for memhd'')
         else if disksize s \<le> b_num b then Inl (Panic ''memhd_rw: sector out of range'')
         else if b_flags b AND BUF_DIRTY \<noteq> 0
         then Inr (bupd i (\<lambda>b. b\<lparr>b_flags := b_flags b AND NOT BUF_DIRTY OR BUF_VALID\<rparr>)
                     (s\<lparr>ram := poke (ram s) p (b_data b)\<rparr>))
         else Inr (bupd i (\<lambda>b. b\<lparr>b_data := peek (ram s) p BUF_SIZE,
                                 b_flags := b_flags b OR BUF_VALID\<rparr>) s))"

subsection \<open>The IDE disk\<close>

text \<open>\<open>st\<close> answers the reads of the status port, \<open>k\<close> of which have been made.\<close>

partial_function (option) hdwait :: "(nat \<Rightarrow> u8) \<Rightarrow> nat \<Rightarrow> nat option" where
  "hdwait st k = (if st k AND (0x80 OR 0x40) \<noteq> 0x40 then hdwait st (k + 1) else Some (k + 1))"

definition outb :: "u16 \<Rightarrow> u32 \<Rightarrow> bio \<Rightarrow> bio" where
  "outb port v s = s\<lparr>ports := ports s @ [(port, v)]\<rparr>"

definition outsl :: "u16 \<Rightarrow> u8 list \<Rightarrow> bio \<Rightarrow> bio" where
  "outsl port d s = s\<lparr>ports := ports s @ map (\<lambda>b. (port, ucast b)) d\<rparr>"

definition hd_dorw :: "(nat \<Rightarrow> u8) \<Rightarrow> nat \<Rightarrow> nat option \<Rightarrow> bio \<Rightarrow> bio res" where
  "hd_dorw st k bp s =
     (case bp of
        None \<Rightarrow> Inl (Panic ''hd_dorw: bp is NULL'')
      | Some i \<Rightarrow>
          (case hdwait st k of
             None \<Rightarrow> Inl (Hang ''hdwait'')
           | Some _ \<Rightarrow>
               (let b = bget s i; n = b_num b;
                    s1 = outb 0x1f6 (0xe0 OR push_bit 4 1 OR (drop_bit 24 n AND 0x0f))
                          (outb 0x1f5 (drop_bit 16 n AND 0xff)
                            (outb 0x1f4 (drop_bit 8 n AND 0xff)
                              (outb 0x1f3 (n AND 0xff) (outb 0x1f2 1 (outb 0x3f6 0 s)))))
                in if b_flags b AND BUF_DIRTY \<noteq> 0
                   then Inr (outsl 0x1f0 (b_data b) (outb 0x1f7 0x30 s1))
                   else Inr (outb 0x1f7 0x20 s1))))"

text \<open>
  The places a link of the request queue is stored in, and the loop of \<^verbatim>\<open>hd_rw\<close> that looks for the
  last one.
\<close>

datatype hdslot = HdHead | HdNext nat

definition hd_get :: "bio \<Rightarrow> hdslot \<Rightarrow> nat option" where
  "hd_get s bpp = (case bpp of HdHead \<Rightarrow> hdqueue s | HdNext i \<Rightarrow> b_hdnext (bget s i))"

definition hd_set :: "hdslot \<Rightarrow> nat option \<Rightarrow> bio \<Rightarrow> bio" where
  "hd_set bpp v s =
     (case bpp of HdHead \<Rightarrow> s\<lparr>hdqueue := v\<rparr> | HdNext i \<Rightarrow> bupd i (\<lambda>b. b\<lparr>b_hdnext := v\<rparr>) s)"

partial_function (option) hd_tail :: "bio \<Rightarrow> hdslot \<Rightarrow> hdslot option" where
  "hd_tail s bpp = (case hd_get s bpp of None \<Rightarrow> Some bpp | Some i \<Rightarrow> hd_tail s (HdNext i))"

definition hd_enqueue :: "nat \<Rightarrow> bio \<Rightarrow> bio res" where
  "hd_enqueue i s =
     (let s1 = hd_set (HdNext i) None s
      in case hd_tail s1 HdHead of
           None \<Rightarrow> Inl (Hang ''hd_rw'')
         | Some bpp \<Rightarrow> Inr (hd_set bpp (Some i) s1))"

text \<open>
  \<^verbatim>\<open>hd_rw\<close> up to the point where the task sleeps on the buffer's channel; \<open>hd_rw_resume\<close> is the test
  of the waiting loop it makes when it is woken (\<open>True\<close>: it returns, \<open>False\<close>: it sleeps again).
\<close>

definition hd_rw_resume :: "nat \<Rightarrow> bio \<Rightarrow> bool" where
  "hd_rw_resume i s \<longleftrightarrow> b_flags (bget s i) AND (BUF_VALID OR BUF_DIRTY) = BUF_VALID"

definition hd_rw :: "(nat \<Rightarrow> u8) \<Rightarrow> nat \<Rightarrow> bio \<Rightarrow> (bool \<times> bio) res" where
  "hd_rw st i s =
     (if b_flags (bget s i) AND BUF_BUSY = 0 then Inl (Panic ''hd_rw: buf is not busy'')
      else if b_flags (bget s i) AND (BUF_VALID OR BUF_DIRTY) = BUF_VALID
      then Inl (Panic ''hd_rw: need do nothing'')
      else bnd (hd_enqueue i s) (\<lambda>s1.
             bnd (if hdqueue s1 = Some i then hd_dorw st 0 (Some i) s1 else Inr s1) (\<lambda>s2.
               Inr (hd_rw_resume i s2, s2))))"

definition hd_dequeue :: "bio \<Rightarrow> (nat \<times> bio) option" where
  "hd_dequeue s =
     (case hdqueue s of None \<Rightarrow> None | Some i \<Rightarrow> Some (i, s\<lparr>hdqueue := b_hdnext (bget s i)\<rparr>))"

definition hd_isr :: "(nat \<Rightarrow> u8) \<Rightarrow> u8 list \<Rightarrow> bio \<Rightarrow> bio res" where
  "hd_isr st dat s =
     (case hd_dequeue s of
        None \<Rightarrow> Inr s
      | Some (i, s1) \<Rightarrow>
          bnd (if b_flags (bget s1 i) AND BUF_DIRTY = 0
               then (case hdwait st 0 of None \<Rightarrow> Inl (Hang ''hdwait'')
                     | Some k \<Rightarrow> Inr (k, bupd i (\<lambda>b. b\<lparr>b_data := dat\<rparr>) s1))
               else Inr (0, s1)) (\<lambda>(k, s2).
            let s3 = bupd i (\<lambda>b. b\<lparr>b_flags := (b_flags b OR BUF_VALID) AND NOT BUF_DIRTY\<rparr>) s2;
                s4 = s3\<lparr>woken := woken s3 @ [i]\<rparr>
            in case hdqueue s4 of None \<Rightarrow> Inr s4 | Some j \<Rightarrow> hd_dorw st k (Some j) s4))"

definition init_hd :: "bio \<Rightarrow> bio" where
  "init_hd s = outb 0xa1 0xbf s"

section \<open>Buffers and blocks of bytes\<close>

lemma bget_bupd [simp]:
  "j < length (fsbuf s) \<Longrightarrow> bget (bupd i f s) j = (if i = j then f (bget s j) else bget s j)"
  by (simp add: bget_def bupd_def nth_list_update)

lemma bget_more [simp]:
  "bget (s\<lparr>ram := r\<rparr>) i = bget s i" "bget (s\<lparr>hdqueue := q\<rparr>) i = bget s i"
  "bget (s\<lparr>ports := l\<rparr>) i = bget s i" "bget (s\<lparr>woken := w\<rparr>) i = bget s i"
  "bget (s\<lparr>head_prev := p\<rparr>) i = bget s i" "bget (s\<lparr>head_next := p\<rparr>) i = bget s i"
  by (simp_all add: bget_def)

lemma bupd_more [simp]:
  "length (fsbuf (bupd i f s)) = length (fsbuf s)" "head_prev (bupd i f s) = head_prev s"
  "head_next (bupd i f s) = head_next s" "ram (bupd i f s) = ram s" "hdstart (bupd i f s) = hdstart s"
  "disksize (bupd i f s) = disksize s" "hdqueue (bupd i f s) = hdqueue s" "ports (bupd i f s) = ports s"
  "woken (bupd i f s) = woken s"
  by (simp_all add: bupd_def)

lemma length_peek [simp]: "length (peek m a n) = n"
  by (simp add: peek_def)

lemma peek_poke_same: "length xs \<le> 4294967296 \<Longrightarrow> n = length xs \<Longrightarrow> peek (poke m a xs) a n = xs"
  by (auto simp: peek_def poke_def intro!: nth_equalityI)

lemma peek_cong: "(\<And>x. x \<in> rng a n \<Longrightarrow> m x = m' x) \<Longrightarrow> n \<le> 4294967296 \<Longrightarrow> peek m a n = peek m' a n"
  by (auto simp: peek_def rng_def)

lemma poke_out: "x \<notin> rng a (length xs) \<Longrightarrow> poke m a xs x = m x"
  by (simp add: poke_def rng_def)

lemma peek_poke_disj:
  assumes "rng a n \<inter> rng b (length xs) = {}" and "n \<le> 4294967296"
  shows "peek (poke m b xs) a n = peek m a n"
  using assms by (intro peek_cong) (auto intro: poke_out)

section \<open>The RAM disk\<close>

definition sector :: "bio \<Rightarrow> u32 \<Rightarrow> u8 list" where
  "sector s n = peek (ram s) (hdstart s + n * 512) BUF_SIZE"

definition disk_ok :: "bio \<Rightarrow> bool" where
  "disk_ok s \<longleftrightarrow> unat (hdstart s) + unat (disksize s) * 512 \<le> 4294967296"

lemma unat_sector:
  "disk_ok s \<Longrightarrow> n < disksize s \<Longrightarrow> unat (hdstart s + n * 512) = unat (hdstart s) + unat n * 512"
  by (simp add: disk_ok_def word_less_nat_alt unat_word_ariths)

lemma sector_poke:
  assumes ok: "disk_ok s" and n: "n < disksize s" and k: "k < disksize s" and len: "length xs = 512"
  shows "sector (s\<lparr>ram := poke (ram s) (hdstart s + n * 512) xs\<rparr>) k = (if k = n then xs else sector s k)"
proof (cases "k = n")
  case True
  with len show ?thesis by (simp add: sector_def peek_poke_same)
next
  case False
  then have "unat k \<noteq> unat n" by (simp add: u32_eq_iff)
  then have "unat (hdstart s + k * 512) + 512 \<le> unat (hdstart s + n * 512) \<or>
      unat (hdstart s + n * 512) + 512 \<le> unat (hdstart s + k * 512)"
    using ok n k by (simp add: unat_sector) linarith
  moreover have "unat (hdstart s + k * 512) + 512 \<le> 4294967296" "unat (hdstart s + n * 512) + 512 \<le> 4294967296"
    using ok n k by (auto simp: unat_sector disk_ok_def word_less_nat_alt)
  ultimately have "rng (hdstart s + k * 512) 512 \<inter> rng (hdstart s + n * 512) 512 = {}"
    by (intro rng_disjointI) simp_all
  with False len show ?thesis by (simp add: sector_def peek_poke_disj)
qed

text \<open>Flag words: the tests and updates of the drivers on the three flags.\<close>

definition busy :: "buf \<Rightarrow> bool" where "busy b \<longleftrightarrow> b_flags b AND BUF_BUSY \<noteq> 0"
definition valid :: "buf \<Rightarrow> bool" where "valid b \<longleftrightarrow> b_flags b AND BUF_VALID \<noteq> 0"
definition dirty :: "buf \<Rightarrow> bool" where "dirty b \<longleftrightarrow> b_flags b AND BUF_DIRTY \<noteq> 0"

lemma and_1_iff: "(w :: u32) AND 1 \<noteq> 0 \<longleftrightarrow> bit w 0"
  and and_2_iff: "(w :: u32) AND 2 \<noteq> 0 \<longleftrightarrow> bit w 1"
  and and_4_iff: "(w :: u32) AND 4 \<noteq> 0 \<longleftrightarrow> bit w 2"
  using and_exp_eq_0_iff_not_bit [of w 0] and_exp_eq_0_iff_not_bit [of w 1] and_exp_eq_0_iff_not_bit [of w 2]
  by simp_all

lemma flag_bits: "busy b \<longleftrightarrow> bit (b_flags b) 0" "valid b \<longleftrightarrow> bit (b_flags b) 1" "dirty b \<longleftrightarrow> bit (b_flags b) 2"
  by (simp_all add: busy_def valid_def dirty_def and_1_iff and_2_iff and_4_iff)

lemma bits_of_flags:
  "bit (1 :: u32) n \<longleftrightarrow> n = 0" "bit (2 :: u32) n \<longleftrightarrow> n = 1" "bit (4 :: u32) n \<longleftrightarrow> n = 2"
  "bit (6 :: u32) n \<longleftrightarrow> n = 1 \<or> n = 2" "bit (5 :: u32) n \<longleftrightarrow> n = 0 \<or> n = 2"
proof -
  show one: "bit (1 :: u32) n \<longleftrightarrow> n = 0" by (simp add: bit_1_iff)
  show two: "bit (2 :: u32) n \<longleftrightarrow> n = 1" by (auto simp: bit_2_iff)
  show four: "bit (4 :: u32) n \<longleftrightarrow> n = 2" using bit_exp_iff [of 2 n, where ?'a = "32 word"] by auto
  have "(6 :: u32) = 2 OR 4" "(5 :: u32) = 1 OR 4" by simp_all
  then show "bit (6 :: u32) n \<longleftrightarrow> n = 1 \<or> n = 2" "bit (5 :: u32) n \<longleftrightarrow> n = 0 \<or> n = 2"
    by (simp_all only: bit_or_iff one two four)
qed

lemma only_valid: "w AND 6 = (2 :: u32) \<longleftrightarrow> bit w 1 \<and> \<not> bit w 2"
proof
  assume "w AND 6 = 2"
  then have "bit (w AND 6) 1 = bit (2 :: u32) 1" "bit (w AND 6) 2 = bit (2 :: u32) 2" by simp_all
  then show "bit w 1 \<and> \<not> bit w 2" unfolding bit_and_iff bits_of_flags by auto
next
  assume "bit w 1 \<and> \<not> bit w 2"
  then show "w AND 6 = 2" by (intro bit_eqI) (auto simp only: bit_and_iff bits_of_flags)
qed

lemma none_of_5: "w AND 5 = (0 :: u32) \<longleftrightarrow> \<not> bit w 0 \<and> \<not> bit w 2"
proof
  assume "w AND 5 = 0"
  then have "\<not> bit (w AND 5) 0" "\<not> bit (w AND 5) 2" by simp_all
  then show "\<not> bit w 0 \<and> \<not> bit w 2" unfolding bit_and_iff bits_of_flags by auto
next
  assume "\<not> bit w 0 \<and> \<not> bit w 2"
  then show "w AND 5 = 0" by (intro bit_eqI) (auto simp only: bit_and_iff bits_of_flags bit_0_eq bot_apply bot_bool_def)
qed

text \<open>The flag updates of the drivers and the buffer cache, seen through the three flags.\<close>

lemma possible_bit_u32: "possible_bit TYPE(32 word) n \<longleftrightarrow> n < 32"
  by simp

lemma flag_updates:
  "bit (w AND NOT BUF_DIRTY OR BUF_VALID) n \<longleftrightarrow> n < 32 \<and> (n = 1 \<or> n \<noteq> 2 \<and> bit w n)"
  "bit ((w OR BUF_VALID) AND NOT BUF_DIRTY) n \<longleftrightarrow> n < 32 \<and> (n = 1 \<or> n \<noteq> 2 \<and> bit w n)"
  "bit (w OR BUF_VALID) n \<longleftrightarrow> n = 1 \<or> bit w n"
  "bit (w OR BUF_DIRTY) n \<longleftrightarrow> n = 2 \<or> bit w n"
  "bit (w OR BUF_BUSY) n \<longleftrightarrow> n = 0 \<or> bit w n"
  "bit (w AND NOT BUF_BUSY) n \<longleftrightarrow> n \<noteq> 0 \<and> bit w n"
  for w :: u32
proof -
  have "bit w n \<Longrightarrow> n < 32" using bit_imp_le_length [of w n] by simp
  then show "bit (w AND NOT BUF_DIRTY OR BUF_VALID) n \<longleftrightarrow> n < 32 \<and> (n = 1 \<or> n \<noteq> 2 \<and> bit w n)"
    "bit ((w OR BUF_VALID) AND NOT BUF_DIRTY) n \<longleftrightarrow> n < 32 \<and> (n = 1 \<or> n \<noteq> 2 \<and> bit w n)"
    "bit (w OR BUF_VALID) n \<longleftrightarrow> n = 1 \<or> bit w n" "bit (w OR BUF_DIRTY) n \<longleftrightarrow> n = 2 \<or> bit w n"
    "bit (w OR BUF_BUSY) n \<longleftrightarrow> n = 0 \<or> bit w n" "bit (w AND NOT BUF_BUSY) n \<longleftrightarrow> n \<noteq> 0 \<and> bit w n"
    by (auto simp only: bit_and_iff bit_or_iff bit_not_iff bits_of_flags possible_bit_u32)
qed

lemma not_flags: "NOT BUF_DIRTY = (- 5 :: u32)" "NOT BUF_BUSY = (- 2 :: u32)"
  by simp_all

lemmas flag_simps = flag_bits only_valid none_of_5 flag_updates flag_updates [unfolded not_flags]

lemma memhd_rw_read:
  assumes "b = bget s i" and "busy b" and "\<not> dirty b" and "\<not> valid b"
    and "MAJOR (b_dev b) = MEM_MAJOR" and "b_num b < disksize s"
  shows "memhd_rw i s =
    Inr (bupd i (\<lambda>b. b\<lparr>b_data := sector s (b_num b), b_flags := b_flags b OR BUF_VALID\<rparr>) s)"
proof -
  have "b_flags b AND 1 \<noteq> 0" "b_flags b AND 4 = 0" using assms(2,3) by (simp_all add: busy_def dirty_def)
  moreover have "b_flags b AND 6 \<noteq> 2" using assms(4) by (simp add: flag_bits only_valid)
  ultimately show ?thesis using assms(1,5,6)
    by (simp add: memhd_rw_def Let_def sector_def bupd_def bget_def)
qed

lemma memhd_rw_write:
  assumes "b = bget s i" and "busy b" and "dirty b"
    and "MAJOR (b_dev b) = MEM_MAJOR" and "b_num b < disksize s"
  shows "memhd_rw i s =
    Inr (bupd i (\<lambda>b. b\<lparr>b_flags := b_flags b AND NOT BUF_DIRTY OR BUF_VALID\<rparr>)
          (s\<lparr>ram := poke (ram s) (hdstart s + b_num b * 512) (b_data b)\<rparr>))"
proof -
  have "b_flags b AND 1 \<noteq> 0" "b_flags b AND 6 \<noteq> 2" "b_flags b AND 4 \<noteq> 0"
    using assms(2,3) by (auto simp: flag_simps and_1_iff and_4_iff)
  with assms(1,4,5) show ?thesis by (simp add: memhd_rw_def Let_def)
qed

section \<open>The request queue of the IDE disk\<close>

primrec hdpath :: "bio \<Rightarrow> hdslot \<Rightarrow> nat list \<Rightarrow> bool" where
  "hdpath s p [] \<longleftrightarrow> hd_get s p = None"
| "hdpath s p (x # xs) \<longleftrightarrow> hd_get s p = Some x \<and> hdpath s (HdNext x) xs"

definition hd_inv :: "bio \<Rightarrow> nat list \<Rightarrow> bool" where
  "hd_inv s xs \<longleftrightarrow> hdpath s HdHead xs \<and> distinct xs \<and> (\<forall>x \<in> set xs. x < length (fsbuf s))"

definition hd_room :: "bio \<Rightarrow> nat list \<Rightarrow> nat \<Rightarrow> bool" where
  "hd_room s xs i \<longleftrightarrow> i \<notin> set xs \<and> i < length (fsbuf s)"

lemma hd_get_simps [simp]:
  "hd_get s HdHead = hdqueue s" "hd_get s (HdNext i) = b_hdnext (bget s i)"
  by (simp_all add: hd_get_def)

lemma hdpath_cong:
  "hd_get s' p = hd_get s p \<Longrightarrow> (\<And>x. x \<in> set xs \<Longrightarrow> hd_get s' (HdNext x) = hd_get s (HdNext x)) \<Longrightarrow>
   hdpath s' p xs = hdpath s p xs"
  by (induction xs arbitrary: p) auto

lemma hd_tail_last:
  "hdpath s p xs \<Longrightarrow> hd_tail s p = Some (if xs = [] then p else HdNext (last xs))"
proof (induction xs arbitrary: p)
  case Nil
  then show ?case by (simp add: hd_tail.simps)
next
  case (Cons x xs)
  then show ?case by (simp add: hd_tail.simps [of s p])
qed

lemma hdpath_snoc:
  assumes "hdpath s p xs" and "distinct (xs @ [i])" and "p \<notin> HdNext ` set (xs @ [i])"
    and "q = (if xs = [] then p else HdNext (last xs))"
    and "hd_get s' q = Some i" and "hd_get s' (HdNext i) = None"
    and "\<And>r. r \<noteq> q \<Longrightarrow> r \<noteq> HdNext i \<Longrightarrow> r = p \<or> r \<in> HdNext ` set xs \<Longrightarrow> hd_get s' r = hd_get s r"
  shows "hdpath s' p (xs @ [i])"
  using assms
proof (induction xs arbitrary: p)
  case Nil
  then show ?case by simp
next
  case (Cons x xs)
  have "hd_get s' p = Some x" using Cons.prems by (subst Cons.prems(7)) auto
  moreover have "hdpath s' (HdNext x) (xs @ [i])"
    by (rule Cons.IH) (use Cons.prems in \<open>auto split: if_splits\<close>)
  ultimately show ?case by simp
qed

lemma hd_enqueue_append:
  assumes inv: "hd_inv s xs" and i: "hd_room s xs i"
  shows "\<exists>s'. hd_enqueue i s = Inr s' \<and> hd_inv s' (xs @ [i]) \<and> length (fsbuf s') = length (fsbuf s) \<and>
    (\<forall>j < length (fsbuf s). \<exists>l. bget s' j = (bget s j)\<lparr>b_hdnext := l\<rparr>) \<and> woken s' = woken s \<and>
    hdqueue s' = Some (hd (xs @ [i]))"
proof -
  let ?s = "hd_set (HdNext i) None s" and ?q = "if xs = [] then HdHead else HdNext (last xs)"
  have ln: "i < length (fsbuf s)" "i \<notin> set xs" using i by (simp_all add: hd_room_def)
  have xs: "distinct xs" "\<And>x. x \<in> set xs \<Longrightarrow> x < length (fsbuf s)" and path: "hdpath s HdHead xs"
    using inv by (simp_all add: hd_inv_def)
  have la: "xs = [] \<or> last xs \<noteq> i \<and> last xs < length (fsbuf s)"
    using ln(2) xs(2) last_in_set by metis
  have p1: "hdpath ?s HdHead xs"
    using path ln xs by (subst hdpath_cong [where s = s]) (auto simp: hd_set_def)
  have run: "hd_enqueue i s = Inr (hd_set ?q (Some i) ?s)"
    using hd_tail_last [OF p1] by (simp add: hd_enqueue_def Let_def)
  have "hdpath (hd_set ?q (Some i) ?s) HdHead (xs @ [i])"
    using ln xs la by (intro hdpath_snoc [OF path, of i ?q]) (auto simp: hd_set_def)
  moreover have "\<exists>l. bget (hd_set ?q (Some i) ?s) j = (bget s j)\<lparr>b_hdnext := l\<rparr>" if "j < length (fsbuf s)" for j
    using that by (auto simp: hd_set_def intro: exI [of _ "b_hdnext (bget s j)"])
  moreover have "xs \<noteq> [] \<Longrightarrow> hdqueue s = Some (hd xs)" using path by (cases xs) auto
  ultimately show ?thesis
    using run ln xs by (auto simp: hd_inv_def hd_set_def split: hdslot.splits)
qed

lemma hd_dequeue_first:
  assumes "hd_inv s (x # xs)"
  shows "\<exists>s'. hd_dequeue s = Some (x, s') \<and> hd_inv s' xs \<and> fsbuf s' = fsbuf s \<and> woken s' = woken s"
proof -
  have "hdpath (s\<lparr>hdqueue := b_hdnext (bget s x)\<rparr>) HdHead xs \<longleftrightarrow> hdpath s (HdNext x) xs"
    by (cases xs) (auto intro!: arg_cong2 [where f = "(\<and>)"] hdpath_cong)
  with assms show ?thesis by (auto simp: hd_inv_def hd_dequeue_def)
qed

interpretation hdq: fifo hd_enqueue hd_dequeue hd_inv hd_room
proof unfold_locales
  fix s x xs
  show "\<exists>s'. hd_enqueue x s = Inr s' \<and> hd_inv s' (xs @ [x]) \<and> hd_room s' = hd_room s"
    if "hd_inv s xs" "hd_room s xs x"
    using hd_enqueue_append [OF that] by (auto simp: hd_room_def fun_eq_iff)
  show "hd_dequeue s = None" if "hd_inv s []"
    using that by (simp add: hd_inv_def hd_dequeue_def)
  show "\<exists>s'. hd_dequeue s = Some (x, s') \<and> hd_inv s' xs \<and> hd_room s' = hd_room s" if "hd_inv s (x # xs)"
    using hd_dequeue_first [OF that] by (auto simp: hd_room_def fun_eq_iff)
qed

text \<open>One interrupt completes the oldest request, whatever it was, and starts the next.\<close>

definition finished :: "buf \<Rightarrow> bool" where
  "finished b \<longleftrightarrow> valid b \<and> \<not> dirty b"

lemma hd_dorw_keeps:
  assumes "hdwait st k \<noteq> None"
  shows "\<exists>s'. hd_dorw st k (Some i) s = Inr s' \<and> fsbuf s' = fsbuf s \<and> woken s' = woken s \<and> hdqueue s' = hdqueue s"
  using assms by (auto simp: hd_dorw_def Let_def outb_def outsl_def)

lemma hd_inv_cong:
  assumes "hdqueue s' = hdqueue s" and "length (fsbuf s') = length (fsbuf s)"
    and "\<And>j. j < length (fsbuf s) \<Longrightarrow> b_hdnext (bget s' j) = b_hdnext (bget s j)"
  shows "hd_inv s' xs \<longleftrightarrow> hd_inv s xs"
proof -
  have "hdpath s' HdHead xs \<longleftrightarrow> hdpath s HdHead xs" if "\<forall>x \<in> set xs. x < length (fsbuf s)"
    using assms that by (intro hdpath_cong) auto
  then show ?thesis using assms(2) by (auto simp: hd_inv_def)
qed

lemma hd_isr_completes:
  assumes inv: "hd_inv s (x # xs)" and ready: "\<And>k. hdwait st k \<noteq> None"
  shows "\<exists>s'. hd_isr st dat s = Inr s' \<and> hd_inv s' xs \<and> length (fsbuf s') = length (fsbuf s) \<and>
    finished (bget s' x) \<and> (\<not> dirty (bget s x) \<longrightarrow> b_data (bget s' x) = dat) \<and>
    (\<forall>j < length (fsbuf s). j \<noteq> x \<longrightarrow> bget s' j = bget s j) \<and> woken s' = woken s @ [x]"
proof -
  obtain s1 where s1: "hd_dequeue s = Some (x, s1)" "hd_inv s1 xs" "fsbuf s1 = fsbuf s" "woken s1 = woken s"
    using hd_dequeue_first [OF inv] by blast
  have bs: "bget s1 j = bget s j" for j by (simp add: bget_def s1(3))
  have x: "x < length (fsbuf s)" using inv by (simp add: hd_inv_def)
  obtain k0 where k0: "hdwait st 0 = Some k0" using ready [of 0] by auto
  define s2 where "s2 = (if dirty (bget s x) then s1 else bupd x (\<lambda>b. b\<lparr>b_data := dat\<rparr>) s1)"
  define k where "k = (if dirty (bget s x) then 0 else k0)"
  define s4 where "s4 = bupd x (\<lambda>b. b\<lparr>b_flags := (b_flags b OR BUF_VALID) AND NOT BUF_DIRTY\<rparr>) s2
    \<lparr>woken := woken s2 @ [x]\<rparr>"
  have run: "hd_isr st dat s = (case hdqueue s4 of None \<Rightarrow> Inr s4 | Some j \<Rightarrow> hd_dorw st k (Some j) s4)"
    using k0 by (cases "dirty (bget s x)")
      (simp_all add: hd_isr_def s1(1,4) bs s2_def s4_def k_def Let_def dirty_def cong: option.case_cong)
  have 4: "length (fsbuf s4) = length (fsbuf s)" "hdqueue s4 = hdqueue s1" "woken s4 = woken s @ [x]"
    "\<And>j. j < length (fsbuf s) \<Longrightarrow> j \<noteq> x \<Longrightarrow> bget s4 j = bget s j"
    "finished (bget s4 x)" "\<not> dirty (bget s x) \<Longrightarrow> b_data (bget s4 x) = dat"
    "\<And>j. j < length (fsbuf s) \<Longrightarrow> b_hdnext (bget s4 j) = b_hdnext (bget s j)"
    using x by (auto simp: s4_def s2_def s1 bs finished_def flag_simps)
  have inv4: "hd_inv s4 xs" using s1(2) hd_inv_cong [of s4 s1 xs] 4 by (simp add: s1(3) bs)
  show ?thesis
  proof (cases "hdqueue s4")
    case None
    with run inv4 4 show ?thesis by auto
  next
    case (Some j)
    with run hd_dorw_keeps [OF ready, of k j s4] obtain s' where s': "hd_isr st dat s = Inr s'"
      "fsbuf s' = fsbuf s4" "woken s' = woken s4" "hdqueue s' = hdqueue s4" by auto
    then have "bget s' j = bget s4 j" for j by (simp add: bget_def)
    with s' 4 inv4 hd_inv_cong [of s' s4 xs] show ?thesis by auto
  qed
qed

text \<open>A series of interrupts, with the sector the disk delivers at each.\<close>

primrec hd_isrs :: "(nat \<Rightarrow> u8) \<Rightarrow> u8 list list \<Rightarrow> bio \<Rightarrow> bio res" where
  "hd_isrs st [] s = Inr s"
| "hd_isrs st (d # ds) s = bnd (hd_isr st d s) (hd_isrs st ds)"

lemma hd_isrs_complete:
  assumes ready: "\<And>k. hdwait st k \<noteq> None"
  shows "hd_inv s xs \<Longrightarrow> length ds = length xs \<Longrightarrow>
    \<exists>s'. hd_isrs st ds s = Inr s' \<and> hd_inv s' [] \<and> length (fsbuf s') = length (fsbuf s) \<and>
      (\<forall>i < length xs. finished (bget s' (xs ! i)) \<and>
         (\<not> dirty (bget s (xs ! i)) \<longrightarrow> b_data (bget s' (xs ! i)) = ds ! i)) \<and>
      (\<forall>j < length (fsbuf s). j \<notin> set xs \<longrightarrow> bget s' j = bget s j) \<and> woken s' = woken s @ xs"
proof (induction ds arbitrary: s xs)
  case Nil
  then show ?case by simp
next
  case (Cons d ds)
  then obtain x ys where xs: "xs = x # ys" by (cases xs) auto
  have dis: "distinct xs" "\<forall>y \<in> set xs. y < length (fsbuf s)" using Cons.prems(1) by (simp_all add: hd_inv_def)
  obtain s1 where s1: "hd_isr st d s = Inr s1" "hd_inv s1 ys" "length (fsbuf s1) = length (fsbuf s)"
    "finished (bget s1 x)" "\<not> dirty (bget s x) \<longrightarrow> b_data (bget s1 x) = d"
    "\<forall>j < length (fsbuf s). j \<noteq> x \<longrightarrow> bget s1 j = bget s j" "woken s1 = woken s @ [x]"
    using hd_isr_completes [OF Cons.prems(1) [unfolded xs] ready, of d] by blast
  obtain s' where s': "hd_isrs st ds s1 = Inr s'" "hd_inv s' []" "length (fsbuf s') = length (fsbuf s1)"
    "\<forall>i < length ys. finished (bget s' (ys ! i)) \<and> (\<not> dirty (bget s1 (ys ! i)) \<longrightarrow> b_data (bget s' (ys ! i)) = ds ! i)"
    "\<forall>j < length (fsbuf s1). j \<notin> set ys \<longrightarrow> bget s' j = bget s1 j" "woken s' = woken s1 @ ys"
    using Cons.IH [OF s1(2)] Cons.prems(2) by (auto simp: xs)
  have same: "bget s1 (ys ! i) = bget s (ys ! i)" if "i < length ys" for i
  proof -
    have "ys ! i \<in> set ys" using that by simp
    with dis have "ys ! i \<noteq> x" "ys ! i < length (fsbuf s)" by (auto simp: xs)
    with s1(6) show ?thesis by simp
  qed
  have "finished (bget s' (xs ! i)) \<and> (\<not> dirty (bget s (xs ! i)) \<longrightarrow> b_data (bget s' (xs ! i)) = (d # ds) ! i)"
    if "i < length xs" for i
    using that s1 s' dis same by (cases i) (simp_all add: xs)
  with s1 s' show ?case by (auto simp: xs)
qed

lemma flags_written:
  "finished (b\<lparr>b_flags := b_flags b AND NOT BUF_DIRTY OR BUF_VALID\<rparr>)"
  "busy (b\<lparr>b_flags := b_flags b AND NOT BUF_DIRTY OR BUF_VALID\<rparr>) = busy b"
proof -
  have u: "b_flags (b\<lparr>b_flags := w\<rparr>) = w" for w by simp
  show "finished (b\<lparr>b_flags := b_flags b AND NOT BUF_DIRTY OR BUF_VALID\<rparr>)"
    "busy (b\<lparr>b_flags := b_flags b AND NOT BUF_DIRTY OR BUF_VALID\<rparr>) = busy b"
    unfolding finished_def flag_bits u flag_updates(1) by simp_all
qed

text \<open>The four register values of a request put together again.\<close>

lemma lba_join:
  assumes "n < (0x10000000 :: u32)"
  shows "(n AND 0xff) OR push_bit 8 (drop_bit 8 n AND 0xff) OR push_bit 16 (drop_bit 16 n AND 0xff)
    OR push_bit 24 ((0xf0 OR (drop_bit 24 n AND 0x0f)) AND 0x0f) = n"
proof -
  have m: "(0xff :: u32) = mask 8" "(0x0f :: u32) = mask 4" by (simp_all add: mask_eq_exp_minus_1)
  have "n = take_bit 28 n"
    using assms by (simp add: take_bit_eq_mod u32_eq_iff unat_mod word_less_nat_alt)
  then have hi: "bit n j \<Longrightarrow> j < 28" for j by (metis bit_take_bit_iff)
  have "(0xf0 OR x) AND 0x0f = x AND 0x0f" for x :: u32 by (simp add: bit.conj_disj_distrib2)
  then have low: "(0xf0 OR (drop_bit 24 n AND 0x0f)) AND 0x0f = drop_bit 24 n AND 0x0f" by (simp add: and.assoc)
  show ?thesis
    unfolding low unfolding m
  proof (rule bit_eqI)
    fix j
    show "bit (n AND mask 8 OR push_bit 8 (drop_bit 8 n AND mask 8) OR push_bit 16 (drop_bit 16 n AND mask 8)
        OR push_bit 24 (drop_bit 24 n AND mask 4)) j \<longleftrightarrow> bit n j"
      using hi [of j] by (cases "j < 8"; cases "j < 16"; cases "j < 24") (auto simp: bit_simps)
  qed
qed

section \<open>Properties\<close>

text \<open>A cache of two buffers with a RAM disk of two sectors at address 0, all bytes zero.\<close>

definition two_bufs :: bio where
  "two_bufs =
     \<lparr>fsbuf = [\<lparr>b_dev = 0x100, b_flags = 5, b_num = 1, b_prev = Head, b_next = Buf 1, b_hdnext = None,
                b_data = replicate 512 7\<rparr>,
               \<lparr>b_dev = 0x300, b_flags = 1, b_num = 0, b_prev = Buf 0, b_next = Head, b_hdnext = None,
                b_data = replicate 512 9\<rparr>],
      head_prev = Buf 1, head_next = Buf 0, ram = (\<lambda>_. 0), hdstart = 0, disksize = 2,
      hdqueue = None, ports = [], woken = []\<rparr>"



text \<open>
  C21. The RAM disk: writing a dirty buffer back with \<^verbatim>\<open>memhd_rw\<close> changes exactly the sector with its
  number to the buffer's data and marks the buffer clean and valid, and no other buffer or sector
  changes.
\<close>

theorem memhd_write_exact:
  assumes "disk_ok s" and "i < length (fsbuf s)" and "busy (bget s i)" and "dirty (bget s i)"
    and "MAJOR (b_dev (bget s i)) = MEM_MAJOR" and "b_num (bget s i) < disksize s"
    and "length (b_data (bget s i)) = BUF_SIZE"
  shows "\<exists>s'. memhd_rw i s = Inr s' \<and>
    (\<forall>k < disksize s. sector s' k = (if k = b_num (bget s i) then b_data (bget s i) else sector s k)) \<and>
    (\<forall>j < length (fsbuf s). bget s' j = bget s j \<or> j = i) \<and>
    finished (bget s' i) \<and> busy (bget s' i) \<and> b_data (bget s' i) = b_data (bget s i)"
proof -
  define s' where "s' = bupd i (\<lambda>b. b\<lparr>b_flags := b_flags b AND NOT BUF_DIRTY OR BUF_VALID\<rparr>)
    (s\<lparr>ram := poke (ram s) (hdstart s + b_num (bget s i) * 512) (b_data (bget s i))\<rparr>)"
  have "memhd_rw i s = Inr s'" unfolding s'_def by (rule memhd_rw_write [OF refl assms(3-6)])
  moreover have "sector s' k = (if k = b_num (bget s i) then b_data (bget s i) else sector s k)"
    if "k < disksize s" for k
    using sector_poke [OF assms(1,6) that assms(7)] by (simp add: s'_def sector_def)
  moreover have "bget s' j = bget s j \<or> j = i" if "j < length (fsbuf s)" for j
    using that by (auto simp: s'_def)
  moreover have "finished (bget s' i)" "busy (bget s' i)" "b_data (bget s' i) = b_data (bget s i)"
    using assms(2,3) by (simp_all add: s'_def flags_written [unfolded not_flags])
  ultimately show ?thesis by blast
qed

theorem memhd_write_exact_witness:
  "\<exists>s'. memhd_rw 0 two_bufs = Inr s' \<and> sector s' 1 = replicate 512 7 \<and> sector s' 0 = replicate 512 0"
proof -
  have h: "disk_ok two_bufs" "0 < length (fsbuf two_bufs)" "busy (bget two_bufs 0)" "dirty (bget two_bufs 0)"
    "MAJOR (b_dev (bget two_bufs 0)) = MEM_MAJOR" "b_num (bget two_bufs 0) < disksize two_bufs"
    "length (b_data (bget two_bufs 0)) = BUF_SIZE"
    by (simp_all add: two_bufs_def disk_ok_def bget_def busy_def dirty_def MAJOR_def)
  have "sector two_bufs 0 = replicate 512 0" "b_num (bget two_bufs 0) = 1"
    "b_data (bget two_bufs 0) = replicate 512 7" "disksize two_bufs = 2"
    by (simp_all add: two_bufs_def sector_def peek_def bget_def map_replicate_const)
  then show ?thesis using memhd_write_exact [OF h] by auto
qed

definition lba_of :: "(u16 \<times> u32) list \<Rightarrow> u32" where
  "lba_of ps = the (map_of ps 0x1f3) OR push_bit 8 (the (map_of ps 0x1f4))
     OR push_bit 16 (the (map_of ps 0x1f5)) OR push_bit 24 (the (map_of ps 0x1f6) AND 0x0f)"

text \<open>
  The registers \<^verbatim>\<open>hd_dorw\<close> writes address the right sector: the bytes sent to the ports 0x1f3 to
  0x1f5 and the low four bits of the one sent to 0x1f6 are the 28-bit block number, the count is 1 and
  the command is a write exactly when the buffer is dirty, in which case its data follow.
\<close>

theorem hd_dorw_addresses:
  assumes "hdwait st k \<noteq> None" and "ports s = []" and "b_num (bget s i) < 0x10000000"
  shows "\<exists>s'. hd_dorw st k (Some i) s = Inr s' \<and> lba_of (ports s') = b_num (bget s i) \<and>
    map_of (ports s') 0x1f2 = Some 1 \<and>
    map_of (ports s') 0x1f7 = Some (if dirty (bget s i) then 0x30 else 0x20) \<and>
    map snd (filter (\<lambda>(p, v). p = 0x1f0) (ports s')) = (if dirty (bget s i) then map ucast (b_data (bget s i)) else [])"
proof -
  obtain w where w: "hdwait st k = Some w" using assms(1) by auto
  have dev: "0xe0 OR (16 OR x) = 0xf0 OR x" for x :: u32 by (simp add: or.assoc [symmetric])
  show ?thesis
    using lba_join [OF assms(3)] assms(2)
    by (auto simp: hd_dorw_def w Let_def outb_def outsl_def lba_of_def dev dirty_def bget_def
        filter_map o_def)
qed

theorem hd_dorw_addresses_witness:
  "\<exists>s'. hd_dorw (\<lambda>_. 0x40) 0 (Some 0) two_bufs = Inr s' \<and> lba_of (ports s') = 1 \<and>
    map_of (ports s') 0x1f7 = Some 0x30"
proof -
  have "hdwait (\<lambda>_. 0x40) 0 \<noteq> None" "ports two_bufs = []" "b_num (bget two_bufs 0) < 0x10000000"
    "b_num (bget two_bufs 0) = 1" "dirty (bget two_bufs 0)"
    by (simp_all add: hdwait.simps two_bufs_def bget_def dirty_def)
  then show ?thesis using hd_dorw_addresses [of "\<lambda>_. 0x40" 0 two_bufs 0] by auto
qed

end
