(* ===== verification/Fs_Buffer.thy ===== *)
theory Fs_Buffer
  imports Drv_Disk
begin

text \<open>
  The buffer cache \<^verbatim>\<open>fs/buffer.c\<close>: sixteen buffers on a doubly linked ring through \<^verbatim>\<open>bhead\<close> in order
  of last use. The ring is modelled with its links; \<open>ring s xs\<close> relates it to the list of buffers it
  stands for. A task that finds a block busy, or waits for the IDE disk, goes to sleep: the operation
  then ends with \<open>Wait\<close> (the task repeats the operation when it is woken) or \<open>WaitIO\<close> (it continues in
  \<^verbatim>\<open>hd_rw\<close>).
\<close>

section \<open>Definitions\<close>

definition getnext :: "bio \<Rightarrow> bptr \<Rightarrow> bptr" where
  "getnext s p = (case p of Head \<Rightarrow> head_next s | Buf i \<Rightarrow> b_next (bget s i))"

definition getprev :: "bio \<Rightarrow> bptr \<Rightarrow> bptr" where
  "getprev s p = (case p of Head \<Rightarrow> head_prev s | Buf i \<Rightarrow> b_prev (bget s i))"

definition setnext :: "bptr \<Rightarrow> bptr \<Rightarrow> bio \<Rightarrow> bio" where
  "setnext p q s = (case p of Head \<Rightarrow> s\<lparr>head_next := q\<rparr> | Buf i \<Rightarrow> bupd i (\<lambda>b. b\<lparr>b_next := q\<rparr>) s)"

definition setprev :: "bptr \<Rightarrow> bptr \<Rightarrow> bio \<Rightarrow> bio" where
  "setprev p q s = (case p of Head \<Rightarrow> s\<lparr>head_prev := q\<rparr> | Buf i \<Rightarrow> bupd i (\<lambda>b. b\<lparr>b_prev := q\<rparr>) s)"

text \<open>The four assignments that put \<open>bp\<close> behind \<^verbatim>\<open>bhead\<close>, in \<^verbatim>\<open>init_buffer\<close> and \<^verbatim>\<open>brelse\<close>.\<close>

definition push_front :: "nat \<Rightarrow> bio \<Rightarrow> bio" where
  "push_front i s =
     (let s1 = setnext (Buf i) (getnext s Head) s;
          s2 = setprev (Buf i) Head s1;
          s3 = setprev (getnext s2 Head) (Buf i) s2
      in setnext Head (Buf i) s3)"

definition init_buffer :: "bio \<Rightarrow> bio" where
  "init_buffer s =
     fold (\<lambda>i s. push_front i (bupd i (\<lambda>b. b\<lparr>b_dev := - 1\<rparr>) s)) [0..<NBUF]
       (setprev Head Head (setnext Head Head s))"

definition buf_ll_rw :: "(nat \<Rightarrow> u8) \<Rightarrow> nat \<Rightarrow> bio \<Rightarrow> (bool \<times> bio) res" where
  "buf_ll_rw st i s =
     (if MAJOR (b_dev (bget s i)) = MEM_MAJOR then bnd (memhd_rw i s) (\<lambda>s1. Inr (True, s1))
      else if MAJOR (b_dev (bget s i)) = HD_MAJOR then hd_rw st i s
      else Inl (Panic ''buf_ll_rw''))"

partial_function (option) find_block :: "u32 \<Rightarrow> u32 \<Rightarrow> bio \<Rightarrow> bptr \<Rightarrow> nat option option" where
  "find_block dev nblk s p =
     (case p of
        Head \<Rightarrow> Some None
      | Buf i \<Rightarrow> if ucast (b_dev (bget s i)) = dev \<and> b_num (bget s i) = nblk then Some (Some i)
                 else find_block dev nblk s (getnext s p))"

partial_function (option) find_free :: "bio \<Rightarrow> bptr \<Rightarrow> nat option option" where
  "find_free s p =
     (case p of
        Head \<Rightarrow> Some None
      | Buf i \<Rightarrow> if b_flags (bget s i) AND (BUF_BUSY OR BUF_DIRTY) = 0 then Some (Some i)
                 else find_free s (getprev s p))"

datatype got = Got nat | Wait nat | WaitIO nat

definition getblk :: "u32 \<Rightarrow> u32 \<Rightarrow> bio \<Rightarrow> (got \<times> bio) res" where
  "getblk dev nblk s =
     (case find_block dev nblk s (getnext s Head) of
        None \<Rightarrow> Inl (Hang ''getblk'')
      | Some (Some i) \<Rightarrow>
          if b_flags (bget s i) AND BUF_BUSY = 0
          then Inr (Got i, bupd i (\<lambda>b. b\<lparr>b_flags := b_flags b OR BUF_BUSY\<rparr>) s)
          else Inr (Wait i, s)
      | Some None \<Rightarrow>
          (case find_free s (getprev s Head) of
             None \<Rightarrow> Inl (Hang ''getblk'')
           | Some (Some i) \<Rightarrow>
               Inr (Got i, bupd i (\<lambda>b. b\<lparr>b_flags := BUF_BUSY, b_dev := ucast dev, b_num := nblk\<rparr>) s)
           | Some None \<Rightarrow> Inl (Panic ''getblk: no buffers available'')))"

definition bread :: "(nat \<Rightarrow> u8) \<Rightarrow> u32 \<Rightarrow> u32 \<Rightarrow> bio \<Rightarrow> (got \<times> bio) res" where
  "bread st dev nblk s =
     bnd (getblk dev nblk s) (\<lambda>(g, s1).
       case g of
         Got i \<Rightarrow> if b_flags (bget s1 i) AND BUF_VALID = 0
                  then bnd (buf_ll_rw st i s1) (\<lambda>(ready, s2). Inr (if ready then Got i else WaitIO i, s2))
                  else Inr (Got i, s1)
       | w \<Rightarrow> Inr (w, s1))"

definition bwrite :: "(nat \<Rightarrow> u8) \<Rightarrow> nat \<Rightarrow> bio \<Rightarrow> (bool \<times> bio) res" where
  "bwrite st i s =
     (if b_flags (bget s i) AND BUF_BUSY = 0 then Inl (Panic ''bwrite: buffer isn't busy'')
      else buf_ll_rw st i (bupd i (\<lambda>b. b\<lparr>b_flags := b_flags b OR BUF_DIRTY\<rparr>) s))"

definition brelse :: "nat \<Rightarrow> bio \<Rightarrow> bio res" where
  "brelse i s =
     (if b_flags (bget s i) AND BUF_BUSY = 0 then Inl (Panic ''bwrite: buffer isn't busy'')
      else let s1 = setprev (getnext s (Buf i)) (getprev s (Buf i)) s;
               s2 = setnext (getprev s1 (Buf i)) (getnext s1 (Buf i)) s1;
               s3 = push_front i s2;
               s4 = bupd i (\<lambda>b. b\<lparr>b_flags := b_flags b AND NOT BUF_BUSY\<rparr>) s3
           in Inr (s4\<lparr>woken := woken s4 @ [i]\<rparr>))"

text \<open>
  \<^verbatim>\<open>bread_nblocks\<close> copies to the kernel memory \<open>m\<close> at \<open>dst\<close>; \<open>Some w\<close> when a \<^verbatim>\<open>bread\<close> in it put the
  task to sleep.
\<close>

primrec bread_nblocks_loop ::
    "(nat \<Rightarrow> u8) \<Rightarrow> u32 \<Rightarrow> nat \<Rightarrow> u32 \<Rightarrow> u32 \<Rightarrow> mem \<Rightarrow> bio \<Rightarrow> (got option \<times> mem \<times> bio) res" where
  "bread_nblocks_loop st dev 0 dst blk m s = Inr (None, m, s)"
| "bread_nblocks_loop st dev (Suc n) dst blk m s =
     bnd (bread st dev blk s) (\<lambda>(g, s1).
       case g of
         Got i \<Rightarrow> bnd (brelse i s1)
                    (bread_nblocks_loop st dev n (dst + 512) (blk + 1) (poke m dst (b_data (bget s1 i))))
       | w \<Rightarrow> Inr (Some w, m, s1))"

definition bread_nblocks ::
    "(nat \<Rightarrow> u8) \<Rightarrow> u32 \<Rightarrow> u32 \<Rightarrow> u32 \<Rightarrow> int \<Rightarrow> mem \<Rightarrow> bio \<Rightarrow> (got option \<times> mem \<times> bio) res" where
  "bread_nblocks st dev dst blk n m s = bread_nblocks_loop st dev (nat n) dst blk m s"

definition bread_block ::
    "(nat \<Rightarrow> u8) \<Rightarrow> u32 \<Rightarrow> u32 \<Rightarrow> u32 \<Rightarrow> mem \<Rightarrow> bio \<Rightarrow> (got option \<times> mem \<times> bio) res" where
  "bread_block st dev dst blk m s = bread_nblocks st dev dst blk 2 m s"

section \<open>Doubly linked lists\<close>

fun links :: "('p \<Rightarrow> 'p) \<Rightarrow> ('p \<Rightarrow> 'p) \<Rightarrow> 'p list \<Rightarrow> bool" where
  "links n p (a # b # xs) \<longleftrightarrow> n a = b \<and> p b = a \<and> links n p (b # xs)"
| "links n p _ \<longleftrightarrow> True"

lemma links_append:
  "links n p (xs @ a # ys) \<longleftrightarrow> links n p (xs @ [a]) \<and> links n p (a # ys)"
  by (induction n p xs rule: links.induct) auto

lemma links_cong:
  "(\<And>a. a \<in> set (butlast xs) \<Longrightarrow> n' a = n a) \<Longrightarrow> (\<And>a. a \<in> set (tl xs) \<Longrightarrow> p' a = p a) \<Longrightarrow>
   links n' p' xs = links n p xs"
  by (induction n p xs rule: links.induct) auto

lemma links_unlink:
  assumes l: "links n p (us @ a # x # b # vs)"
    and d: "distinct (us @ a # x # butlast (b # vs))" "distinct (tl (us @ [a]) @ x # b # vs)"
  shows "links (n(a := b)) (p(b := a)) (us @ a # b # vs)"
proof -
  from l have "links n p (us @ [a])" "links n p (a # x # b # vs)"
    using links_append [of n p us a "x # b # vs"] by blast+
  moreover from this have "links n p (b # vs)" by simp
  moreover have "links (n(a := b)) (p(b := a)) (us @ [a]) = links n p (us @ [a])"
    by (rule links_cong) (use d in auto)
  moreover have "links (n(a := b)) (p(b := a)) (b # vs) = links n p (b # vs)"
    by (rule links_cong) (use d in auto)
  ultimately show ?thesis using links_append [of _ _ us a "b # vs"] by simp
qed

lemma links_insert:
  assumes "links n p (h # b # vs)" and "h \<notin> set (butlast (b # vs))" and "b \<notin> set vs" and "x \<notin> set (h # b # vs)"
  shows "links (n(x := b, h := x)) (p(x := h, b := x)) (h # x # b # vs)"
proof -
  have "links (n(x := b, h := x)) (p(x := h, b := x)) (b # vs) = links n p (b # vs)"
    by (rule links_cong) (use assms in \<open>auto dest: in_set_butlastD split: if_splits\<close>)
  with assms show ?thesis by auto
qed

section \<open>The ring of buffers\<close>

definition ring :: "bio \<Rightarrow> nat list \<Rightarrow> bool" where
  "ring s xs \<longleftrightarrow> links (getnext s) (getprev s) (Head # map Buf xs @ [Head]) \<and> distinct xs \<and>
     (\<forall>x \<in> set xs. x < length (fsbuf s))"

definition inr :: "bio \<Rightarrow> bptr \<Rightarrow> bool" where
  "inr s p \<longleftrightarrow> (case p of Head \<Rightarrow> True | Buf i \<Rightarrow> i < length (fsbuf s))"

definition core :: "buf \<Rightarrow> buf" where
  "core b = b\<lparr>b_prev := Head, b_next := Head\<rparr>"

text \<open>Two states that differ in the links of the ring only.\<close>

definition same_bufs :: "bio \<Rightarrow> bio \<Rightarrow> bool" where
  "same_bufs s s' \<longleftrightarrow> map core (fsbuf s') = map core (fsbuf s) \<and> ram s' = ram s \<and>
     hdstart s' = hdstart s \<and> disksize s' = disksize s \<and> hdqueue s' = hdqueue s \<and>
     ports s' = ports s \<and> woken s' = woken s"

lemma core_eqD:
  "core a = core b \<Longrightarrow> b_dev a = b_dev b \<and> b_flags a = b_flags b \<and> b_num a = b_num b \<and>
     b_hdnext a = b_hdnext b \<and> b_data a = b_data b"
  by (cases a; cases b) (simp add: core_def)

lemma same_bufsD:
  assumes "same_bufs s s'" and "j < length (fsbuf s)"
  shows "b_dev (bget s' j) = b_dev (bget s j)" "b_flags (bget s' j) = b_flags (bget s j)"
    "b_num (bget s' j) = b_num (bget s j)" "b_data (bget s' j) = b_data (bget s j)"
    "b_hdnext (bget s' j) = b_hdnext (bget s j)"
proof -
  have "length (fsbuf s') = length (fsbuf s)" using assms(1) by (metis same_bufs_def length_map)
  then have "core (bget s' j) = core (bget s j)"
    using assms unfolding same_bufs_def bget_def by (metis nth_map)
  then show "b_dev (bget s' j) = b_dev (bget s j)" "b_flags (bget s' j) = b_flags (bget s j)"
    "b_num (bget s' j) = b_num (bget s j)" "b_data (bget s' j) = b_data (bget s j)"
    "b_hdnext (bget s' j) = b_hdnext (bget s j)" by (auto dest: core_eqD)
qed

lemma same_bufs_length: "same_bufs s s' \<Longrightarrow> length (fsbuf s') = length (fsbuf s)"
  by (metis same_bufs_def length_map)

lemma same_bufs_trans: "same_bufs s s' \<Longrightarrow> same_bufs s' s'' \<Longrightarrow> same_bufs s s''"
  by (simp add: same_bufs_def)

lemma map_core_bupd:
  assumes "\<And>b. core (f b) = core b"
  shows "map core (fsbuf (bupd i f s)) = map core (fsbuf s)"
proof (rule nth_equalityI)
  fix j assume "j < length (map core (fsbuf (bupd i f s)))"
  then show "map core (fsbuf (bupd i f s)) ! j = map core (fsbuf s) ! j"
    using assms by (cases "i = j") (simp_all add: bupd_def)
qed simp

lemma same_bufs_set: "same_bufs s (setnext p q s)" "same_bufs s (setprev p q s)"
  by (cases p; simp add: setnext_def setprev_def same_bufs_def map_core_bupd core_def)+

lemma bget_bupd_field:
  assumes "\<And>b. g (f b) = g b"
  shows "g (bget (bupd i f s) j) = g (bget s j)"
  by (cases "i < length (fsbuf s)") (auto simp: bget_def bupd_def nth_list_update list_update_beyond assms)

lemma get_set [simp]:
  "inr s p \<Longrightarrow> getnext (setnext p q s) = (getnext s)(p := q)"
  "inr s p \<Longrightarrow> getprev (setprev p q s) = (getprev s)(p := q)"
  "getnext (setprev p q s) = getnext s" "getprev (setnext p q s) = getprev s"
  "inr (setnext p q s) = inr s" "inr (setprev p q s) = inr s"
proof -
  show "getnext (setnext p q s) = (getnext s)(p := q)" "getprev (setprev p q s) = (getprev s)(p := q)" if "inr s p"
    using that by (auto simp: fun_eq_iff getnext_def getprev_def setnext_def setprev_def inr_def bget_def
        bupd_def nth_list_update split: bptr.splits)
  show "getnext (setprev p q s) = getnext s" "getprev (setnext p q s) = getprev s"
    "inr (setnext p q s) = inr s" "inr (setprev p q s) = inr s"
    by (auto simp: fun_eq_iff getnext_def getprev_def setnext_def setprev_def inr_def bget_bupd_field
        split: bptr.splits)
qed

lemma ringD:
  assumes "ring s (us @ i # vs)"
  obtains a b us' vs' where "Head # map Buf us = us' @ [a]" "map Buf vs @ [Head] = b # vs'"
    "getprev s (Buf i) = a" "getnext s (Buf i) = b" "inr s a" "inr s b" "a \<noteq> Buf i" "b \<noteq> Buf i"
    "i < length (fsbuf s)"
proof -
  obtain us' a where a: "Head # map Buf us = us' @ [a]" by (metis rev_exhaust list.distinct(1))
  obtain b vs' where b: "map Buf vs @ [Head] = b # vs'" by (metis append_is_Nil_conv list.distinct(1) list.exhaust)
  have l: "links (getnext s) (getprev s) (us' @ a # Buf i # b # vs')"
  proof -
    have "Head # map Buf (us @ i # vs) @ [Head] = (us' @ [a]) @ Buf i # b # vs'"
      unfolding a [symmetric] b [symmetric] by simp
    with assms show ?thesis by (simp add: ring_def)
  qed
  then have "getprev s (Buf i) = a" "getnext s (Buf i) = b"
    using links_append [of "getnext s" "getprev s" us' a "Buf i # b # vs'"] by auto
  moreover have "a \<in> set (Head # map Buf us)" "b \<in> set (map Buf vs @ [Head])" unfolding a b by simp_all
  then have "inr s a" "inr s b" "a \<noteq> Buf i" "b \<noteq> Buf i"
    using assms by (auto simp: ring_def inr_def)
  moreover have "i < length (fsbuf s)" using assms by (simp add: ring_def)
  ultimately show thesis using that a b by blast
qed

lemma ring_push_front:
  assumes r: "ring s xs" and i: "i \<notin> set xs" "i < length (fsbuf s)"
  shows "ring (push_front i s) (i # xs)" and "same_bufs s (push_front i s)"
proof -
  obtain b vs where b: "map Buf xs @ [Head] = b # vs" by (metis append_is_Nil_conv list.distinct(1) list.exhaust)
  have l: "links (getnext s) (getprev s) (Head # b # vs)" using r by (simp add: ring_def b)
  have bm: "b \<in> set (map Buf xs @ [Head])" unfolding b by simp
  then have ib: "inr s b" "b \<noteq> Buf i" using r i by (auto simp: ring_def inr_def)
  have ii: "inr s (Buf i)" "inr s Head" using i by (simp_all add: inr_def)
  have vs: "set (butlast (b # vs)) = Buf ` set xs" "b \<notin> set vs" "set (b # vs) = insert Head (Buf ` set xs)"
  proof -
    show "set (butlast (b # vs)) = Buf ` set xs" unfolding b [symmetric] by simp
    show "set (b # vs) = insert Head (Buf ` set xs)" unfolding b [symmetric] by auto
    have "distinct (b # vs)" unfolding b [symmetric] using r by (auto simp: ring_def distinct_map inj_on_def)
    then show "b \<notin> set vs" by simp
  qed
  have nx: "getnext s Head = b" using l by simp
  have gn: "getnext (push_front i s) = (getnext s)(Buf i := b, Head := Buf i)"
    and gp: "getprev (push_front i s) = (getprev s)(Buf i := Head, b := Buf i)"
    using ii ib by (simp_all add: push_front_def Let_def nx)
  have "links (getnext (push_front i s)) (getprev (push_front i s)) (Head # Buf i # b # vs)"
    unfolding gn gp by (rule links_insert [OF l]) (use vs i in auto)
  moreover show sb: "same_bufs s (push_front i s)"
    unfolding push_front_def Let_def by (meson same_bufs_set same_bufs_trans)
  ultimately show "ring (push_front i s) (i # xs)"
    using r i same_bufs_length [OF sb] by (simp add: ring_def b)
qed

lemma ring_unlink:
  assumes r: "ring s (us @ i # vs)" and s1: "s1 = setprev (getnext s (Buf i)) (getprev s (Buf i)) s"
    and s2: "s2 = setnext (getprev s1 (Buf i)) (getnext s1 (Buf i)) s1"
  shows "ring s2 (us @ vs)" and "same_bufs s s2"
proof -
  obtain a b us' vs' where us: "Head # map Buf us = us' @ [a]" and vs: "map Buf vs @ [Head] = b # vs'"
    and ab: "getprev s (Buf i) = a" "getnext s (Buf i) = b" "inr s a" "inr s b" "a \<noteq> Buf i" "b \<noteq> Buf i"
    by (rule ringD [OF r])
  have "Head # map Buf (us @ i # vs) @ [Head] = (Head # map Buf us) @ Buf i # (map Buf vs @ [Head])"
    "Head # map Buf (us @ vs) @ [Head] = (Head # map Buf us) @ (map Buf vs @ [Head])" by simp_all
  then have all: "Head # map Buf (us @ i # vs) @ [Head] = us' @ a # Buf i # b # vs'"
    "Head # map Buf (us @ vs) @ [Head] = us' @ a # b # vs'"
    unfolding us vs by simp_all
  have d: "distinct (Head # map Buf (us @ i # vs))" "distinct (map Buf (us @ i # vs) @ [Head])"
    using r by (auto simp: ring_def distinct_map inj_on_def)
  have "us' @ a # Buf i # butlast (b # vs') = (us' @ [a]) @ Buf i # butlast (b # vs')" by simp
  also have "\<dots> = Head # map Buf (us @ i # vs)" unfolding us [symmetric] vs [symmetric] by simp
  finally have d1: "distinct (us' @ a # Buf i # butlast (b # vs'))" using d(1) by simp
  have "tl (us' @ [a]) @ Buf i # b # vs' = map Buf (us @ i # vs) @ [Head]"
    unfolding us [symmetric] vs [symmetric] by simp
  then have d2: "distinct (tl (us' @ [a]) @ Buf i # b # vs')" using d(2) by metis
  have "links (getnext s) (getprev s) (us' @ a # Buf i # b # vs')" using r unfolding ring_def all(1) by blast
  from links_unlink [OF this d1 d2]
  have "links (getnext s2) (getprev s2) (Head # map Buf (us @ vs) @ [Head])"
    unfolding all(2) using ab by (simp add: s1 s2)
  moreover show sb: "same_bufs s s2" unfolding s1 s2 by (meson same_bufs_set same_bufs_trans)
  ultimately show "ring s2 (us @ vs)" using r same_bufs_length [OF sb] by (auto simp: ring_def)
qed

section \<open>The searches of \<^verbatim>\<open>getblk\<close>\<close>

definition holds :: "u32 \<Rightarrow> u32 \<Rightarrow> bio \<Rightarrow> nat \<Rightarrow> bool" where
  "holds dev nblk s i \<longleftrightarrow> ucast (b_dev (bget s i)) = dev \<and> b_num (bget s i) = nblk"

definition idle :: "bio \<Rightarrow> nat \<Rightarrow> bool" where
  "idle s i \<longleftrightarrow> \<not> busy (bget s i) \<and> \<not> dirty (bget s i)"

lemma find_block_path:
  "links (getnext s) (getprev s) (map Buf xs @ [Head]) \<Longrightarrow>
   find_block dev nblk s (hd (map Buf xs @ [Head])) = Some (find (holds dev nblk s) xs)"
proof (induction xs)
  case Nil
  then show ?case by (simp add: find_block.simps)
next
  case (Cons x xs)
  obtain b vs where b: "map Buf xs @ [Head] = b # vs" by (metis append_is_Nil_conv list.distinct(1) list.exhaust)
  with Cons.prems have "links (getnext s) (getprev s) (map Buf xs @ [Head])" "getnext s (Buf x) = b" by simp_all
  with Cons.IH b show ?case by (simp add: find_block.simps [of dev nblk s "Buf x"] holds_def)
qed

lemma find_free_path:
  "links (getnext s) (getprev s) (Head # map Buf xs @ [q]) \<Longrightarrow>
   find_free s (getprev s q) = Some (find (idle s) (rev xs))"
proof (induction xs arbitrary: q rule: rev_induct)
  case Nil
  then show ?case by (simp add: find_free.simps)
next
  case (snoc x xs)
  have "links (getnext s) (getprev s) ((Head # map Buf xs) @ Buf x # [q])" using snoc.prems by simp
  then have "links (getnext s) (getprev s) ((Head # map Buf xs) @ [Buf x])" "getprev s q = Buf x"
    using links_append [of "getnext s" "getprev s" "Head # map Buf xs" "Buf x" "[q]"] by simp_all
  with snoc.IH [of "Buf x"] show ?case
    by (simp add: find_free.simps [of s "Buf x"] idle_def flag_bits none_of_5)
qed

lemma ring_search:
  assumes "ring s xs"
  shows "find_block dev nblk s (getnext s Head) = Some (find (holds dev nblk s) xs)"
    and "find_free s (getprev s Head) = Some (find (idle s) (rev xs))"
proof -
  have l: "links (getnext s) (getprev s) (Head # map Buf xs @ [Head])" using assms by (simp add: ring_def)
  then have "links (getnext s) (getprev s) (map Buf xs @ [Head])" "getnext s Head = hd (map Buf xs @ [Head])"
    by (cases "map Buf xs @ [Head]"; simp)+
  with find_block_path show "find_block dev nblk s (getnext s Head) = Some (find (holds dev nblk s) xs)" by simp
  show "find_free s (getprev s Head) = Some (find (idle s) (rev xs))" by (rule find_free_path [OF l])
qed

lemma ring_bupd:
  assumes "\<And>b. b_next (f b) = b_next b" and "\<And>b. b_prev (f b) = b_prev b"
  shows "ring (bupd i f s) xs \<longleftrightarrow> ring s xs"
proof -
  have "getnext (bupd i f s) = getnext s" "getprev (bupd i f s) = getprev s"
    by (auto simp: fun_eq_iff getnext_def getprev_def bget_bupd_field assms split: bptr.splits)
  then show ?thesis by (simp add: ring_def)
qed

lemma ring_cong:
  assumes "fsbuf s' = fsbuf s" "head_next s' = head_next s" "head_prev s' = head_prev s"
  shows "ring s' xs \<longleftrightarrow> ring s xs"
proof -
  have "bget s' = bget s" using assms(1) by (simp add: fun_eq_iff bget_def)
  then have "getnext s' = getnext s" "getprev s' = getprev s"
    using assms by (auto simp: fun_eq_iff getnext_def getprev_def split: bptr.splits)
  with assms(1) show ?thesis by (simp add: ring_def)
qed

lemma ring_ram [simp]: "ring (s\<lparr>ram := m\<rparr>) xs \<longleftrightarrow> ring s xs"
  by (rule ring_cong) simp_all

text \<open>\<^verbatim>\<open>brelse\<close> moves the buffer to the front and clears its busy flag; nothing else changes.\<close>

lemma brelse_spec:
  assumes r: "ring s (us @ i # vs)" and bz: "busy (bget s i)"
  shows "\<exists>s'. brelse i s = Inr s' \<and> ring s' (i # us @ vs) \<and> woken s' = woken s @ [i] \<and>
    same_bufs (bupd i (\<lambda>b. b\<lparr>b_flags := b_flags b AND NOT BUF_BUSY\<rparr>) s) (s'\<lparr>woken := woken s\<rparr>)"
proof -
  define s1 where "s1 = setprev (getnext s (Buf i)) (getprev s (Buf i)) s"
  define s2 where "s2 = setnext (getprev s1 (Buf i)) (getnext s1 (Buf i)) s1"
  let ?f = "\<lambda>b. b\<lparr>b_flags := b_flags b AND NOT BUF_BUSY\<rparr>"
  let ?s4 = "bupd i ?f (push_front i s2)"
  have i: "i < length (fsbuf s)" "i \<notin> set (us @ vs)" using r by (auto simp: ring_def)
  note u = ring_unlink [OF r s1_def s2_def]
  have p: "ring (push_front i s2) (i # us @ vs)" "same_bufs s2 (push_front i s2)"
    using ring_push_front [OF u(1)] i same_bufs_length [OF u(2)] by auto
  have sb: "same_bufs s (push_front i s2)" using same_bufs_trans [OF u(2) p(2)] .
  have run: "brelse i s = Inr (?s4\<lparr>woken := woken ?s4 @ [i]\<rparr>)"
    using bz by (simp add: brelse_def busy_def s1_def s2_def Let_def)
  have "ring (?s4\<lparr>woken := woken ?s4 @ [i]\<rparr>) (i # us @ vs)"
    using p(1) by (subst ring_cong [where s = ?s4]) (simp_all add: ring_bupd)
  moreover have "map core (fsbuf ?s4) = map core (fsbuf (bupd i ?f s))"
  proof (rule nth_equalityI)
    have len: "length (fsbuf (push_front i s2)) = length (fsbuf s)" using same_bufs_length [OF sb] .
    then show "length (map core (fsbuf ?s4)) = length (map core (fsbuf (bupd i ?f s)))" by simp
    fix j assume "j < length (map core (fsbuf ?s4))"
    then have j: "j < length (fsbuf s)" "j < length (fsbuf (push_front i s2))" by (simp_all add: len)
    then have c: "core (fsbuf (push_front i s2) ! j) = core (fsbuf s ! j)"
      using sb unfolding same_bufs_def by (metis nth_map)
    have "core (?f b) = ?f (core b)" for b by (simp add: core_def)
    then show "map core (fsbuf ?s4) ! j = map core (fsbuf (bupd i ?f s)) ! j"
      using j c by (cases "i = j") (simp_all add: bupd_def)
  qed
  ultimately show ?thesis using run sb by (auto simp: same_bufs_def)
qed

section \<open>The cache invariant\<close>

text \<open>
  All buffers are on the ring, no block is cached twice, only a busy buffer can be dirty, and a valid
  clean buffer of the RAM disk \<open>d\<close> holds what is on the disk. (A buffer that has not been used yet has device 0xFFFF.)
\<close>

definition uniq :: "buf list \<Rightarrow> bool" where
  "uniq bs \<longleftrightarrow> (\<forall>i < length bs. \<forall>j < length bs. i \<noteq> j \<longrightarrow>
     b_dev (bs ! i) = b_dev (bs ! j) \<longrightarrow> b_num (bs ! i) = b_num (bs ! j) \<longrightarrow> b_dev (bs ! i) = 0xFFFF)"

definition buf_ok :: "u16 \<Rightarrow> bio \<Rightarrow> buf \<Rightarrow> bool" where
  "buf_ok d s b \<longleftrightarrow> length (b_data b) = BUF_SIZE \<and> (dirty b \<longrightarrow> busy b) \<and> (MAJOR (b_dev b) = MEM_MAJOR \<longrightarrow> b_dev b = d) \<and>
     (b_dev b = d \<and> valid b \<and> \<not> dirty b \<longrightarrow> b_num b < disksize s \<and> b_data b = sector s (b_num b))"

definition cache_inv :: "u16 \<Rightarrow> bio \<Rightarrow> nat list \<Rightarrow> bool" where
  "cache_inv d s xs \<longleftrightarrow> ring s xs \<and> set xs = {..<length (fsbuf s)} \<and> disk_ok s \<and> MAJOR d = MEM_MAJOR \<and>
     uniq (fsbuf s) \<and> (\<forall>b \<in> set (fsbuf s). buf_ok d s b)"

lemma cache_invD:
  assumes "cache_inv d s xs"
  shows "ring s xs" "set xs = {..<length (fsbuf s)}" "disk_ok s" "MAJOR d = MEM_MAJOR" "uniq (fsbuf s)"
    and "i < length (fsbuf s) \<Longrightarrow> buf_ok d s (bget s i)"
  using assms by (simp_all add: cache_inv_def bget_def)

lemma uniq_update:
  assumes "uniq bs" and "\<And>j. j < length bs \<Longrightarrow> j \<noteq> i \<Longrightarrow> b_dev (bs ! j) = b_dev b \<Longrightarrow>
    b_num (bs ! j) = b_num b \<Longrightarrow> b_dev b = 0xFFFF"
  shows "uniq (bs[i := b])"
  unfolding uniq_def
proof (intro allI impI)
  fix k j
  assume kj: "k < length (bs[i := b])" "j < length (bs[i := b])" "k \<noteq> j"
    and eq: "b_dev (bs[i := b] ! k) = b_dev (bs[i := b] ! j)" "b_num (bs[i := b] ! k) = b_num (bs[i := b] ! j)"
  consider "k = i" | "j = i" | "k \<noteq> i" "j \<noteq> i" by blast
  then show "b_dev (bs[i := b] ! k) = 0xFFFF"
  proof cases
    case 1
    with kj eq assms(2) [of j] show ?thesis by simp
  next
    case 2
    with kj eq assms(2) [of k] show ?thesis by simp
  next
    case 3
    with kj eq assms(1) show ?thesis by (simp add: uniq_def)
  qed
qed

lemma uniqD:
  "uniq (fsbuf s) \<Longrightarrow> i < length (fsbuf s) \<Longrightarrow> j < length (fsbuf s) \<Longrightarrow> b_dev (bget s i) = b_dev (bget s j) \<Longrightarrow>
   b_num (bget s i) = b_num (bget s j) \<Longrightarrow> b_dev (bget s i) \<noteq> 0xFFFF \<Longrightarrow> i = j"
  unfolding uniq_def bget_def by metis

lemma MAJOR_FFFF: "MAJOR d = MEM_MAJOR \<Longrightarrow> d \<noteq> 0xFFFF"
  by (auto simp: MAJOR_def)

text \<open>A change of one buffer that keeps its links and leaves the disk alone.\<close>

lemma cache_inv_bupd:
  assumes inv: "cache_inv d s xs" and f: "\<And>b. b_next (f b) = b_next b" "\<And>b. b_prev (f b) = b_prev b"
    and ok: "buf_ok d s (f (bget s i))"
    and new: "\<And>j. j < length (fsbuf s) \<Longrightarrow> j \<noteq> i \<Longrightarrow> b_dev (bget s j) = b_dev (f (bget s i)) \<Longrightarrow>
      b_num (bget s j) = b_num (f (bget s i)) \<Longrightarrow> b_dev (f (bget s i)) = 0xFFFF"
  shows "cache_inv d (bupd i f s) xs"
proof -
  have sec: "buf_ok d (bupd i f s) = buf_ok d s" by (simp add: fun_eq_iff buf_ok_def sector_def)
  have "ring (bupd i f s) xs" using cache_invD(1) [OF inv] ring_bupd f by blast
  moreover have "uniq (fsbuf (bupd i f s))"
    using uniq_update [OF cache_invD(5) [OF inv]] new by (simp add: bupd_def bget_def)
  moreover have "\<forall>b \<in> set (fsbuf (bupd i f s)). buf_ok d s b"
    using inv ok set_update_subset_insert [of "fsbuf s" i "f (bget s i)"]
    by (auto simp: cache_inv_def bupd_def bget_def)
  ultimately show ?thesis using inv unfolding cache_inv_def sec by (simp add: disk_ok_def)
qed

lemma find_cases:
  obtains "find P xs = None" "\<forall>x \<in> set xs. \<not> P x" | x where "find P xs = Some x" "x \<in> set xs" "P x"
  by (cases "find P xs") (auto simp: find_None_iff2 find_Some_iff dest: sym)

text \<open>The outcomes of \<^verbatim>\<open>getblk\<close>.\<close>

lemma getblk_cases:
  assumes inv: "cache_inv d s xs"
  obtains
    (cached) i where "i < length (fsbuf s)" "holds dev n s i" "\<not> busy (bget s i)"
      "getblk dev n s = Inr (Got i, bupd i (\<lambda>b. b\<lparr>b_flags := b_flags b OR BUF_BUSY\<rparr>) s)"
  | (wait) i where "i < length (fsbuf s)" "holds dev n s i" "busy (bget s i)" "getblk dev n s = Inr (Wait i, s)"
  | (fresh) i where "i < length (fsbuf s)" "\<forall>j < length (fsbuf s). \<not> holds dev n s j" "idle s i"
      "getblk dev n s = Inr (Got i, bupd i (\<lambda>b. b\<lparr>b_flags := BUF_BUSY, b_dev := ucast dev, b_num := n\<rparr>) s)"
  | (full) "\<forall>j < length (fsbuf s). \<not> holds dev n s j" "\<forall>j < length (fsbuf s). \<not> idle s j"
      "getblk dev n s = Inl (Panic ''getblk: no buffers available'')"
proof -
  note xs = cache_invD(2) [OF inv] and run = ring_search [OF cache_invD(1) [OF inv]]
  show thesis
  proof (rule find_cases [of "holds dev n s" xs])
    fix i assume i: "find (holds dev n s) xs = Some i" "i \<in> set xs" "holds dev n s i"
    then have "i < length (fsbuf s)" using xs by simp
    with i cached [of i] wait [of i] run show thesis
      by (cases "busy (bget s i)") (simp_all add: getblk_def busy_def)
  next
    assume no: "find (holds dev n s) xs = None" "\<forall>x \<in> set xs. \<not> holds dev n s x"
    then have no': "\<forall>j < length (fsbuf s). \<not> holds dev n s j" using xs by simp
    show thesis
    proof (rule find_cases [of "idle s" "rev xs"])
      fix i assume "find (idle s) (rev xs) = Some i" "i \<in> set (rev xs)" "idle s i"
      with fresh [of i] no no' run xs show thesis by (simp add: getblk_def)
    next
      assume "find (idle s) (rev xs) = None" "\<forall>x \<in> set (rev xs). \<not> idle s x"
      with full no no' run xs show thesis by (simp add: getblk_def)
    qed
  qed
qed

lemma flag_clear: "bit (w AND NOT BUF_DIRTY) n \<longleftrightarrow> n \<noteq> 2 \<and> bit w n" for w :: u32
proof -
  have "bit w n \<Longrightarrow> n < 32" using bit_imp_le_length [of w n] by simp
  then show ?thesis by (auto simp only: bit_and_iff bit_not_iff bits_of_flags possible_bit_u32)
qed

lemma flags_set_bits:
  "busy (b\<lparr>b_flags := b_flags c OR BUF_BUSY\<rparr>)"
  "valid (b\<lparr>b_flags := b_flags c OR BUF_BUSY\<rparr>) = valid c" "dirty (b\<lparr>b_flags := b_flags c OR BUF_BUSY\<rparr>) = dirty c"
  "busy (b\<lparr>b_flags := b_flags c OR BUF_VALID\<rparr>) = busy c"
  "valid (b\<lparr>b_flags := b_flags c OR BUF_VALID\<rparr>)" "dirty (b\<lparr>b_flags := b_flags c OR BUF_VALID\<rparr>) = dirty c"
  "busy (b\<lparr>b_flags := b_flags c OR BUF_DIRTY\<rparr>) = busy c"
  "valid (b\<lparr>b_flags := b_flags c OR BUF_DIRTY\<rparr>) = valid c" "dirty (b\<lparr>b_flags := b_flags c OR BUF_DIRTY\<rparr>)"
  "\<not> busy (b\<lparr>b_flags := b_flags c AND NOT BUF_BUSY\<rparr>)"
  "valid (b\<lparr>b_flags := b_flags c AND NOT BUF_BUSY\<rparr>) = valid c"
  "dirty (b\<lparr>b_flags := b_flags c AND NOT BUF_BUSY\<rparr>) = dirty c"
proof -
  have u: "b_flags (b\<lparr>b_flags := v\<rparr>) = v" for v by simp
  show "busy (b\<lparr>b_flags := b_flags c OR BUF_BUSY\<rparr>)"
    "valid (b\<lparr>b_flags := b_flags c OR BUF_BUSY\<rparr>) = valid c" "dirty (b\<lparr>b_flags := b_flags c OR BUF_BUSY\<rparr>) = dirty c"
    "busy (b\<lparr>b_flags := b_flags c OR BUF_VALID\<rparr>) = busy c"
    "valid (b\<lparr>b_flags := b_flags c OR BUF_VALID\<rparr>)" "dirty (b\<lparr>b_flags := b_flags c OR BUF_VALID\<rparr>) = dirty c"
    "busy (b\<lparr>b_flags := b_flags c OR BUF_DIRTY\<rparr>) = busy c"
    "valid (b\<lparr>b_flags := b_flags c OR BUF_DIRTY\<rparr>) = valid c" "dirty (b\<lparr>b_flags := b_flags c OR BUF_DIRTY\<rparr>)"
    "\<not> busy (b\<lparr>b_flags := b_flags c AND NOT BUF_BUSY\<rparr>)"
    "valid (b\<lparr>b_flags := b_flags c AND NOT BUF_BUSY\<rparr>) = valid c"
    "dirty (b\<lparr>b_flags := b_flags c AND NOT BUF_BUSY\<rparr>) = dirty c"
    unfolding flag_bits u flag_updates by simp_all
qed

lemmas flags_set = flags_set_bits flags_set_bits(10-12) [unfolded not_flags]

text \<open>
  What \<^verbatim>\<open>getblk\<close> leaves behind: a busy clean buffer for the block; \<open>touched\<close> relates two states that
  agree on the disk, the sizes and every buffer but one.
\<close>

definition touched :: "nat \<Rightarrow> bio \<Rightarrow> bio \<Rightarrow> bool" where
  "touched i s s' \<longleftrightarrow> length (fsbuf s') = length (fsbuf s) \<and> hdstart s' = hdstart s \<and>
     disksize s' = disksize s \<and> woken s' = woken s \<and> (\<forall>j < length (fsbuf s). j \<noteq> i \<longrightarrow> bget s' j = bget s j)"

definition available :: "u32 \<Rightarrow> u32 \<Rightarrow> bio \<Rightarrow> bool" where
  "available dev n s \<longleftrightarrow> (\<exists>i < length (fsbuf s). holds dev n s i \<and> \<not> busy (bget s i)) \<or>
     (\<forall>i < length (fsbuf s). \<not> holds dev n s i) \<and> (\<exists>i < length (fsbuf s). idle s i)"

lemma ucast_dev [simp]: "(ucast (ucast d :: u32) :: u16) = d" "(ucast (a :: u16) :: u32) = ucast b \<longleftrightarrow> a = b"
proof -
  show bk: "(ucast (ucast d :: u32) :: u16) = d" for d :: u16 by (rule bit_eqI) (auto simp: bit_simps)
  show "(ucast a :: u32) = ucast b \<longleftrightarrow> a = b"
    using arg_cong [of "ucast a :: u32" "ucast b" "ucast :: u32 \<Rightarrow> u16"] unfolding bk by blast
qed

lemma holds_uniq:
  assumes "cache_inv d s xs" and "holds (ucast d) n s i" "i < length (fsbuf s)" and "holds (ucast d) n s j" "j < length (fsbuf s)"
  shows "i = j"
proof (rule uniqD [OF cache_invD(5) [OF assms(1)] assms(3,5)])
  have "b_dev (bget s i) = d" using assms(2) by (simp add: holds_def)
  then show "b_dev (bget s i) \<noteq> 0xFFFF" using MAJOR_FFFF [OF cache_invD(4) [OF assms(1)]] by simp
qed (use assms(2,4) in \<open>simp_all add: holds_def\<close>)

lemma getblk_spec:
  assumes inv: "cache_inv d s xs" and av: "available (ucast d) n s"
  shows "\<exists>i s'. getblk (ucast d) n s = Inr (Got i, s') \<and> i < length (fsbuf s) \<and> \<not> busy (bget s i) \<and>
    cache_inv d s' xs \<and> touched i s s' \<and> ram s' = ram s \<and> busy (bget s' i) \<and> \<not> dirty (bget s' i) \<and>
    b_dev (bget s' i) = d \<and> b_num (bget s' i) = n"
proof (cases rule: getblk_cases [OF inv, of "ucast d" n, case_names cached wait fresh full])
  case (cached i)
  let ?f = "\<lambda>b. b\<lparr>b_flags := b_flags b OR BUF_BUSY\<rparr>"
  have ok: "buf_ok d s (bget s i)" by (rule cache_invD(6) [OF inv cached(1)])
  have h: "b_dev (bget s i) = d" "b_num (bget s i) = n" using cached(2) by (simp_all add: holds_def)
  have cl: "\<not> dirty (bget s i)" using ok cached(3) by (auto simp: buf_ok_def)
  have "buf_ok d s (?f (bget s i))"
    using ok cl by (simp add: buf_ok_def flags_set)
  moreover have "j = i" if "j < length (fsbuf s)" "b_dev (bget s j) = b_dev (?f (bget s i))"
      "b_num (bget s j) = b_num (?f (bget s i))" for j
    using holds_uniq [OF inv _ that(1) cached(2,1)] that h by (simp add: holds_def)
  ultimately have "cache_inv d (bupd i ?f s) xs" by (intro cache_inv_bupd [OF inv]) auto
  with cached h cl show ?thesis
    by (intro exI [of _ i] exI [of _ "bupd i ?f s"])
      (auto simp: touched_def flags_set)
next
  case (wait i)
  from av wait(1,2) obtain k where "k < length (fsbuf s)" "holds (ucast d) n s k" "\<not> busy (bget s k)"
    unfolding available_def by blast
  with holds_uniq [OF inv wait(2,1)] wait(3) show ?thesis by blast
next
  case (fresh i)
  let ?f = "\<lambda>b. b\<lparr>b_flags := BUF_BUSY, b_dev := ucast (ucast d :: u32), b_num := n\<rparr>"
  have ok: "buf_ok d s (bget s i)" by (rule cache_invD(6) [OF inv fresh(1)])
  have fl: "busy (?f b)" "\<not> valid (?f b)" "\<not> dirty (?f b)" for b by (simp_all add: busy_def valid_def dirty_def)
  have "buf_ok d s (?f (bget s i))" using ok fl by (simp add: buf_ok_def)
  then have "cache_inv d (bupd i ?f s) xs"
    using fresh(2) by (intro cache_inv_bupd [OF inv]) (auto simp: holds_def)
  with fresh fl show ?thesis
    by (intro exI [of _ i] exI [of _ "bupd i ?f s"]) (auto simp: touched_def idle_def)
next
  case full
  with av show ?thesis unfolding available_def by blast
qed

lemma touched_trans: "touched i s s' \<Longrightarrow> touched i s' s'' \<Longrightarrow> touched i s s''"
  by (auto simp: touched_def)

lemma touched_bupd: "touched i s (bupd i f s)"
  by (simp add: touched_def)

lemma bread_spec:
  assumes inv: "cache_inv d s xs" and av: "available (ucast d) n s" and n: "n < disksize s"
  shows "\<exists>i s'. bread st (ucast d) n s = Inr (Got i, s') \<and> i < length (fsbuf s) \<and> \<not> busy (bget s i) \<and>
    cache_inv d s' xs \<and> touched i s s' \<and> ram s' = ram s \<and> busy (bget s' i) \<and> \<not> dirty (bget s' i) \<and>
    b_dev (bget s' i) = d \<and> b_num (bget s' i) = n \<and> b_data (bget s' i) = sector s n"
proof -
  obtain i s1 where g: "getblk (ucast d) n s = Inr (Got i, s1)" "i < length (fsbuf s)" "\<not> busy (bget s i)"
      "cache_inv d s1 xs" "touched i s s1" "ram s1 = ram s" "busy (bget s1 i)" "\<not> dirty (bget s1 i)"
      "b_dev (bget s1 i) = d" "b_num (bget s1 i) = n"
    using getblk_spec [OF inv av] by blast
  have t: "length (fsbuf s1) = length (fsbuf s)" "hdstart s1 = hdstart s" "disksize s1 = disksize s"
    using g(5) by (simp_all add: touched_def)
  have sec: "sector s1 = sector s" using t g(6) by (intro ext) (simp add: sector_def)
  have mem: "MAJOR (b_dev (bget s1 i)) = MEM_MAJOR" using cache_invD(4) [OF inv] g(9) by simp
  have ok: "buf_ok d s1 (bget s1 i)" using cache_invD(6) [OF g(4)] g(2) t(1) by simp
  show ?thesis
  proof (cases "valid (bget s1 i)")
    case True
    then have "bread st (ucast d) n s = Inr (Got i, s1)" by (simp add: bread_def g(1) valid_def)
    moreover have "b_data (bget s1 i) = sector s n"
      using ok True g(8-10) sec by (simp add: buf_ok_def)
    ultimately show ?thesis using g by blast
  next
    case False
    let ?f = "\<lambda>b. b\<lparr>b_data := sector s1 (b_num b), b_flags := b_flags b OR BUF_VALID\<rparr>"
    have "memhd_rw i s1 = Inr (bupd i ?f s1)"
      using memhd_rw_read [OF refl g(7,8) False mem] n g(10) t(3) by simp
    then have run: "bread st (ucast d) n s = Inr (Got i, bupd i ?f s1)"
      using False mem by (simp add: bread_def g(1) valid_def buf_ll_rw_def)
    have "buf_ok d s1 (?f (bget s1 i))"
      using ok g(7,8,10) n t by (simp add: buf_ok_def flags_set sector_def)
    moreover have "b_dev (?f (bget s1 i)) = 0xFFFF" if "j < length (fsbuf s1)" "j \<noteq> i"
      "b_dev (bget s1 j) = b_dev (?f (bget s1 i))" "b_num (bget s1 j) = b_num (?f (bget s1 i))" for j
      using holds_uniq [OF g(4), of n j i] that g(2,9,10) t(1) by (simp add: holds_def)
    ultimately have inv': "cache_inv d (bupd i ?f s1) xs" by (intro cache_inv_bupd [OF g(4)]) auto
    have b: "bget (bupd i ?f s1) i = ?f (bget s1 i)" using g(2) t(1) by simp
    show ?thesis
      using run inv' g(2,3,6-10) touched_trans [OF g(5) touched_bupd] t(1)
      by (intro exI [of _ i] exI [of _ "bupd i ?f s1"]) (simp add: flags_set sec)
  qed
qed

text \<open>
  A task that holds a block changes its data and writes it back: only the sector of the block changes,
  and the cache is consistent with the disk again.
\<close>

lemma bupd_bupd: "bupd i f (bupd i g s) = bupd i (\<lambda>b. f (g b)) s"
  by (cases "i < length (fsbuf s)") (simp_all add: bupd_def list_update_beyond)

lemma bwrite_spec:
  assumes inv: "cache_inv d s xs" and i: "i < length (fsbuf s)" and bz: "busy (bget s i)"
    and dev: "b_dev (bget s i) = d" and n: "b_num (bget s i) < disksize s" and len: "length dat = BUF_SIZE"
    and s1: "s1 = bupd i (\<lambda>b. b\<lparr>b_data := dat\<rparr>) s"
  shows "\<exists>s'. bwrite st i s1 = Inr (True, s') \<and> cache_inv d s' xs \<and> touched i s s' \<and>
    busy (bget s' i) \<and> \<not> dirty (bget s' i) \<and> b_dev (bget s' i) = d \<and> b_num (bget s' i) = b_num (bget s i) \<and>
    b_data (bget s' i) = dat \<and>
    (\<forall>k < disksize s. sector s' k = (if k = b_num (bget s i) then dat else sector s k))"
proof -
  let ?n = "b_num (bget s i)"
  let ?g = "\<lambda>b. b\<lparr>b_data := dat, b_flags := b_flags b OR BUF_DIRTY\<rparr>"
  let ?h = "\<lambda>b. b\<lparr>b_flags := b_flags b AND NOT BUF_DIRTY OR BUF_VALID\<rparr>"
  define s2 where "s2 = bupd i ?g s"
  define s' where "s' = bupd i ?h (s2\<lparr>ram := poke (ram s2) (hdstart s2 + ?n * 512) dat\<rparr>)"
  have b1: "bget s1 i = (bget s i)\<lparr>b_data := dat\<rparr>" using i by (simp add: s1)
  have b2: "bget s2 i = ?g (bget s i)" using i by (simp add: s2_def)
  have "bupd i (\<lambda>b. b\<lparr>b_flags := b_flags b OR BUF_DIRTY\<rparr>) s1 = s2" by (simp add: s1 s2_def bupd_bupd)
  moreover have "memhd_rw i s2 = Inr s'"
    using memhd_rw_write [OF refl, of s2 i] bz dev cache_invD(4) [OF inv] n
    by (simp add: b2 flags_set s'_def) (simp add: s2_def busy_def)
  ultimately have run: "bwrite st i s1 = Inr (True, s')"
    using bz dev cache_invD(4) [OF inv] by (simp add: bwrite_def b1 b2 busy_def buf_ll_rw_def)
  have b': "bget s' i = ?h (?g (bget s i))" using i b2 by (simp add: s'_def s2_def)
  have ids: "b_dev (bget s' i) = d" "b_num (bget s' i) = ?n" by (simp_all add: b' dev)
  have others: "bget s' j = bget s j" if "j < length (fsbuf s)" "j \<noteq> i" for j
    using that by (simp add: s'_def s2_def)
  have fl: "busy (bget s' i)" "\<not> dirty (bget s' i)"
    using bz flags_written [of "?g (bget s i)"] by (simp_all only: b' finished_def flags_set(7)) (simp add: busy_def)
  have sec: "sector s' k = (if k = ?n then dat else sector s k)" if "k < disksize s" for k
    using sector_poke [OF cache_invD(3) [OF inv] n that len] by (simp add: s'_def s2_def sector_def)
  have fields: "length (fsbuf s') = length (fsbuf s)" "disksize s' = disksize s" "hdstart s' = hdstart s"
    "woken s' = woken s" by (simp_all add: s'_def s2_def)
  have fs: "fsbuf s' = (fsbuf s)[i := bget s' i]"
    using i unfolding b' by (simp add: s'_def s2_def bupd_def bget_def)
  have "cache_inv d s' xs"
  proof -
    have "ring s' xs"
      using cache_invD(1) [OF inv] by (simp add: s'_def ring_bupd s2_def)
    moreover have "uniq (fsbuf s')"
      unfolding fs
    proof (rule uniq_update [OF cache_invD(5) [OF inv]])
      fix j assume "j < length (fsbuf s)" "j \<noteq> i" "b_dev (fsbuf s ! j) = b_dev (bget s' i)"
        "b_num (fsbuf s ! j) = b_num (bget s' i)"
      then show "b_dev (bget s' i) = 0xFFFF"
        using uniqD [OF cache_invD(5) [OF inv], of i j] i dev ids unfolding bget_def [symmetric, of s] by auto
    qed
    moreover have "buf_ok d s' (bget s' j)" if j: "j < length (fsbuf s)" for j
    proof (cases "j = i")
      case True
      then show ?thesis using fl sec [OF n] len dev n fields by (simp add: buf_ok_def b')
    next
      case False
      have "b_num (bget s j) \<noteq> ?n" if "b_dev (bget s j) = d"
        using uniqD [OF cache_invD(5) [OF inv] j i] False that dev MAJOR_FFFF [OF cache_invD(4) [OF inv]] by auto
      with cache_invD(6) [OF inv j] sec fields show ?thesis
        by (auto simp: buf_ok_def others [OF j False])
    qed
    ultimately show ?thesis
      using inv fields unfolding cache_inv_def by (auto simp: disk_ok_def in_set_conv_nth bget_def)
  qed
  with run fl sec fields others show ?thesis
    using dev by (intro exI [of _ s']) (auto simp: touched_def b')
qed

lemma cache_inv_same:
  assumes inv: "cache_inv d s xs" and sb: "same_bufs s s'" and r: "ring s' ys" and ys: "set ys = set xs"
  shows "cache_inv d s' ys"
proof -
  have len: "length (fsbuf s') = length (fsbuf s)" by (rule same_bufs_length [OF sb])
  have f: "disksize s' = disksize s" "hdstart s' = hdstart s" "ram s' = ram s"
    using sb by (simp_all add: same_bufs_def)
  have sec: "sector s' = sector s" using f by (intro ext) (simp add: sector_def)
  have "buf_ok d s' (bget s' j)" if "j < length (fsbuf s)" for j
    using cache_invD(6) [OF inv that] same_bufsD [OF sb that] f(1)
    by (simp add: buf_ok_def sec valid_def dirty_def busy_def)
  moreover have "uniq (fsbuf s')"
    using cache_invD(5) [OF inv] same_bufsD(1,3) [OF sb] unfolding uniq_def len bget_def by metis
  ultimately show ?thesis
    using inv r ys len f unfolding cache_inv_def by (auto simp: disk_ok_def in_set_conv_nth bget_def)
qed

lemma cache_inv_woken: "cache_inv d (s\<lparr>woken := w\<rparr>) xs \<longleftrightarrow> cache_inv d s xs"
proof -
  have "ring (s\<lparr>woken := w\<rparr>) xs \<longleftrightarrow> ring s xs" by (rule ring_cong) simp_all
  moreover have "buf_ok d (s\<lparr>woken := w\<rparr>) = buf_ok d s" by (intro ext) (simp add: buf_ok_def sector_def)
  ultimately show ?thesis by (simp add: cache_inv_def disk_ok_def)
qed

lemma brelse_cache:
  assumes inv: "cache_inv d s xs" and i: "i < length (fsbuf s)" "busy (bget s i)" "\<not> dirty (bget s i)"
  shows "\<exists>s'. brelse i s = Inr s' \<and> cache_inv d s' (i # remove1 i xs) \<and> ram s' = ram s \<and>
    hdstart s' = hdstart s \<and> disksize s' = disksize s \<and> length (fsbuf s') = length (fsbuf s) \<and>
    woken s' = woken s @ [i] \<and> \<not> busy (bget s' i) \<and> \<not> dirty (bget s' i) \<and>
    (\<forall>j < length (fsbuf s). j \<noteq> i \<longrightarrow> busy (bget s' j) = busy (bget s j) \<and> dirty (bget s' j) = dirty (bget s j)) \<and>
    (\<forall>j < length (fsbuf s). b_dev (bget s' j) = b_dev (bget s j) \<and> b_num (bget s' j) = b_num (bget s j) \<and>
       b_data (bget s' j) = b_data (bget s j))"
proof -
  have "i \<in> set xs" using cache_invD(2) [OF inv] i by simp
  then obtain us vs where xs: "xs = us @ i # vs" by (auto simp: in_set_conv_decomp)
  have "distinct xs" using cache_invD(1) [OF inv] by (simp add: ring_def)
  then have rem: "remove1 i xs = us @ vs" by (simp add: xs remove1_append)
  let ?f = "\<lambda>b. b\<lparr>b_flags := b_flags b AND NOT BUF_BUSY\<rparr>"
  obtain s' where s': "brelse i s = Inr s'" "ring s' (i # us @ vs)" "woken s' = woken s @ [i]"
      "same_bufs (bupd i ?f s) (s'\<lparr>woken := woken s\<rparr>)"
    using brelse_spec [OF _ i(2), of us vs] cache_invD(1) [OF inv] xs by blast
  have ok: "buf_ok d s (?f (bget s i))"
    using cache_invD(6) [OF inv i(1)] i(3) by (simp add: buf_ok_def flags_set)
  have "b_dev (?f (bget s i)) = 0xFFFF" if "j < length (fsbuf s)" "j \<noteq> i"
    "b_dev (bget s j) = b_dev (?f (bget s i))" "b_num (bget s j) = b_num (?f (bget s i))" for j
    using uniqD [OF cache_invD(5) [OF inv] i(1) that(1)] that(2-4) by auto
  then have c0: "cache_inv d (bupd i ?f s) xs" using ok by (intro cache_inv_bupd [OF inv]) simp_all
  have r0: "ring (s'\<lparr>woken := woken s\<rparr>) (i # us @ vs)" using s'(2) by (subst ring_cong [where s = s']) simp_all
  have "cache_inv d (s'\<lparr>woken := woken s\<rparr>) (i # us @ vs)"
    by (rule cache_inv_same [OF c0 s'(4) r0]) (auto simp: xs)
  then have "cache_inv d s' (i # us @ vs)" by (simp only: cache_inv_woken)
  moreover have "b_dev (bget s' j) = b_dev (bget (bupd i ?f s) j) \<and> b_num (bget s' j) = b_num (bget (bupd i ?f s) j) \<and>
      b_data (bget s' j) = b_data (bget (bupd i ?f s) j) \<and> b_flags (bget s' j) = b_flags (bget (bupd i ?f s) j)"
    if "j < length (fsbuf s)" for j
    using same_bufsD [OF s'(4), of j] that by (simp del: bget_bupd)
  moreover have "\<not> busy (?f (bget s i))" "\<not> dirty (?f (bget s i))" using i(3) by (simp_all add: flags_set)
  moreover have "ram s' = ram s" "hdstart s' = hdstart s" "disksize s' = disksize s"
    "length (fsbuf s') = length (fsbuf s)"
    using s'(4) same_bufs_length [OF s'(4)] by (simp_all add: same_bufs_def)
  ultimately show ?thesis
    using s'(1,3) i(1) unfolding rem by (intro exI [of _ s']) (simp add: busy_def dirty_def)
qed

section \<open>Starting the cache\<close>

lemma init_ring:
  assumes "k \<le> length (fsbuf s)"
  defines "step \<equiv> \<lambda>i s. push_front i (bupd i (\<lambda>b. b\<lparr>b_dev := - 1\<rparr>) s)"
  shows "\<exists>s'. s' = fold step [0..<k] (setprev Head Head (setnext Head Head s)) \<and> ring s' (rev [0..<k]) \<and>
    length (fsbuf s') = length (fsbuf s) \<and> ram s' = ram s \<and> hdstart s' = hdstart s \<and> disksize s' = disksize s \<and>
    (\<forall>j < length (fsbuf s). b_flags (bget s' j) = b_flags (bget s j) \<and> b_data (bget s' j) = b_data (bget s j) \<and>
       (j < k \<longrightarrow> b_dev (bget s' j) = - 1))"
  using assms(1)
proof (induction k)
  case 0
  show ?case by (simp add: ring_def setprev_def setnext_def getnext_def getprev_def)
next
  case (Suc k)
  let ?i = "setprev Head Head (setnext Head Head s)"
  obtain s1 where s1: "s1 = fold step [0..<k] ?i" "ring s1 (rev [0..<k])" "length (fsbuf s1) = length (fsbuf s)"
    "ram s1 = ram s" "hdstart s1 = hdstart s" "disksize s1 = disksize s"
    "\<forall>j < length (fsbuf s). b_flags (bget s1 j) = b_flags (bget s j) \<and> b_data (bget s1 j) = b_data (bget s j) \<and>
       (j < k \<longrightarrow> b_dev (bget s1 j) = - 1)"
    using Suc by auto
  define s2 where "s2 = bupd k (\<lambda>b. b\<lparr>b_dev := - 1\<rparr>) s1"
  have k: "k < length (fsbuf s2)" "k \<notin> set (rev [0..<k])" using Suc.prems s1(3) by (simp_all add: s2_def)
  have r2: "ring s2 (rev [0..<k])" using s1(2) by (simp add: s2_def ring_bupd)
  note pf = ring_push_front [OF r2 k(2,1)]
  have "fold step [0..<Suc k] ?i = push_front k s2" by (simp add: step_def s2_def s1(1))
  moreover have "b_flags (bget (push_front k s2) j) = b_flags (bget s j) \<and> b_data (bget (push_front k s2) j) = b_data (bget s j) \<and>
       (j < Suc k \<longrightarrow> b_dev (bget (push_front k s2) j) = - 1)" if "j < length (fsbuf s)" for j
  proof -
    have j2: "j < length (fsbuf s2)" using that s1(3) by (simp add: s2_def)
    show ?thesis using same_bufsD [OF pf(2) j2] s1(3,7) that by (auto simp: s2_def less_Suc_eq)
  qed
  moreover have "length (fsbuf (push_front k s2)) = length (fsbuf s)" "ram (push_front k s2) = ram s"
    "hdstart (push_front k s2) = hdstart s" "disksize (push_front k s2) = disksize s"
    using same_bufs_length [OF pf(2)] pf(2) s1 by (simp_all add: s2_def same_bufs_def)
  ultimately show ?case using pf(1) by auto
qed

definition quiet :: "bio \<Rightarrow> bool" where
  "quiet s \<longleftrightarrow> fsbuf s \<noteq> [] \<and> (\<forall>i < length (fsbuf s). \<not> busy (bget s i))"

lemma init_cache:
  assumes len: "length (fsbuf s) = NBUF" and disk: "disk_ok s" "MAJOR d = MEM_MAJOR"
    and bss: "\<forall>i < NBUF. b_flags (bget s i) = 0 \<and> length (b_data (bget s i)) = BUF_SIZE"
  shows "cache_inv d (init_buffer s) (rev [0..<NBUF])" and "quiet (init_buffer s)" and "ram (init_buffer s) = ram s"
    and "hdstart (init_buffer s) = hdstart s" and "disksize (init_buffer s) = disksize s"
    and "\<forall>j < NBUF. b_dev (bget (init_buffer s) j) = - 1 \<and> b_flags (bget (init_buffer s) j) = 0"
proof -
  let ?s = "init_buffer s"
  have "NBUF \<le> length (fsbuf s)" using len by simp
  note ir = init_ring [OF this, folded init_buffer_def]
  have i: "ring ?s (rev [0..<NBUF])" "length (fsbuf ?s) = length (fsbuf s)" "ram ?s = ram s" "hdstart ?s = hdstart s"
    "disksize ?s = disksize s"
    "\<forall>j < length (fsbuf s). b_flags (bget ?s j) = b_flags (bget s j) \<and> b_data (bget ?s j) = b_data (bget s j) \<and>
       (j < NBUF \<longrightarrow> b_dev (bget ?s j) = - 1)"
    using ir by blast+
  have "buf_ok d ?s (bget ?s j)" "\<not> busy (bget ?s j)" if "j < NBUF" for j
    using i(6) len bss that by (simp_all add: buf_ok_def valid_def dirty_def busy_def MAJOR_def mask_eq_exp_minus_1)
  moreover have "uniq (fsbuf ?s)" using i(2,6) len by (simp add: uniq_def bget_def)
  ultimately show "cache_inv d ?s (rev [0..<NBUF])" "quiet ?s"
    using i len disk by (auto simp: cache_inv_def disk_ok_def quiet_def in_set_conv_nth bget_def)
  show "ram ?s = ram s" "hdstart ?s = hdstart s" "disksize ?s = disksize s" by (rule i)+
  show "\<forall>j < NBUF. b_dev (bget ?s j) = - 1 \<and> b_flags (bget ?s j) = 0" using i(6) len bss by simp
qed

section \<open>Reading a run of blocks\<close>

lemma poke_append:
  assumes "length xs + length ys \<le> 4294967296"
  shows "poke (poke m a xs) (a + of_nat (length xs)) ys = poke m a (xs @ ys)"
proof
  fix x
  define k where "k = unat (x - a)"
  have eq: "x - (a + of_nat (length xs)) = of_nat k - of_nat (length xs)" by (simp add: k_def)
  have "k < 4294967296" by (simp add: k_def u32_less)
  then have "unat (of_nat k - of_nat (length xs) :: u32) = (if length xs \<le> k then k - length xs else 4294967296 + k - length xs)"
    if "length xs < 4294967296"
    using that by (auto simp: unat_sub_if')
  then have "unat (x - (a + of_nat (length xs))) = (if length xs \<le> k then k - length xs else 4294967296 + k - length xs)"
    if "length xs < 4294967296"
    using that unfolding eq .
  then show "poke (poke m a xs) (a + of_nat (length xs)) ys x = poke m a (xs @ ys) x"
    using assms \<open>k < 4294967296\<close> unfolding poke_def k_def [symmetric]
    by (cases "length xs < 4294967296") (auto simp: nth_append k_def)
qed

lemma quiet_available:
  assumes "quiet s" and "cache_inv d s xs"
  shows "available dev n s"
proof -
  have "idle s i" if "i < length (fsbuf s)" for i
    using assms(1) cache_invD(6) [OF assms(2) that] that by (auto simp: idle_def quiet_def buf_ok_def)
  then show ?thesis using assms(1) by (auto simp: available_def quiet_def)
qed

text \<open>Reading a block and releasing it at once, on a cache no task holds a buffer of.\<close>

lemma bread_brelse:
  assumes inv: "cache_inv d s xs" and q: "quiet s" and n: "n < disksize s"
  shows "\<exists>i s1 s2 ys. bread st (ucast d) n s = Inr (Got i, s1) \<and> b_data (bget s1 i) = sector s n \<and>
    brelse i s1 = Inr s2 \<and> cache_inv d s2 ys \<and> quiet s2 \<and> sector s2 = sector s \<and> disksize s2 = disksize s"
proof -
  obtain i s1 where b: "bread st (ucast d) n s = Inr (Got i, s1)" "i < length (fsbuf s)"
      "cache_inv d s1 xs" "touched i s s1" "ram s1 = ram s" "busy (bget s1 i)" "\<not> dirty (bget s1 i)"
      "b_data (bget s1 i) = sector s n"
    using bread_spec [OF inv quiet_available [OF q inv] n] by blast
  have t: "length (fsbuf s1) = length (fsbuf s)" "hdstart s1 = hdstart s" "disksize s1 = disksize s"
    "\<forall>j < length (fsbuf s). j \<noteq> i \<longrightarrow> bget s1 j = bget s j" using b(4) by (simp_all add: touched_def)
  obtain s2 where r: "brelse i s1 = Inr s2" "cache_inv d s2 (i # remove1 i xs)" "ram s2 = ram s1"
      "hdstart s2 = hdstart s1" "disksize s2 = disksize s1" "length (fsbuf s2) = length (fsbuf s1)"
      "\<not> busy (bget s2 i)" "\<forall>j < length (fsbuf s1). j \<noteq> i \<longrightarrow> busy (bget s2 j) = busy (bget s1 j)"
    using brelse_cache [OF b(3) _ b(6,7)] b(2) t(1) by auto
  have "quiet s2" using q r(6-8) t(1,4) by (auto simp: quiet_def)
  moreover have "sector s2 = sector s" using r t b(5) by (intro ext) (simp add: sector_def)
  ultimately show ?thesis using b(1,8) r(1,2,5) t(3) by auto
qed

definition sectors :: "bio \<Rightarrow> u32 \<Rightarrow> nat \<Rightarrow> u8 list" where
  "sectors s blk n = concat (map (\<lambda>k. sector s (blk + of_nat k)) [0..<n])"

lemma sectors_Suc: "sectors s blk (Suc n) = sector s blk @ sectors s (blk + 1) n"
proof -
  have "[0..<Suc n] = 0 # map Suc [0..<n]" by (simp add: map_Suc_upt upt_conv_Cons del: upt_Suc)
  then show ?thesis by (simp add: sectors_def o_def add.assoc del: upt_Suc)
qed

lemma length_sector [simp]: "length (sector s n) = 512"
  by (simp add: sector_def)

lemma length_sectors [simp]: "length (sectors s blk n) = 512 * n"
  by (induction n arbitrary: blk) (simp_all add: sectors_Suc, simp add: sectors_def)

lemma bread_nblocks_loop_spec:
  assumes "cache_inv d s xs" and "quiet s" and "unat blk + n \<le> unat (disksize s)" and "512 * n \<le> 4294967296"
  shows "\<exists>s' ys. bread_nblocks_loop st (ucast d) n dst blk m s = Inr (None, poke m dst (sectors s blk n), s') \<and>
    cache_inv d s' ys \<and> quiet s' \<and> sector s' = sector s \<and> disksize s' = disksize s"
  using assms
proof (induction n arbitrary: dst blk m s xs)
  case 0
  then show ?case by (auto simp: sectors_def poke_def)
next
  case (Suc n)
  have n: "blk < disksize s" using Suc.prems(3) by (simp add: word_less_nat_alt)
  obtain i s1 s2 ys where b: "bread st (ucast d) blk s = Inr (Got i, s1)" "b_data (bget s1 i) = sector s blk"
    "brelse i s1 = Inr s2" "cache_inv d s2 ys" "quiet s2" "sector s2 = sector s" "disksize s2 = disksize s"
    using bread_brelse [OF Suc.prems(1,2) n] by blast
  have up: "unat (blk + 1) = unat blk + 1"
    using Suc.prems(3) u32_less [of "disksize s"] by (simp add: unat_word_ariths)
  let ?m = "poke m dst (sector s blk)"
  have sec: "sectors s2 b n = sectors s b n" for b by (simp add: sectors_def b(6))
  obtain s' zs where "bread_nblocks_loop st (ucast d) n (dst + 512) (blk + 1) ?m s2 =
      Inr (None, poke ?m (dst + 512) (sectors s (blk + 1) n), s')"
    "cache_inv d s' zs" "quiet s'" "sector s' = sector s" "disksize s' = disksize s"
    using Suc.IH [OF b(4,5), of "blk + 1" "dst + 512" ?m] Suc.prems(3,4) up b(6,7) by (auto simp: sec)
  moreover have "poke ?m (dst + 512) (sectors s (blk + 1) n) = poke m dst (sectors s blk (Suc n))"
    using poke_append [of "sector s blk" "sectors s (blk + 1) n" m dst] Suc.prems(4) by (simp add: sectors_Suc)
  ultimately show ?case using b by auto
qed

section \<open>Properties\<close>

text \<open>The state at start-up, with a RAM disk of four sectors at address 0x1000.\<close>

definition boot_bio :: bio where
  "boot_bio =
     \<lparr>fsbuf = replicate NBUF \<lparr>b_dev = 0, b_flags = 0, b_num = 0, b_prev = Head, b_next = Head, b_hdnext = None,
                b_data = replicate 512 0\<rparr>,
      head_prev = Head, head_next = Head, ram = (\<lambda>x. ucast x), hdstart = 0x1000, disksize = 4,
      hdqueue = None, ports = [], woken = []\<rparr>"

lemma boot_cache: "cache_inv 0x100 (init_buffer boot_bio) (rev [0..<NBUF])" "quiet (init_buffer boot_bio)"
    "disksize (init_buffer boot_bio) = 4" "sector (init_buffer boot_bio) = sector boot_bio"
    "\<forall>j < NBUF. b_dev (bget (init_buffer boot_bio) j) = - 1 \<and> b_flags (bget (init_buffer boot_bio) j) = 0"
proof -
  have "length (fsbuf boot_bio) = NBUF" "disk_ok boot_bio" "MAJOR 0x100 = MEM_MAJOR"
    "\<forall>i < NBUF. b_flags (bget boot_bio i) = 0 \<and> length (b_data (bget boot_bio i)) = BUF_SIZE"
    by (simp_all add: boot_bio_def disk_ok_def MAJOR_def bget_def)
  note i = init_cache [OF this]
  show "cache_inv 0x100 (init_buffer boot_bio) (rev [0..<NBUF])" "quiet (init_buffer boot_bio)" by (rule i)+
  show "\<forall>j < NBUF. b_dev (bget (init_buffer boot_bio) j) = - 1 \<and> b_flags (bget (init_buffer boot_bio) j) = 0"
    by (rule i)
  show "disksize (init_buffer boot_bio) = 4" using i(5) by (simp add: boot_bio_def)
  show "sector (init_buffer boot_bio) = sector boot_bio" using i(3,4) by (intro ext) (simp add: sector_def)
qed

text \<open>
  C22. After \<^verbatim>\<open>init_buffer\<close> all sixteen buffers are on the ring, the last one first, none is busy, none
  claims to hold a block, and the cache invariant holds for a RAM disk of any size.
\<close>

theorem init_buffer_ready:
  assumes "length (fsbuf s) = NBUF" and "disk_ok s" and "MAJOR d = MEM_MAJOR"
    and "\<forall>i < NBUF. b_flags (bget s i) = 0 \<and> length (b_data (bget s i)) = BUF_SIZE"
  shows "ring (init_buffer s) (rev [0..<NBUF]) \<and> cache_inv d (init_buffer s) (rev [0..<NBUF]) \<and>
    quiet (init_buffer s)"
  using init_cache [OF assms] cache_invD(1) by blast

theorem init_buffer_ready_witness: "ring (init_buffer boot_bio) (rev [0..<NBUF]) \<and> quiet (init_buffer boot_bio)"
proof -
  have "length (fsbuf boot_bio) = NBUF" "disk_ok boot_bio" "MAJOR 0x100 = MEM_MAJOR"
    "\<forall>i < NBUF. b_flags (bget boot_bio i) = 0 \<and> length (b_data (bget boot_bio i)) = BUF_SIZE"
    by (simp_all add: boot_bio_def disk_ok_def MAJOR_def bget_def)
  from init_buffer_ready [OF this] show ?thesis by blast
qed





text \<open>
  C24. Replacement: a block that is not cached gets the buffer that was released longest ago among those
  that are neither busy nor dirty, and \<^verbatim>\<open>brelse\<close> makes a buffer the most recently used one; with every
  buffer busy or dirty \<^verbatim>\<open>getblk\<close> panics, and for a cached block that another task holds it waits.
\<close>

theorem getblk_replaces_lru:
  assumes "cache_inv d s xs"
  shows "getblk dev n s =
    (case find (holds dev n s) xs of
       Some i \<Rightarrow> if busy (bget s i) then Inr (Wait i, s)
                 else Inr (Got i, bupd i (\<lambda>b. b\<lparr>b_flags := b_flags b OR BUF_BUSY\<rparr>) s)
     | None \<Rightarrow>
         (case find (idle s) (rev xs) of
            Some i \<Rightarrow> Inr (Got i, bupd i (\<lambda>b. b\<lparr>b_flags := BUF_BUSY, b_dev := ucast dev, b_num := n\<rparr>) s)
          | None \<Rightarrow> Inl (Panic ''getblk: no buffers available'')))
    \<and> (\<forall>i < length (fsbuf s). busy (bget s i) \<and> \<not> dirty (bget s i) \<longrightarrow>
         (\<exists>s'. brelse i s = Inr s' \<and> cache_inv d s' (i # remove1 i xs)))"
proof -
  have "\<exists>s'. brelse i s = Inr s' \<and> cache_inv d s' (i # remove1 i xs)"
    if "i < length (fsbuf s)" "busy (bget s i)" "\<not> dirty (bget s i)" for i
    using brelse_cache [OF assms that] by blast
  moreover note ring_search [OF cache_invD(1) [OF assms]]
  ultimately show ?thesis by (auto simp: getblk_def busy_def split: option.split)
qed

theorem getblk_replaces_lru_witness:
  "\<exists>s'. getblk 0x100 3 (init_buffer boot_bio) = Inr (Got 0, s')"
proof -
  have "\<not> holds 0x100 3 (init_buffer boot_bio) i" if "i \<in> set (rev [0..<NBUF])" for i
  proof -
    have "(ucast (- 1 :: u16) :: u32) \<noteq> 0x100" by (simp add: unsigned_minus_1_eq_mask mask_eq_exp_minus_1)
    with that boot_cache(5) show ?thesis by (simp add: holds_def)
  qed
  then have none: "find (holds 0x100 3 (init_buffer boot_bio)) (rev [0..<NBUF]) = None"
    by (simp add: find_None_iff)
  have "idle (init_buffer boot_bio) 0" using boot_cache(5) by (simp add: idle_def busy_def dirty_def)
  moreover have "rev (rev [0..<NBUF]) = 0 # [1..<NBUF]" by (simp add: upt_conv_Cons)
  ultimately have "find (idle (init_buffer boot_bio)) (rev (rev [0..<NBUF])) = Some 0" by simp
  with none show ?thesis using getblk_replaces_lru [OF boot_cache(1), of "0x100" 3] by simp
qed

text \<open>
  C25. \<^verbatim>\<open>bread_nblocks\<close> copies exactly the \<open>n\<close> consecutive sectors from \<open>blk\<close> to the destination, in
  order and contiguously, writes nothing else, does not change the disk, and leaves every buffer free;
  \<^verbatim>\<open>bread_block\<close> is the case of two sectors.
\<close>

theorem bread_nblocks_reads:
  assumes "cache_inv d s xs" and "quiet s" and "unat blk + n \<le> unat (disksize s)" and "512 * n \<le> 4294967296"
  shows "\<exists>s' ys. bread_nblocks st (ucast d) dst blk (int n) m s =
      Inr (None, poke m dst (concat (map (\<lambda>k. sector s (blk + of_nat k)) [0..<n])), s') \<and>
    cache_inv d s' ys \<and> quiet s' \<and> (\<forall>k. sector s' k = sector s k)"
  using bread_nblocks_loop_spec [OF assms, of st dst m] by (auto simp: bread_nblocks_def sectors_def)

theorem bread_nblocks_reads_witness:
  "\<exists>s'. bread_nblocks (\<lambda>_. 0) 0x100 0x9000 1 2 (\<lambda>_. 0) (init_buffer boot_bio) =
    Inr (None, poke (\<lambda>_. 0) 0x9000 (sector boot_bio 1 @ sector boot_bio 2), s')"
proof -
  have "(ucast (0x100 :: u16) :: u32) = 0x100" by simp
  moreover have "[0..<2] = [0, 1 :: nat]" by (simp add: upt_rec)
  ultimately show ?thesis
    using bread_nblocks_reads [OF boot_cache(1,2), of 1 2 "\<lambda>_. 0" "0x9000" "\<lambda>_. 0"] boot_cache(3,4) by auto
qed

end
