(* ===== verification/Fs_Block.thy ===== *)
theory Fs_Block
  imports Fs_Buffer
begin

text \<open>
  What the file systems use of the buffer cache: a block of a device as a list of 512 bytes, and
  little-endian fields in such lists. \<open>block_dev\<close> is the contract of a device that can be read block by
  block; it holds for the buffer cache over the RAM disk.
\<close>

section \<open>Reading a block\<close>

text \<open>
  \<^verbatim>\<open>bp = bread(dev, sec); memmove(buf, bp->data, 512); brelse(bp)\<close>, the body of the \<^verbatim>\<open>read_block\<close> of each
  file system. A \<^verbatim>\<open>bread\<close> that finds the buffer busy puts the task to sleep and has changed nothing.
\<close>

definition dev_read :: "(nat \<Rightarrow> u8) \<Rightarrow> u32 \<Rightarrow> u32 \<Rightarrow> bio \<Rightarrow> (u8 list \<times> bio) res" where
  "dev_read st dev sec s =
     bnd (bread st dev sec s) (\<lambda>(g, s1).
       case g of
         Got i \<Rightarrow> bnd (brelse i s1) (\<lambda>s2. Inr (b_data (bget s1 i), s2))
       | _ \<Rightarrow> Inl (Asleep ''bread''))"

section \<open>The contract of a block device\<close>

locale block_dev =
  fixes rd :: "u32 \<Rightarrow> 's \<Rightarrow> (u8 list \<times> 's) res"
    and ok :: "'s \<Rightarrow> bool"
    and blk :: "'s \<Rightarrow> u32 \<Rightarrow> u8 list"
    and nblks :: "'s \<Rightarrow> u32"
  assumes rd_ok: "ok s \<Longrightarrow> n < nblks s \<Longrightarrow>
      \<exists>s'. rd n s = Inr (blk s n, s') \<and> ok s' \<and> blk s' = blk s \<and> nblks s' = nblks s"
    and blk_length: "ok s \<Longrightarrow> n < nblks s \<Longrightarrow> length (blk s n) = 512"
begin

text \<open>The bytes of \<open>n\<close> blocks from \<open>b\<close> on, and the reading of them in a row.\<close>

definition run :: "'s \<Rightarrow> u32 \<Rightarrow> nat \<Rightarrow> u8 list" where
  "run s b n = concat (map (\<lambda>k. blk s (b + of_nat k)) [0..<n])"

lemma run_Suc: "run s b (Suc n) = blk s b @ run s (b + 1) n"
proof -
  have "[0..<Suc n] = 0 # map Suc [0..<n]" by (simp add: map_Suc_upt upt_conv_Cons del: upt_Suc)
  then show ?thesis by (simp add: run_def o_def add.assoc del: upt_Suc)
qed

lemma run_0 [simp]: "run s b 0 = []"
  by (simp add: run_def)

lemma run_add: "run s b (j + k) = run s b j @ run s (b + of_nat j) k"
  by (induction j arbitrary: b) (simp_all add: run_Suc algebra_simps)

lemma run_cong: "blk s' = blk s \<Longrightarrow> run s' = run s"
  by (intro ext) (simp add: run_def)

lemma rdE:
  assumes "ok s" and "n < nblks s"
  obtains s' where "rd n s = Inr (blk s n, s')" and "ok s'" and "blk s' = blk s" and "nblks s' = nblks s"
  using rd_ok [OF assms] by blast

lemma run_length: "ok s \<Longrightarrow> unat b + n \<le> unat (nblks s) \<Longrightarrow> length (run s b n) = 512 * n"
proof (induction n arbitrary: b)
  case (Suc n)
  have "b < nblks s" using Suc.prems(2) by (simp add: word_less_nat_alt)
  moreover have "unat (b + 1) = unat b + 1"
    using Suc.prems(2) u32_less [of "nblks s"] by (simp add: unat_word_ariths)
  ultimately show ?case using Suc by (simp add: run_Suc blk_length)
qed simp

end

text \<open>The buffer cache over the RAM disk is such a device, while no task holds a buffer.\<close>

definition ram_ok :: "u16 \<Rightarrow> bio \<Rightarrow> bool" where
  "ram_ok d s \<longleftrightarrow> (\<exists>xs. cache_inv d s xs) \<and> quiet s"

interpretation ramdev: block_dev "dev_read st (ucast d)" "ram_ok d" sector disksize for st d
proof
  fix s n
  assume "ram_ok d s" and n: "n < disksize s"
  then obtain xs where "cache_inv d s xs" "quiet s" by (auto simp: ram_ok_def)
  from bread_brelse [OF this n, of st] show "\<exists>s'. dev_read st (ucast d) n s = Inr (sector s n, s') \<and> ram_ok d s' \<and>
      sector s' = sector s \<and> disksize s' = disksize s"
    by (auto simp: dev_read_def ram_ok_def)
qed simp

section \<open>Fields\<close>

text \<open>Little-endian numbers in lists of bytes.\<close>

definition le_nat :: "u8 list \<Rightarrow> nat" where
  "le_nat bs = foldr (\<lambda>b a. unat b + 256 * a) bs 0"

primrec to_le :: "nat \<Rightarrow> nat \<Rightarrow> u8 list" where
  "to_le 0 v = []"
| "to_le (Suc k) v = of_nat v # to_le k (v div 256)"

definition field :: "nat \<Rightarrow> nat \<Rightarrow> u8 list \<Rightarrow> nat" where
  "field off k bs = le_nat (take k (drop off bs))"

definition bytes :: "nat \<Rightarrow> nat \<Rightarrow> u8 list \<Rightarrow> u8 list" where
  "bytes off k bs = take k (drop off bs)"

lemma length_to_le [simp]: "length (to_le k v) = k"
  by (induction k arbitrary: v) simp_all

lemma le_nat_to_le: "le_nat (to_le k v) = v mod 256 ^ k"
proof (induction k arbitrary: v)
  case (Suc k)
  have "unat (of_nat v :: u8) = v mod 256" by (simp add: unat_of_nat)
  then show ?case using Suc mod_mult2_eq [of v 256 "256 ^ k"] by (simp add: le_nat_def)
qed (simp add: le_nat_def)

end
