(* ===== verification/Fs_Sfs.thy ===== *)
theory Fs_Sfs
  imports Fs_Block
begin

text \<open>
  The simple file system \<^verbatim>\<open>fs/sfs/sfs.c\<close> with \<^verbatim>\<open>inc/fs_sfs.h\<close>, the calls of \<^verbatim>\<open>fs/sysfile.c\<close> and
  \<^verbatim>\<open>fs/file.c\<close>, and the dispatch of \<^verbatim>\<open>fs/fs.c\<close>. Blocks, index entries and names are lists of bytes;
  a file descriptor and an inode are indices into their tables. \<open>ofile\<close> is \<^verbatim>\<open>current->ofile\<close>. \<^verbatim>\<open>kmalloc\<close>
  does not return \<^verbatim>\<open>NULL\<close>, so its error branches do not occur.
\<close>

section \<open>Data\<close>

abbreviation DIR_SPACE :: nat where "DIR_SPACE \<equiv> 54"
abbreviation FILE_SPACE :: nat where "FILE_SPACE \<equiv> 30"
abbreviation IE_SIZE :: nat where "IE_SIZE \<equiv> 64"
abbreviation IPB :: u32 where "IPB \<equiv> 8"
abbreviation SECT_SIZE :: nat where "SECT_SIZE \<equiv> 512"
abbreviation IAT_DIR_ENT :: u8 where "IAT_DIR_ENT \<equiv> 0x11"
abbreviation IAT_FILE_ENT :: u8 where "IAT_FILE_ENT \<equiv> 0x12"
abbreviation SFS_INODE_INUSE :: u8 where "SFS_INODE_INUSE \<equiv> 1"
abbreviation SFS_TYPE_FILE :: u32 where "SFS_TYPE_FILE \<equiv> 1"
abbreviation SFS_TYPE_DIR :: u32 where "SFS_TYPE_DIR \<equiv> 2"
abbreviation O_CREAT :: u32 where "O_CREAT \<equiv> 1"
abbreviation NIBUF :: nat where "NIBUF \<equiv> 32"
abbreviation FDT_SIZE :: nat where "FDT_SIZE \<equiv> 64"
abbreviation SFS_NOFILE :: nat where "SFS_NOFILE \<equiv> 16"

definition SFS_DEV :: u32 where
  "SFS_DEV = MKDEV (ucast MEM_MAJOR) 0"

text \<open>The fields of \<^verbatim>\<open>struct sfs_dir\<close>, \<^verbatim>\<open>struct sfs_file\<close> and \<^verbatim>\<open>struct sfs_superblock\<close> at their offsets.\<close>

definition ie_type :: "u8 list \<Rightarrow> u8" where "ie_type e = e ! 0"
definition ie_ne :: "u8 list \<Rightarrow> u8" where "ie_ne e = e ! 1"
definition dir_name :: "u8 list \<Rightarrow> u8 list" where "dir_name e = drop 10 e"
definition file_blk_start :: "u8 list \<Rightarrow> u64" where "file_blk_start e = of_nat (field 10 8 e)"
definition file_len :: "u8 list \<Rightarrow> u64" where "file_len e = of_nat (field 26 8 e)"
definition file_name :: "u8 list \<Rightarrow> u8 list" where "file_name e = drop 34 e"

definition sb_da_blk :: "u8 list \<Rightarrow> u64" where "sb_da_blk b = of_nat (field 0x19c 8 b)"
definition sb_ia_size :: "u8 list \<Rightarrow> u64" where "sb_ia_size b = of_nat (field 0x1a4 8 b)"
definition sb_magic :: "u8 list \<Rightarrow> u8 list" where "sb_magic b = bytes 0x1ac 3 b"
definition sb_version :: "u8 list \<Rightarrow> u8" where "sb_version b = b ! 0x1af"
definition sb_total_blk :: "u8 list \<Rightarrow> u64" where "sb_total_blk b = of_nat (field 0x1b0 8 b)"
definition sb_resv_blk :: "u8 list \<Rightarrow> u32" where "sb_resv_blk b = of_nat (field 0x1b8 4 b)"
definition sb_blk_size :: "u8 list \<Rightarrow> u8" where "sb_blk_size b = b ! 0x1bc"

record sfs_inode =
  i_flags :: u8
  i_name :: "u8 list option"
  i_sindex :: "u8 list"

record sfs_file_desc =
  f_type :: u32
  f_mode :: u32
  f_flags :: u32
  f_count :: u32
  f_pos :: u32
  f_inode :: nat

record sfs_stat =
  st_dev :: u16
  st_mode :: u32
  st_size :: u32

text \<open>
  The globals of \<^verbatim>\<open>sfs.c\<close>. \<open>junk\<close> is what follows an index entry on the kernel stack: the comparison
  with a long name runs over its end.
\<close>

record sfs =
  sbio :: bio
  s_nblk :: u32
  reserved_blk :: u32
  da_blocks :: u32
  ia_num :: u32
  block_size :: u32
  ibuf :: "sfs_inode list"
  fdtable :: "sfs_file_desc list"
  ofile :: "nat option list"
  junk :: "u8 list"

section \<open>Blocks and index entries\<close>

definition on_bio :: "(bio \<Rightarrow> ('a \<times> bio) res) \<Rightarrow> sfs \<Rightarrow> ('a \<times> sfs) res" where
  "on_bio f s = bnd (f (sbio s)) (\<lambda>(x, b). Inr (x, s\<lparr>sbio := b\<rparr>))"

text \<open>The RAM disk asks no status of a controller, so the answer of the ports is a constant here.\<close>

definition read_block :: "u32 \<Rightarrow> sfs \<Rightarrow> (u8 list \<times> sfs) res" where
  "read_block sec s = on_bio (dev_read (\<lambda>_. 0) SFS_DEV sec) s"

definition read_data_block :: "u32 \<Rightarrow> sfs \<Rightarrow> (u8 list \<times> sfs) res" where
  "read_data_block n s = read_block (n + reserved_blk s) s"

definition read_index :: "u32 \<Rightarrow> sfs \<Rightarrow> (u8 list \<times> sfs) res" where
  "read_index sec s =
     bnd (read_block (s_nblk s - sec div IPB - 1) s) (\<lambda>(b, s1).
       Inr (bytes (SECT_SIZE - (unat (sec mod IPB) + 1) * IE_SIZE) IE_SIZE b, s1))"

section \<open>Lookup\<close>

text \<open>\<^verbatim>\<open>strncmp(file, name, len) == 0\<close> with \<open>len\<close> the length of \<open>file\<close>: the bytes are equal.\<close>

definition name_eq :: "u8 list \<Rightarrow> u8 list \<Rightarrow> bool" where
  "name_eq file name \<longleftrightarrow> take (length file) name = file"

text \<open>The continuation entries of a long name are read, one after the other, to be printed.\<close>

primrec read_conts :: "int \<Rightarrow> nat \<Rightarrow> sfs \<Rightarrow> (unit \<times> sfs) res" where
  "read_conts nindex 0 s = Inr ((), s)"
| "read_conts nindex (Suc ne) s =
     bnd (read_index (word_of_int (nindex + int (Suc ne))) s) (\<lambda>(_, s1). read_conts nindex ne s1)"

lemma uint_ge_minus1: "- 1 < uint (x :: u8)"
  using uint_nonnegative [of x] by linarith

text \<open>
  \<^verbatim>\<open>sfs_find_index\<close>: the loop from the last index entry down; the result is the entry found. Both
  branches of an entry compare the same name.
\<close>

function find_loop :: "u8 list \<Rightarrow> int \<Rightarrow> sfs \<Rightarrow> (u8 list option \<times> sfs) res" where
  "find_loop file nindex s =
     (if nindex \<le> 0 then Inr (None, s)
      else bnd (read_index (word_of_int nindex) s) (\<lambda>(e, s1).
        if ie_type e = IAT_DIR_ENT \<or> ie_type e = IAT_FILE_ENT
        then let ne = unat (ie_ne e); nindex1 = nindex - int ne - 1;
                 space = (if ie_type e = IAT_DIR_ENT then DIR_SPACE else FILE_SPACE);
                 name = (if ie_type e = IAT_DIR_ENT then dir_name e else file_name e)
             in bnd (if ne = 0 \<and> length file \<le> space then Inr ((), s1) else read_conts nindex1 ne s1) (\<lambda>(_, s2).
                if name_eq file (name @ junk s) then Inr (Some e, s2) else find_loop file nindex1 s2)
        else Inr (None, s1)))"
  by pat_completeness auto
termination find_loop
  by (relation "measure (\<lambda>(file, nindex, s). nat nindex)") (auto simp: nat_less_eq_zless uint_ge_minus1)

declare find_loop.simps [simp del]

definition sfs_find_index :: "u8 list \<Rightarrow> sfs \<Rightarrow> (u8 list option \<times> sfs) res" where
  "sfs_find_index file s = find_loop file (sint (ia_num s - 1)) s"

section \<open>Inodes and descriptors\<close>

definition ibuf_alloc :: "sfs \<Rightarrow> nat option" where
  "ibuf_alloc s = find (\<lambda>i. i_flags (ibuf s ! i) = 0) [0..<NIBUF]"

definition search_index_buf :: "u8 list \<Rightarrow> sfs \<Rightarrow> nat option" where
  "search_index_buf name s =
     find (\<lambda>i. i_flags (ibuf s ! i) AND SFS_INODE_INUSE \<noteq> 0 \<and> i_name (ibuf s ! i) = Some name) [0..<NIBUF]"

definition search_index :: "u8 list \<Rightarrow> sfs \<Rightarrow> (nat option \<times> sfs) res" where
  "search_index name s =
     bnd (sfs_find_index name s) (\<lambda>(r, s1).
       case r of
         None \<Rightarrow> Inr (None, s1)
       | Some e \<Rightarrow>
           (case ibuf_alloc s1 of
              None \<Rightarrow> Inr (None, s1)
            | Some i \<Rightarrow>
                Inr (Some i, s1\<lparr>ibuf := (ibuf s1)[i := \<lparr>i_flags = SFS_INODE_INUSE, i_name = Some name, i_sindex = e\<rparr>]\<rparr>)))"

definition sfs_namei :: "u8 list \<Rightarrow> sfs \<Rightarrow> (nat option \<times> sfs) res" where
  "sfs_namei name s = search_index name s"

definition fd_alloc :: "sfs \<Rightarrow> nat option \<times> sfs" where
  "fd_alloc s =
     (case find (\<lambda>i. f_count (fdtable s ! i) = 0) [0..<FDT_SIZE] of
        None \<Rightarrow> (None, s)
      | Some i \<Rightarrow> (Some i, s\<lparr>fdtable := (fdtable s)[i := (fdtable s ! i)\<lparr>f_count := f_count (fdtable s ! i) + 1\<rparr>]\<rparr>))"

definition sfs_create :: "u8 list \<Rightarrow> u32 \<Rightarrow> sfs \<Rightarrow> nat option \<times> sfs" where
  "sfs_create path type s = (None, s)"

definition sfs_open :: "u8 list \<Rightarrow> u32 \<Rightarrow> sfs \<Rightarrow> (int \<times> sfs) res" where
  "sfs_open pathname flags s =
     bnd (sfs_namei pathname s) (\<lambda>(r, s1).
       case (case r of
               Some i \<Rightarrow> (Some i, s1)
             | None \<Rightarrow> if flags AND O_CREAT \<noteq> 0 then sfs_create pathname flags s1 else (None, s1)) of
         (None, s2) \<Rightarrow> Inr (- 1, s2)
       | (Some inp, s2) \<Rightarrow>
           (case find (\<lambda>i. ofile s2 ! i = None) [0..<SFS_NOFILE] of
              None \<Rightarrow> Inr (- 1, s2)
            | Some fd \<Rightarrow>
                (case fd_alloc s2 of
                   (None, s3) \<Rightarrow> Inr (- 1, s3)
                 | (Some f, s3) \<Rightarrow>
                     Inr (int fd,
                       s3\<lparr>fdtable := (fdtable s3)[f := (fdtable s3 ! f)\<lparr>f_type := 0, f_mode := 0, f_flags := flags,
                                        f_pos := 0, f_inode := inp\<rparr>],
                          ofile := (ofile s3)[fd := Some f]\<rparr>))))"

section \<open>Reading\<close>

text \<open>
  The loop of \<^verbatim>\<open>sfs_read\<close> and of \<^verbatim>\<open>sfs_read_file\<close>: block after block, the last one in part. The result is
  the number of bytes copied to \<open>dst\<close>.
\<close>

function read_rest :: "u32 \<Rightarrow> int \<Rightarrow> u32 \<Rightarrow> mem \<Rightarrow> sfs \<Rightarrow> (int \<times> mem \<times> sfs) res" where
  "read_rest nb n dst m s =
     (if n \<le> 0 then Inr (0, m, s)
      else bnd (read_data_block nb s) (\<lambda>(b, s1).
        let len = min (int SECT_SIZE) n
        in bnd (read_rest (nb + 1) (n - len) (dst + word_of_int len) (poke m dst (take (nat len) b)) s1)
             (\<lambda>(count, m2, s2). Inr (len + count, m2, s2))))"
  by pat_completeness auto
termination read_rest
  by (relation "measure (\<lambda>(nb, n, dst, m, s). nat n)") auto

declare read_rest.simps [simp del]

text \<open>
  \<^verbatim>\<open>min(n, fp->len - fdp->f_pos)\<close> compares as 64-bit unsigned numbers and is an \<^verbatim>\<open>int\<close> again. A negative
  descriptor reads outside \<^verbatim>\<open>ofile\<close>, a closed one dereferences \<^verbatim>\<open>NULL\<close>. \<open>m\<close> is the memory as the
  current address space shows it. A negative length is a \<^verbatim>\<open>memmove\<close> of almost the whole memory.
\<close>

definition sfs_read :: "int \<Rightarrow> u32 \<Rightarrow> u32 \<Rightarrow> mem \<Rightarrow> sfs \<Rightarrow> (int \<times> mem \<times> sfs) res" where
  "sfs_read fd dst n m s =
     (if int SFS_NOFILE \<le> fd then Inr (- 1, m, s)
      else if fd < 0 then Inl (Fault ''sfs_read: ofile'')
      else case ofile s ! nat fd of
             None \<Rightarrow> Inl (Fault ''sfs_read: file is not open'')
           | Some f \<Rightarrow>
               let fdp = fdtable s ! f; fp = i_sindex (ibuf s ! f_inode fdp); pos = f_pos fdp;
                   left = file_len fp - ucast pos;
                   n1 = sint (if (scast n :: u64) < left then n else ucast left);
                   nb = ucast (file_blk_start fp + ucast (pos div 512)) :: u32;
                   offset = unat (pos mod 512)
               in bnd (read_data_block nb s) (\<lambda>(b, s1).
                  let len = min n1 (int SECT_SIZE - int offset);
                      m1 = poke m dst (take (nat len) (drop offset b))
                  in if len < 0 then Inl (Fault ''sfs_read: memmove of a negative length'')
                     else bnd (read_rest (nb + 1) (n1 - len) (dst + word_of_int len) m1 s1) (\<lambda>(count, m2, s2).
                     Inr (len + count, m2,
                       s2\<lparr>fdtable := (fdtable s2)[f := (fdtable s2 ! f)\<lparr>f_pos := pos + word_of_int (len + count)\<rparr>]\<rparr>))))"

definition sfs_read_file :: "u8 list \<Rightarrow> u32 \<Rightarrow> u32 \<Rightarrow> mem \<Rightarrow> sfs \<Rightarrow> (int \<times> mem \<times> sfs) res" where
  "sfs_read_file file dst nb m s =
     bnd (sfs_find_index file s) (\<lambda>(r, s1).
       case r of
         None \<Rightarrow> Inr (- 1, m, s1)
       | Some e \<Rightarrow>
           if ie_type e \<noteq> IAT_FILE_ENT then Inr (- 1, m, s1)
           else let len = sint (ucast (file_len e) :: u32)
                in read_rest (ucast (file_blk_start e)) (if len < sint nb then len else sint nb) dst
                     (memset m dst 0 nb) s1)"

text \<open>\<^verbatim>\<open>sfs_cat_file\<close>: the result is what is printed, character by character.\<close>

function cat_loop :: "u32 \<Rightarrow> int \<Rightarrow> sfs \<Rightarrow> (u8 list \<times> sfs) res" where
  "cat_loop mblk len s =
     (if len \<le> 0 then Inr ([], s)
      else bnd (read_data_block mblk s) (\<lambda>(b, s1).
        bnd (cat_loop (mblk + 1) (len - int SECT_SIZE) s1) (\<lambda>(out, s2).
          Inr (take (if int SECT_SIZE < len then SECT_SIZE else nat len) b @ out, s2))))"
  by pat_completeness auto
termination cat_loop
  by (relation "measure (\<lambda>(mblk, len, s). nat len)") auto

declare cat_loop.simps [simp del]

definition sfs_cat_file :: "u8 list \<Rightarrow> sfs \<Rightarrow> (u8 list \<times> sfs) res" where
  "sfs_cat_file file s =
     bnd (sfs_find_index file s) (\<lambda>(r, s1).
       case r of
         None \<Rightarrow> Inr ([], s1)
       | Some e \<Rightarrow>
           if ie_type e \<noteq> IAT_FILE_ENT then Inr ([], s1)
           else cat_loop (ucast (file_blk_start e)) (sint (ucast (file_len e) :: u32)) s1)"

text \<open>\<^verbatim>\<open>sfs_write\<close> returns an uninitialised variable; \<^verbatim>\<open>sfs_close\<close> does nothing.\<close>

definition sfs_write :: "int \<Rightarrow> sfs \<Rightarrow> int \<times> sfs" where
  "sfs_write count s = (count, s)"

definition sfs_close :: "int \<Rightarrow> sfs \<Rightarrow> int \<times> sfs" where
  "sfs_close fd s = (0, s)"

definition sfs_stat_path :: "u8 list \<Rightarrow> sfs \<Rightarrow> (int \<times> sfs_stat \<times> sfs) res" where
  "sfs_stat_path path s =
     bnd (sfs_namei path s) (\<lambda>(r, s1).
       case r of
         None \<Rightarrow> Inr (- 1, \<lparr>st_dev = 0, st_mode = 0, st_size = 0\<rparr>, s1)
       | Some i \<Rightarrow>
           let e = i_sindex (ibuf s1 ! i)
           in Inr (0, \<lparr>st_dev = ucast SFS_DEV,
                       st_mode = (if ie_type e = IAT_DIR_ENT then SFS_TYPE_DIR
                                  else if ie_type e = IAT_FILE_ENT then SFS_TYPE_FILE else 0),
                       st_size = (if ie_type e = IAT_FILE_ENT then ucast (file_len e) else 0)\<rparr>, s1))"

section \<open>Mounting\<close>

definition calc_checksum :: "u8 list \<Rightarrow> u8" where
  "calc_checksum b = sum_list (map (\<lambda>i. b ! i) [0x1ac..<0x1be])"

definition obtain_sb_info :: "u8 list \<Rightarrow> sfs \<Rightarrow> sfs" where
  "obtain_sb_info b s =
     s\<lparr>s_nblk := ucast (sb_total_blk b), reserved_blk := sb_resv_blk b, da_blocks := ucast (sb_da_blk b),
       ia_num := ucast (sb_ia_size b div 64), block_size := ucast (sb_blk_size b)\<rparr>"

text \<open>A wrong checksum is only reported.\<close>

definition check_sfs :: "sfs \<Rightarrow> sfs res" where
  "check_sfs s =
     bnd (read_block 0 s) (\<lambda>(b, s1).
       if sb_magic b \<noteq> [83, 70, 83] \<or> sb_version b \<noteq> 0x10 then Inr s1 else Inr (obtain_sb_info b s1))"

definition init_sfs :: "sfs \<Rightarrow> (u8 list \<times> sfs) res" where
  "init_sfs s = bnd (check_sfs s) (sfs_cat_file [82, 69, 65, 68, 77, 69])"

definition sfs_node_open :: "u32 \<Rightarrow> u32 \<Rightarrow> sfs \<Rightarrow> (u8 list \<times> sfs) res" where
  "sfs_node_open node flag s = sfs_cat_file [101, 116, 99, 47, 109, 111, 116, 100] s"

section \<open>Reading through the cache\<close>

text \<open>
  An operation that only reads leaves the file system as it is, up to the order of the buffers: the
  blocks of the device and the other variables are the same.
\<close>

definition sfs_ok :: "sfs \<Rightarrow> bool" where
  "sfs_ok s \<longleftrightarrow> ram_ok (ucast SFS_DEV) (sbio s)"

definition keeps :: "sfs \<Rightarrow> sfs \<Rightarrow> bool" where
  "keeps s s' \<longleftrightarrow> (\<exists>b. s' = s\<lparr>sbio := b\<rparr>) \<and> sfs_ok s' \<and> sector (sbio s') = sector (sbio s) \<and>
     disksize (sbio s') = disksize (sbio s)"

lemma keeps_refl: "sfs_ok s \<Longrightarrow> keeps s s"
  by (auto simp: keeps_def intro: exI [of _ "sbio s"])

lemma keeps_trans: "keeps s s1 \<Longrightarrow> keeps s1 s2 \<Longrightarrow> keeps s s2"
  by (auto simp: keeps_def)

lemma keepsD:
  assumes "keeps s s'"
  shows "sfs_ok s'" "sector (sbio s') = sector (sbio s)" "disksize (sbio s') = disksize (sbio s)"
    and "s_nblk s' = s_nblk s" "reserved_blk s' = reserved_blk s" "ia_num s' = ia_num s"
    and "ibuf s' = ibuf s" "fdtable s' = fdtable s" "ofile s' = ofile s" "junk s' = junk s"
  using assms by (auto simp: keeps_def)

lemma SFS_DEV_ucast: "ucast (ucast SFS_DEV :: u16) = SFS_DEV"
  by (simp add: SFS_DEV_def MKDEV_def)

lemma read_blockE:
  assumes "sfs_ok s" and "n < disksize (sbio s)"
  obtains s' where "read_block n s = Inr (sector (sbio s) n, s')" and "keeps s s'"
proof -
  from assms obtain b where "dev_read (\<lambda>_. 0) SFS_DEV n (sbio s) = Inr (sector (sbio s) n, b)"
      "ram_ok (ucast SFS_DEV) b" "sector b = sector (sbio s)" "disksize b = disksize (sbio s)"
    using ramdev.rdE [of "ucast SFS_DEV" "sbio s" n "\<lambda>_. 0"] by (auto simp: sfs_ok_def SFS_DEV_ucast)
  then have "read_block n s = Inr (sector (sbio s) n, s\<lparr>sbio := b\<rparr>)" "keeps s (s\<lparr>sbio := b\<rparr>)"
    by (auto simp: read_block_def on_bio_def keeps_def sfs_ok_def)
  then show ?thesis by (rule that)
qed

interpretation sfsdev: block_dev read_block sfs_ok "\<lambda>s. sector (sbio s)" "\<lambda>s. disksize (sbio s)"
proof
  fix s n
  assume a: "sfs_ok s" "n < disksize (sbio s)"
  from read_blockE [OF this] obtain s' where "read_block n s = Inr (sector (sbio s) n, s')" "keeps s s'" by blast
  then show "\<exists>s'. read_block n s = Inr (sector (sbio s) n, s') \<and> sfs_ok s' \<and> sector (sbio s') = sector (sbio s) \<and>
      disksize (sbio s') = disksize (sbio s)"
    by (auto simp: keepsD)
qed simp

text \<open>The first \<open>n\<close> bytes of the data area from block \<open>nb\<close> on.\<close>

definition data_at :: "sfs \<Rightarrow> u32 \<Rightarrow> nat \<Rightarrow> u8 list" where
  "data_at s nb n = take n (sfsdev.run s (nb + reserved_blk s) ((n + 511) div 512))"

definition data_fits :: "sfs \<Rightarrow> u32 \<Rightarrow> nat \<Rightarrow> bool" where
  "data_fits s nb n \<longleftrightarrow> unat (nb + reserved_blk s) + (n + 511) div 512 \<le> unat (disksize (sbio s))"

lemma data_at_length: "sfs_ok s \<Longrightarrow> data_fits s nb n \<Longrightarrow> length (data_at s nb n) = n"
  by (simp add: data_at_def data_fits_def sfsdev.run_length)

lemma data_cong:
  assumes "sector (sbio s') = sector (sbio s)" and "disksize (sbio s') = disksize (sbio s)"
    and "reserved_blk s' = reserved_blk s"
  shows "data_at s' = data_at s" and "data_fits s' = data_fits s"
  using assms sfsdev.run_cong [of s' s] by (auto simp: data_at_def data_fits_def intro!: ext)

lemma keeps_data: "keeps s s' \<Longrightarrow> data_at s' = data_at s" "keeps s s' \<Longrightarrow> data_fits s' = data_fits s"
  by (auto intro!: data_cong simp: keepsD)

lemma data_at_step:
  assumes "data_fits s nb n" and "0 < n"
  shows "data_at s nb n = take n (sector (sbio s) (nb + reserved_blk s)) @ data_at s (nb + 1) (n - 512)"
    and "nb + reserved_blk s < disksize (sbio s)" and "data_fits s (nb + 1) (n - 512)"
proof -
  have k: "(n + 511) div 512 = Suc ((n - 512 + 511) div 512)"
    using assms(2) by (cases "n \<le> 512") (simp_all add: div_eq_0_iff div_nat_eqI le_div_geq)
  let ?b = "nb + reserved_blk s"
  show lt: "?b < disksize (sbio s)" using assms(1) k by (simp add: data_fits_def word_less_nat_alt)
  have c: "nb + 1 + reserved_blk s = ?b + 1" by (simp add: algebra_simps)
  show "data_at s nb n = take n (sector (sbio s) ?b) @ data_at s (nb + 1) (n - 512)"
    unfolding data_at_def k c by (simp add: sfsdev.run_Suc)
  have "unat (?b + 1) = unat ?b + 1"
    using assms(1) k u32_less [of "disksize (sbio s)"] by (simp add: data_fits_def unat_word_ariths)
  then show "data_fits s (nb + 1) (n - 512)" using assms(1) k by (simp add: data_fits_def c)
qed

lemma read_rest_spec:
  assumes "sfs_ok s" and "data_fits s nb n" and "n < 2 ^ 31"
  shows "\<exists>s'. read_rest nb (int n) dst m s = Inr (int n, poke m dst (data_at s nb n), s') \<and> keeps s s'"
  using assms
proof (induction n arbitrary: nb dst m s rule: less_induct)
  case (less n)
  show ?case
  proof (cases "n = 0")
    case True
    then show ?thesis using less.prems keeps_refl by (auto simp: read_rest.simps data_at_def poke_def)
  next
    case False
    then have pos: "0 < n" by simp
    note st = data_at_step [OF less.prems(2) pos]
    obtain s1 where r: "read_block (nb + reserved_blk s) s = Inr (sector (sbio s) (nb + reserved_blk s), s1)" "keeps s s1"
      using read_blockE [OF less.prems(1) st(2)] by blast
    define l where "l = min 512 n"
    let ?m = "poke m dst (take l (sector (sbio s) (nb + reserved_blk s)))"
    have lt: "n - 512 < 2 ^ 31" "n - 512 < n" using less.prems(3) pos by linarith+
    have l: "n - l = n - 512" "min 512 (int n) = int l" "int n - int l = int (n - 512)"
      by (auto simp: l_def)
    obtain s2 where i: "read_rest (nb + 1) (int (n - 512)) (dst + of_nat l) ?m s1 =
        Inr (int (n - 512), poke ?m (dst + of_nat l) (data_at s (nb + 1) (n - 512)), s2)" "keeps s1 s2"
      using less.IH [of "n - 512" s1 "nb + 1" "dst + of_nat l" ?m] lt st(3) r(2)
      by (auto simp: keepsD keeps_data)
    have tl: "length (take l (sector (sbio s) b)) = l" "take n (sector (sbio s) b) = take l (sector (sbio s) b)" for b
      by (auto simp: l_def min_def)
    have "l + (n - 512) \<le> 4294967296" using less.prems(3) by (simp add: l_def)
    then have "poke ?m (dst + of_nat l) (data_at s (nb + 1) (n - 512)) = poke m dst (data_at s nb n)"
      using poke_append [of "take l (sector (sbio s) (nb + reserved_blk s))" "data_at s (nb + 1) (n - 512)" m dst]
      by (simp only: tl data_at_length [OF less.prems(1) st(3)] st(1))
    then show ?thesis
      using pos r i keeps_trans [OF r(2) i(2)]
      by (simp add: read_rest.simps [of nb "int n"] read_data_block_def l Let_def)
        (simp add: l_def)
  qed
qed

section \<open>The index area\<close>

text \<open>The index entries are numbered from the end of the device backwards.\<close>

definition ie_at :: "sfs \<Rightarrow> nat \<Rightarrow> u8 list" where
  "ie_at s k = bytes (SECT_SIZE - (k mod 8 + 1) * IE_SIZE) IE_SIZE (sector (sbio s) (s_nblk s - of_nat (k div 8) - 1))"

definition index_fits :: "sfs \<Rightarrow> nat \<Rightarrow> bool" where
  "index_fits s k \<longleftrightarrow> s_nblk s \<le> disksize (sbio s) \<and> k < 8 * unat (s_nblk s) \<and> k < 2 ^ 31"

text \<open>
  \<open>index_chain ie k es\<close>: from entry \<open>k\<close> down stand the directory and file entries \<open>es\<close>, each in front of
  its continuation entries, up to entry 0 or to an entry of another type.
\<close>

fun index_chain :: "(nat \<Rightarrow> u8 list) \<Rightarrow> nat \<Rightarrow> u8 list list \<Rightarrow> bool" where
  "index_chain ie k [] \<longleftrightarrow> k = 0 \<or> ie_type (ie k) \<noteq> IAT_DIR_ENT \<and> ie_type (ie k) \<noteq> IAT_FILE_ENT"
| "index_chain ie k (e # es) \<longleftrightarrow> unat (ie_ne e) < k \<and> ie k = e \<and>
     (ie_type e = IAT_DIR_ENT \<or> ie_type e = IAT_FILE_ENT) \<and> index_chain ie (k - unat (ie_ne e) - 1) es"

definition matches :: "sfs \<Rightarrow> u8 list \<Rightarrow> u8 list \<Rightarrow> bool" where
  "matches s file e \<longleftrightarrow> name_eq file ((if ie_type e = IAT_DIR_ENT then dir_name e else file_name e) @ junk s)"

lemma index_block:
  assumes "index_fits s k"
  shows "(of_nat k :: u32) div IPB = of_nat (k div 8)" and "unat ((of_nat k :: u32) mod IPB) = k mod 8"
    and "s_nblk s - of_nat (k div 8) - 1 < disksize (sbio s)"
proof -
  have k: "k < 4294967296" using assms by (simp add: index_fits_def)
  then show "(of_nat k :: u32) div IPB = of_nat (k div 8)"
    by (simp add: u32_eq_iff unat_div)
  show "unat ((of_nat k :: u32) mod IPB) = k mod 8" using k by (simp add: unat_mod)
  have n: "k div 8 < unat (s_nblk s)" using assms by (simp add: index_fits_def div_less_iff_less_mult)
  then have "unat (s_nblk s - of_nat (k div 8)) = unat (s_nblk s) - k div 8"
    using k by (simp add: unat_sub_if')
  then have "unat (s_nblk s - of_nat (k div 8) - 1) = unat (s_nblk s) - k div 8 - 1"
    using n unat_sub_if' [of "s_nblk s - of_nat (k div 8)" 1] by (simp only: unat_1 if_P Suc_leI [OF n] le_diff_conv2 less_imp_le)
  then show "s_nblk s - of_nat (k div 8) - 1 < disksize (sbio s)"
    using n assms unfolding index_fits_def word_less_nat_alt word_le_nat_alt by linarith
qed

lemma read_indexE:
  assumes "sfs_ok s" and "index_fits s k"
  obtains s' where "read_index (of_nat k) s = Inr (ie_at s k, s')" and "keeps s s'"
proof -
  obtain s' where "read_block (s_nblk s - of_nat (k div 8) - 1) s =
      Inr (sector (sbio s) (s_nblk s - of_nat (k div 8) - 1), s')" "keeps s s'"
    using read_blockE [OF assms(1) index_block(3) [OF assms(2)]] by blast
  then show ?thesis
    using that by (simp only: read_index_def index_block [OF assms(2)] bnd_Inr prod.case ie_at_def)
qed

lemma keeps_index: "keeps s s' \<Longrightarrow> ie_at s' = ie_at s" "keeps s s' \<Longrightarrow> index_fits s' = index_fits s"
    "keeps s s' \<Longrightarrow> matches s' = matches s"
  by (auto simp: ie_at_def index_fits_def matches_def keepsD intro!: ext)

lemma index_fits_mono: "index_fits s k \<Longrightarrow> j \<le> k \<Longrightarrow> index_fits s j"
  by (simp add: index_fits_def)

lemma read_conts_spec:
  assumes "sfs_ok s" and "index_fits s (k + ne)"
  shows "\<exists>s'. read_conts (int k) ne s = Inr ((), s') \<and> keeps s s'"
  using assms
proof (induction ne arbitrary: s)
  case 0
  then show ?case using keeps_refl by auto
next
  case (Suc ne)
  obtain s1 where r: "read_index (of_nat (k + Suc ne)) s = Inr (ie_at s (k + Suc ne), s1)" "keeps s s1"
    using read_indexE [OF Suc.prems] by blast
  have "index_fits s1 (k + ne)" using index_fits_mono [OF Suc.prems(2)] r(2) by (simp add: keeps_index)
  then obtain s2 where "read_conts (int k) ne s1 = Inr ((), s2)" "keeps s1 s2"
    using Suc.IH [of s1] r(2) by (auto simp: keepsD)
  moreover have "word_of_int (int k + int (Suc ne)) = (of_nat (k + Suc ne) :: u32)" by simp
  ultimately show ?case using r keeps_trans by (auto simp del: of_nat_Suc of_nat_add)
qed

lemma find_loop_spec:
  assumes "sfs_ok s" and "index_fits s k" and "index_chain (ie_at s) k es"
  shows "\<exists>s'. find_loop file (int k) s = Inr (find (matches s file) es, s') \<and> keeps s s'"
  using assms
proof (induction es arbitrary: k s)
  case Nil
  show ?case
  proof (cases "k = 0")
    case True
    then show ?thesis using Nil.prems keeps_refl by (auto simp: find_loop.simps)
  next
    case False
    obtain s1 where r: "read_index (of_nat k) s = Inr (ie_at s k, s1)" "keeps s s1"
      using read_indexE [OF Nil.prems(1,2)] by blast
    then show ?thesis using Nil.prems(3) False by (auto simp: find_loop.simps [of _ "int k"])
  qed
next
  case (Cons e es)
  let ?ne = "unat (ie_ne e)"
  have c: "?ne < k" "ie_at s k = e" "ie_type e = IAT_DIR_ENT \<or> ie_type e = IAT_FILE_ENT"
    "index_chain (ie_at s) (k - ?ne - 1) es" using Cons.prems(3) by simp_all
  obtain s1 where r: "read_index (of_nat k) s = Inr (e, s1)" "keeps s s1"
    using read_indexE [OF Cons.prems(1,2)] c(2) by blast
  define k1 where "k1 = k - ?ne - 1"
  have k1: "int k - uint (ie_ne e) - 1 = int k1" using c(1) by (simp add: k1_def of_nat_diff)
  have f1: "index_fits s1 (k1 + ?ne)" "index_fits s1 k1"
    using index_fits_mono [OF Cons.prems(2)] r(2) c(1) by (simp_all add: keeps_index k1_def)
  obtain s2 where d: "read_conts (int k1) ?ne s1 = Inr ((), s2)" "keeps s1 s2"
    using read_conts_spec [of s1 k1 ?ne] f1(1) r(2) by (auto simp: keepsD)
  have "\<exists>s2. (if ?ne = 0 \<and> b then Inr ((), s1) else read_conts (int k1) ?ne s1) = Inr ((), s2) \<and> keeps s s2" for b
    using d r(2) keeps_trans by auto
  then obtain s3 where s3: "(if ?ne = 0 \<and> length file \<le> (if ie_type e = IAT_DIR_ENT then DIR_SPACE else FILE_SPACE)
      then Inr ((), s1) else read_conts (int k1) ?ne s1) = Inr ((), s3)" "keeps s s3" by blast
  have "find_loop file (int k) s =
      (if matches s file e then Inr (Some e, s3) else find_loop file (int k1) s3)"
  proof -
    have "find_loop file (int k) s = bnd (Inr ((), s3)) (\<lambda>(_, s2). if matches s file e then Inr (Some e, s2)
        else find_loop file (int k1) s2)"
      using c(1,3) by (subst find_loop.simps) (auto simp: r(1) k1 s3(1) [symmetric] matches_def Let_def k1_def of_nat_diff)
    then show ?thesis by simp
  qed
  moreover obtain s4 where "find_loop file (int k1) s3 = Inr (find (matches s file) es, s4)" "keeps s3 s4"
    using Cons.IH [of s3 k1] s3(2) c(4) f1(2) r(2) by (auto simp: keepsD keeps_index k1_def)
  ultimately show ?case using s3(2) keeps_trans by auto
qed

lemma sfs_find_index_spec:
  assumes "sfs_ok s" and "index_fits s (unat (ia_num s) - 1)" and "0 < ia_num s"
    and "index_chain (ie_at s) (unat (ia_num s) - 1) es"
  shows "\<exists>s'. sfs_find_index file s = Inr (find (matches s file) es, s') \<and> keeps s s'"
proof -
  have "unat (ia_num s - 1) = unat (ia_num s) - 1" using assms(3) by (simp add: unat_sub_if' word_less_nat_alt)
  then have "sint (ia_num s - 1) = int (unat (ia_num s) - 1)"
    using assms(2) by (simp add: sint_u32_small index_fits_def)
  then show ?thesis using find_loop_spec [OF assms(1,2,4)] by (simp add: sfs_find_index_def)
qed


section \<open>Open files\<close>

text \<open>
  The file of an open descriptor: entry \<open>e\<close> of the index, read up to position \<open>pos\<close>. Its data lie on the
  device and it is not longer than the largest \<^verbatim>\<open>int\<close>.
\<close>

definition opened :: "sfs \<Rightarrow> int \<Rightarrow> nat \<Rightarrow> u8 list \<Rightarrow> nat \<Rightarrow> bool" where
  "opened s fd f e pos \<longleftrightarrow> 0 \<le> fd \<and> fd < int SFS_NOFILE \<and> ofile s ! nat fd = Some f \<and> f < length (fdtable s) \<and>
     f_pos (fdtable s ! f) = of_nat pos \<and> i_sindex (ibuf s ! f_inode (fdtable s ! f)) = e \<and>
     pos \<le> unat (file_len e) \<and> unat (file_len e) < 2 ^ 31 \<and>
     data_fits s (ucast (file_blk_start e)) (unat (file_len e) + 1)"

definition contents :: "sfs \<Rightarrow> u8 list \<Rightarrow> u8 list" where
  "contents s e = data_at s (ucast (file_blk_start e)) (unat (file_len e))"

lemma run_len [simp]: "length (sfsdev.run s b n) = 512 * n"
  by (induction n arbitrary: b) (simp_all add: sfsdev.run_Suc)

lemma take_run: "x \<le> 512 * j \<Longrightarrow> j \<le> n \<Longrightarrow> take x (sfsdev.run s b n) = take x (sfsdev.run s b j)"
  using sfsdev.run_add [of s b j "n - j"] by simp

lemma data_at_run: "x \<le> 512 * n \<Longrightarrow> data_at s nb x = take x (sfsdev.run s (nb + reserved_blk s) n)"
  using take_run [of x "(x + 511) div 512" n s "nb + reserved_blk s"] by (simp add: data_at_def less_Suc_eq_le [symmetric] div_less_iff_less_mult)

text \<open>A piece of the data area: the rest of the block it starts in, and the blocks after that.\<close>

lemma data_at_piece:
  assumes "pos + k \<le> x"
  shows "take k (drop pos (data_at s nb x)) =
    take k (drop (pos mod 512) (sector (sbio s) (nb + of_nat (pos div 512) + reserved_blk s))) @
    data_at s (nb + of_nat (pos div 512) + 1) (k - (512 - pos mod 512))"
proof -
  define q where "q = pos div 512"
  define off where "off = pos mod 512"
  have pos: "pos = 512 * q + off" "off < 512" by (simp_all add: q_def off_def)
  let ?b = "nb + reserved_blk s" and ?n = "q + Suc x"
  have "data_at s nb x = take x (sfsdev.run s ?b ?n)" by (rule data_at_run) simp
  then have "take k (drop pos (data_at s nb x)) = take k (drop pos (sfsdev.run s ?b ?n))"
    using assms by (simp add: drop_take min_def)
  also have "sfsdev.run s ?b ?n = sfsdev.run s ?b q @ sector (sbio s) (?b + of_nat q) @ sfsdev.run s (?b + of_nat q + 1) x"
    by (simp only: sfsdev.run_add sfsdev.run_Suc)
  also have "drop pos \<dots> = drop off (sector (sbio s) (?b + of_nat q)) @ sfsdev.run s (?b + of_nat q + 1) x"
    using pos(2) by (simp add: pos(1))
  also have "take k \<dots> = take k (drop off (sector (sbio s) (?b + of_nat q))) @
      take (k - (512 - off)) (sfsdev.run s (?b + of_nat q + 1) x)" by simp
  also have "take (k - (512 - off)) (sfsdev.run s (?b + of_nat q + 1) x) = data_at s (nb + of_nat q + 1) (k - (512 - off))"
    using assms data_at_run [of "k - (512 - off)" x s "nb + of_nat q + 1"] by (simp add: algebra_simps)
  finally show ?thesis by (simp add: q_def off_def algebra_simps)
qed

lemma unat_ucast_64 [simp]: "unat (ucast (x :: u32) :: u64) = unat x"
  using u32_less [of x] by (simp add: unsigned_ucast_eq take_bit_nat_eq_self)

lemma unat_ucast_32: "unat (x :: u64) < 2 ^ 32 \<Longrightarrow> unat (ucast x :: u32) = unat x"
  by (simp add: unsigned_ucast_eq take_bit_nat_eq_self)

lemma scast_small: "unat (n :: u32) < 2 ^ 31 \<Longrightarrow> unat (scast n :: u64) = unat n"
proof -
  assume n: "unat n < 2 ^ 31"
  have "scast n = (word_of_int (sint n) :: u64)" by simp
  also have "\<dots> = ucast n" using sint_u32_small [OF n] by simp
  finally show ?thesis by simp
qed

lemma read_amount:
  fixes n :: u32 and l :: u64
  assumes "unat n < 2 ^ 31" and "unat l < 2 ^ 31" and "pos \<le> unat l"
  shows "sint (if (scast n :: u64) < l - ucast (of_nat pos :: u32) then n else ucast (l - ucast (of_nat pos :: u32))) =
    int (min (unat n) (unat l - pos))"
proof -
  have p: "unat (ucast (of_nat pos :: u32) :: u64) = pos" using assms by simp
  have d: "unat (l - ucast (of_nat pos :: u32)) = unat l - pos"
    using unat_sub_if' [of l "ucast (of_nat pos :: u32)"] assms(3) by (simp only: p if_P)
  have u: "unat (ucast (l - ucast (of_nat pos :: u32)) :: u32) = unat l - pos"
    using assms(2) d by (simp add: unat_ucast_32)
  define x where "x = (if (scast n :: u64) < l - ucast (of_nat pos :: u32) then n else ucast (l - ucast (of_nat pos :: u32)))"
  have "unat x = min (unat n) (unat l - pos)"
    using assms(1) by (simp add: x_def word_less_nat_alt scast_small d u min_def)
  then have "sint x = int (min (unat n) (unat l - pos))" using assms(1) sint_u32_small [of x] by simp
  then show ?thesis by (simp only: x_def)
qed

lemma ucast_add_32: "ucast (a + ucast b :: u64) = (ucast a + b :: u32)"
proof -
  have "ucast (a + ucast b :: u64) = (of_nat (unat (a + ucast b :: u64)) :: u32)" by simp
  also have "\<dots> = of_nat ((unat a + unat b) mod 2 ^ 64)" by (simp add: unat_word_ariths)
  also have "\<dots> = (of_nat (unat a + unat b) :: u32)"
    by (simp only: u32_eq_iff unat_of_nat) (simp add: mod_mod_cancel)
  finally show ?thesis by simp
qed

text \<open>Where the block of position \<open>pos\<close> and the blocks after it lie.\<close>

lemma data_fits_piece:
  assumes "data_fits s fb (n + 1)" and "pos + k \<le> n" and "nb = fb + of_nat (pos div 512)"
  shows "nb + reserved_blk s < disksize (sbio s)" and "data_fits s (nb + 1) (k - (512 - pos mod 512))"
proof -
  let ?B = "fb + reserved_blk s" and ?q = "pos div 512" and ?x = "k - (512 - pos mod 512)"
  have f: "unat ?B + (n + 512) div 512 \<le> unat (disksize (sbio s))" using assms(1) by (simp add: data_fits_def)
  have q: "?q + 1 \<le> (n + 512) div 512" using assms(2) by (simp add: div_le_mono)
  have x: "?q + 1 + (?x + 511) div 512 \<le> (n + 512) div 512"
  proof (cases "k \<le> 512 - pos mod 512")
    case True
    then show ?thesis using q by simp
  next
    case False
    then have "512 * (?q + 1) + (?x + 511) = pos + k + 511" by (simp add: minus_mod_eq_mult_div [symmetric])
    then have "(pos + k + 511) div 512 = ?q + 1 + (?x + 511) div 512"
      by (metis div_mult_self4 zero_neq_numeral add.commute)
    moreover have "(pos + k + 511) div 512 \<le> (n + 512) div 512" using assms(2) by (intro div_le_mono) simp
    ultimately show ?thesis by simp
  qed
  have u: "unat (?B + of_nat j) = unat ?B + j" if "j \<le> (n + 512) div 512" for j
    using f that u32_less [of "disksize (sbio s)"] by (simp add: unat_word_ariths)
  have e: "nb + reserved_blk s = ?B + of_nat ?q" "nb + 1 + reserved_blk s = ?B + of_nat (?q + 1)"
    by (simp_all add: assms(3))
  show "nb + reserved_blk s < disksize (sbio s)" unfolding e word_less_nat_alt using u [of ?q] q f by linarith
  show "data_fits s (nb + 1) ?x" unfolding data_fits_def e using u [of "?q + 1"] q x f by linarith
qed

lemma sfs_read_spec:
  assumes ok: "sfs_ok s" and op: "opened s fd f e pos" and n: "unat n < 2 ^ 31"
    and k: "k = min (unat n) (unat (file_len e) - pos)"
  shows "\<exists>s1 s'. sfs_read fd dst n m s = Inr (int k, poke m dst (take k (drop pos (contents s e))), s') \<and> keeps s s1 \<and>
    s' = s1\<lparr>fdtable := (fdtable s)[f := (fdtable s ! f)\<lparr>f_pos := of_nat (pos + k)\<rparr>]\<rparr>"
proof -
  let ?fb = "ucast (file_blk_start e) :: u32"
  define q where "q = pos div 512"
  define off where "off = pos mod 512"
  define nb where "nb = ?fb + of_nat q"
  have o: "0 \<le> fd" "fd < 16" "ofile s ! nat fd = Some f" "f < length (fdtable s)"
    "f_pos (fdtable s ! f) = of_nat pos" "i_sindex (ibuf s ! f_inode (fdtable s ! f)) = e" "pos \<le> unat (file_len e)"
    "unat (file_len e) < 2 ^ 31" "data_fits s ?fb (unat (file_len e) + 1)" using op by (simp_all add: opened_def)
  have pos: "pos < 2 ^ 31" using o(7,8) by linarith
  have nb: "(ucast (file_blk_start e + ucast (of_nat pos div 512 :: u32)) :: u32) = nb"
    "unat ((of_nat pos :: u32) mod 512) = off"
  proof -
    have "unat ((of_nat pos :: u32) div 512) = q" using pos by (simp add: unat_div q_def)
    then have "(of_nat pos :: u32) div 512 = of_nat q" using pos by (simp add: u32_eq_iff q_def)
    then show "(ucast (file_blk_start e + ucast (of_nat pos div 512 :: u32)) :: u32) = nb"
      by (simp add: nb_def ucast_add_32)
    show "unat ((of_nat pos :: u32) mod 512) = off" using pos by (simp add: unat_mod off_def)
  qed
  have fits: "nb + reserved_blk s < disksize (sbio s)" "data_fits s (nb + 1) (k - (512 - off))"
    using data_fits_piece [OF o(9), of pos k nb] o(7) k by (simp_all add: nb_def q_def off_def)
  obtain s1 where r1: "read_data_block nb s = Inr (sector (sbio s) (nb + reserved_blk s), s1)" "keeps s s1"
    using read_blockE [OF ok fits(1)] unfolding read_data_block_def by blast
  define l where "l = min k (512 - off)"
  have klt: "k - (512 - off) < 2 ^ 31" "k < 2 ^ 31" using k n by linarith+
  have l: "min (int k) (512 - int off) = int l" "int k - int l = int (k - (512 - off))" "k - l = k - (512 - off)"
    by (auto simp: l_def off_def min_def)
  let ?x = "take k (drop off (sector (sbio s) (nb + reserved_blk s)))"
  have x: "take l (drop off (sector (sbio s) (nb + reserved_blk s))) = ?x" "length ?x = l"
    by (simp_all add: l_def min_def off_def)
  obtain s2 where r2: "read_rest (nb + 1) (int (k - (512 - off))) (dst + of_nat l) (poke m dst ?x) s1 =
      Inr (int (k - (512 - off)), poke (poke m dst ?x) (dst + of_nat l) (data_at s (nb + 1) (k - (512 - off))), s2)"
      "keeps s1 s2"
    using read_rest_spec [of s1 "nb + 1" "k - (512 - off)" "dst + of_nat l" "poke m dst ?x"] fits(2) r1(2) klt
    by (auto simp: keepsD keeps_data)
  have "poke (poke m dst ?x) (dst + of_nat l) (data_at s (nb + 1) (k - (512 - off))) =
      poke m dst (take k (drop pos (contents s e)))"
  proof -
    have "l + (k - (512 - off)) \<le> 4294967296" using klt by (simp add: l_def)
    then have "poke (poke m dst ?x) (dst + of_nat l) (data_at s (nb + 1) (k - (512 - off))) =
        poke m dst (?x @ data_at s (nb + 1) (k - (512 - off)))"
      using poke_append [of ?x "data_at s (nb + 1) (k - (512 - off))" m dst] data_at_length [OF ok fits(2)]
      by (simp only: x(2))
    moreover have "pos + k \<le> unat (file_len e)" using k o(7) by simp
    ultimately show ?thesis
      unfolding contents_def by (simp only: data_at_piece nb_def q_def off_def)
  qed
  note mem = this
  have n1: "sint (if (scast n :: u64) < file_len e - ucast (of_nat pos :: u32) then n
      else ucast (file_len e - ucast (of_nat pos :: u32))) = int k"
    unfolding k by (rule read_amount [OF n o(8,7)])
  have c: "int l + int (k - (512 - off)) = int k" by (simp add: l_def min_def)
  have "l + (k - (512 - off)) = k" by (simp add: l_def min_def)
  then have cw: "of_nat l + of_nat (k - (512 - off)) = (of_nat k :: u32)" by (metis of_nat_add)
  define t where "t = (fdtable s)[f := (fdtable s ! f)\<lparr>f_pos := of_nat (pos + k)\<rparr>]"
  have "sfs_read fd dst n m s = bnd (read_data_block nb s) (\<lambda>(b, s1).
      let len = min (int k) (512 - int off); m1 = poke m dst (take (nat len) (drop off b))
      in if len < 0 then Inl (Fault ''sfs_read: memmove of a negative length'')
         else bnd (read_rest (nb + 1) (int k - len) (dst + word_of_int len) m1 s1) (\<lambda>(count, m2, s2).
           Inr (len + count, m2, s2\<lparr>fdtable := (fdtable s2)[f := (fdtable s2 ! f)
             \<lparr>f_pos := of_nat pos + word_of_int (len + count)\<rparr>]\<rparr>)))"
  proof -
    have fd: "(int SFS_NOFILE \<le> fd) = False" "(fd < 0) = False" using o(1,2) by auto
    show ?thesis unfolding sfs_read_def fd if_False o(3) option.case Let_def o(5,6) n1 nb of_nat_numeral using o(2) by simp
  qed
  also have "\<dots> = Inr (int k, poke m dst (take k (drop pos (contents s e))), s2\<lparr>fdtable := t\<rparr>)"
    unfolding r1(1) bnd_Inr prod.case Let_def l
    using r2 mem keeps_trans [OF r1(2) r2(2)] by (simp add: x c cw t_def keepsD keepsD(8) [OF r1(2)])
  finally show ?thesis using keeps_trans [OF r1(2) r2(2)] unfolding t_def by blast
qed

lemma sfs_read_file_spec:
  assumes "sfs_ok s" and "index_fits s (unat (ia_num s) - 1)" and "0 < ia_num s"
    and "index_chain (ie_at s) (unat (ia_num s) - 1) es" and "find (matches s file) es = Some e"
    and e: "ie_type e = IAT_FILE_ENT" "unat (file_len e) < 2 ^ 31" and n: "unat n < 2 ^ 31"
    and k: "k = min (unat (file_len e)) (unat n)" and fits: "data_fits s (ucast (file_blk_start e)) k"
  shows "\<exists>s'. sfs_read_file file dst n m s =
      Inr (int k, poke (memset m dst 0 n) dst (data_at s (ucast (file_blk_start e)) k), s') \<and> keeps s s'"
proof -
  obtain s1 where r: "sfs_find_index file s = Inr (Some e, s1)" "keeps s s1"
    using sfs_find_index_spec [OF assms(1-4), of "file"] assms(5) by auto
  have l: "sint (ucast (file_len e) :: u32) = int (unat (file_len e))"
    using e(2) sint_u32_small [of "ucast (file_len e)"] unat_ucast_32 [of "file_len e"] by simp
  have len: "(if sint (ucast (file_len e) :: u32) < sint n then sint (ucast (file_len e) :: u32) else sint n) = int k"
  proof -
    have "(if int a < int b then int a else int b) = int (min a b)" for a b :: nat by simp
    then show ?thesis unfolding l sint_u32_small [OF n] k .
  qed
  have kk: "k < 2 ^ 31" using k n by simp
  obtain s2 where "read_rest (ucast (file_blk_start e)) (int k) dst (memset m dst 0 n) s1 =
      Inr (int k, poke (memset m dst 0 n) dst (data_at s (ucast (file_blk_start e)) k), s2)" "keeps s1 s2"
    using read_rest_spec [of s1 "ucast (file_blk_start e)" k dst "memset m dst 0 n"] fits kk r(2)
    by (auto simp: keepsD keeps_data)
  then show ?thesis
    using r e(1) len keeps_trans [OF r(2)] unfolding sfs_read_file_def by (auto simp: Let_def)
qed

text \<open>A table has a free slot.\<close>

definition slots_free :: "sfs \<Rightarrow> bool" where
  "slots_free s \<longleftrightarrow> length (ibuf s) = NIBUF \<and> (\<exists>i < NIBUF. i_flags (ibuf s ! i) = 0) \<and>
     length (fdtable s) = FDT_SIZE \<and> (\<exists>i < FDT_SIZE. f_count (fdtable s ! i) = 0) \<and>
     length (ofile s) = SFS_NOFILE \<and> (\<exists>i < SFS_NOFILE. ofile s ! i = None)"

lemma find_upt:
  assumes "\<exists>i < n. P i"
  obtains i where "find P [0..<n] = Some i" and "i < n" and "P i"
proof -
  obtain i where i: "find P [0..<n] = Some i"
    using assms by (cases "find P [0..<n]") (auto simp: find_None_iff)
  then show ?thesis using that [OF i] by (auto simp: find_Some_iff)
qed

lemma sfs_open_spec:
  assumes ok: "sfs_ok s" and "index_fits s (unat (ia_num s) - 1)" and "0 < ia_num s"
    and "index_chain (ie_at s) (unat (ia_num s) - 1) es" and found: "find (matches s name) es = Some e"
    and free: "slots_free s" and e: "unat (file_len e) < 2 ^ 31"
      "data_fits s (ucast (file_blk_start e)) (unat (file_len e) + 1)"
  shows "\<exists>fd f s'. sfs_open name flags s = Inr (fd, s') \<and> opened s' fd f e 0 \<and> sfs_ok s' \<and> contents s' e = contents s e"
proof -
  obtain s1 where r: "sfs_find_index name s = Inr (Some e, s1)" "keeps s s1"
    using sfs_find_index_spec [OF assms(1-4), of name] found by auto
  note k = keepsD [OF r(2)]
  obtain i where i: "ibuf_alloc s1 = Some i" "i < length (ibuf s)"
    using find_upt [of NIBUF "\<lambda>i. i_flags (ibuf s ! i) = 0"] free k by (auto simp: ibuf_alloc_def slots_free_def)
  obtain f where f: "find (\<lambda>i. f_count (fdtable s ! i) = 0) [0..<FDT_SIZE] = Some f" "f < length (fdtable s)"
    using find_upt [of FDT_SIZE "\<lambda>i. f_count (fdtable s ! i) = 0"] free by (auto simp: slots_free_def)
  obtain fd where fd: "find (\<lambda>i. ofile s ! i = None) [0..<SFS_NOFILE] = Some fd" "fd < length (ofile s)" "fd < SFS_NOFILE"
    using find_upt [of SFS_NOFILE "\<lambda>i. ofile s ! i = None"] free by (auto simp: slots_free_def)
  let ?ib = "(ibuf s)[i := \<lparr>i_flags = SFS_INODE_INUSE, i_name = Some name, i_sindex = e\<rparr>]"
  let ?fd = "(fdtable s ! f)\<lparr>f_count := f_count (fdtable s ! f) + 1, f_type := 0, f_mode := 0, f_flags := flags,
    f_pos := 0, f_inode := i\<rparr>"
  let ?s = "s1\<lparr>ibuf := ?ib, fdtable := (fdtable s)[f := ?fd], ofile := (ofile s)[fd := Some f]\<rparr>"
  have "sfs_open name flags s = Inr (int fd, ?s)"
    using i f fd k by (simp add: sfs_open_def sfs_namei_def search_index_def r(1) fd_alloc_def)
  moreover have d: "data_at ?s = data_at s" "data_fits ?s = data_fits s"
    using k by (auto intro!: data_cong)
  then have "opened ?s (int fd) f e 0" using i(2) f(2) fd(2,3) e by (simp add: opened_def)
  moreover have "sfs_ok ?s" using k(1) by (simp add: sfs_ok_def)
  moreover have "contents ?s e = contents s e" by (simp add: contents_def d)
  ultimately show ?thesis by blast
qed

text \<open>A program that reads a file in pieces of given sizes, through one buffer.\<close>

primrec read_all :: "int \<Rightarrow> u32 \<Rightarrow> u32 list \<Rightarrow> mem \<Rightarrow> sfs \<Rightarrow> (u8 list \<times> sfs) res" where
  "read_all fd dst [] m s = Inr ([], s)"
| "read_all fd dst (n # ns) m s =
     bnd (sfs_read fd dst n m s) (\<lambda>(count, m1, s1).
       bnd (read_all fd dst ns m1 s1) (\<lambda>(out, s2). Inr (peek m1 dst (nat count) @ out, s2)))"

lemma read_all_spec:
  assumes "sfs_ok s" and "opened s fd f e pos" and "\<forall>n \<in> set ns. unat n < 2 ^ 31"
  shows "\<exists>s'. read_all fd dst ns m s = Inr (take (sum_list (map unat ns)) (drop pos (contents s e)), s')"
  using assms
proof (induction ns arbitrary: m s pos)
  case (Cons n ns)
  define k where "k = min (unat n) (unat (file_len e) - pos)"
  let ?m = "poke m dst (take k (drop pos (contents s e)))"
  obtain s1 s' where r: "sfs_read fd dst n m s = Inr (int k, ?m, s')" "keeps s s1"
      "s' = s1\<lparr>fdtable := (fdtable s)[f := (fdtable s ! f)\<lparr>f_pos := of_nat (pos + k)\<rparr>]\<rparr>"
    using sfs_read_spec [OF Cons.prems(1,2) _ k_def] Cons.prems(3) by fastforce
  note kp = keepsD [OF r(2)] keeps_data [OF r(2)]
  have d: "data_at s' = data_at s" "data_fits s' = data_fits s"
    using kp by (auto intro!: data_cong simp: r(3))
  have "pos \<le> unat (file_len e)" "unat (file_len e) < 2 ^ 31" using Cons.prems(2) by (simp_all add: opened_def)
  then have k: "pos + k \<le> unat (file_len e)" "k < 2 ^ 31" by (auto simp: k_def)
  then have "opened s' fd f e (pos + k)" "sfs_ok s'"
    using Cons.prems(2) kp d by (simp_all add: opened_def r(3) sfs_ok_def nth_list_update)
  then obtain s2 where i: "read_all fd dst ns ?m s' = Inr (take (sum_list (map unat ns)) (drop (pos + k) (contents s' e)), s2)"
    using Cons.IH [of s' "pos + k" ?m] Cons.prems(3) by auto
  have len: "length (contents s e) = unat (file_len e)"
    using data_at_length [OF Cons.prems(1)] Cons.prems(2)
    by (auto simp: contents_def opened_def data_fits_def dest: order_trans [rotated] )
  have p: "peek ?m dst k = take k (drop pos (contents s e))"
    using k len by (intro peek_poke_same) auto
  have tk: "take k xs @ take j (drop k xs) = take (unat n + j) xs" if "k = min (unat n) (length xs)" for xs :: "u8 list" and j
    using that by (auto simp: min_def take_add)
  have "peek ?m dst k @ take (sum_list (map unat ns)) (drop k (drop pos (contents s e))) =
      take (sum_list (map unat (n # ns))) (drop pos (contents s e))"
    unfolding p using tk [of "drop pos (contents s e)"] len by (simp add: k_def del: drop_drop)
  then show ?case using r(1) i d by (simp add: contents_def add.commute)
qed simp


section \<open>Properties\<close>

text \<open>
  A device of three blocks: the superblock, one data block with the text "hello", and an index block whose
  entry 1 is the file "ab" of five bytes. Nothing is open.
\<close>

definition demo_ram :: mem where
  "demo_ram = poke (poke (poke (poke (\<lambda>_. 0) 512 [104, 101, 108, 108, 111]) 1408 [0x12]) 1434 [5]) 1442 [97, 98]"

definition demo_bio :: bio where
  "demo_bio = init_buffer (boot_bio\<lparr>ram := demo_ram, hdstart := 0, disksize := 3\<rparr>)"

definition demo :: sfs where
  "demo = \<lparr>sbio = demo_bio, s_nblk = 3, reserved_blk = 1, da_blocks = 1, ia_num = 2, block_size = 2,
     ibuf = replicate NIBUF \<lparr>i_flags = 0, i_name = None, i_sindex = replicate 64 0\<rparr>,
     fdtable = replicate FDT_SIZE \<lparr>f_type = 0, f_mode = 0, f_flags = 0, f_count = 0, f_pos = 0, f_inode = 0\<rparr>,
     ofile = replicate SFS_NOFILE None, junk = []\<rparr>"

lemma demo_ok: "sfs_ok demo" "disksize (sbio demo) = 3" "sector (sbio demo) n = peek demo_ram (n * 512) 512"
proof -
  let ?b = "boot_bio\<lparr>ram := demo_ram, hdstart := 0, disksize := 3\<rparr>"
  have "length (fsbuf ?b) = NBUF" "disk_ok ?b" "MAJOR 0x100 = MEM_MAJOR"
    "\<forall>i < NBUF. b_flags (bget ?b i) = 0 \<and> length (b_data (bget ?b i)) = BUF_SIZE"
    by (simp_all add: boot_bio_def disk_ok_def MAJOR_def bget_def)
  note i = init_cache [OF this]
  have "(ucast SFS_DEV :: u16) = 0x100" by (simp add: SFS_DEV_def MKDEV_def)
  then show "sfs_ok demo" using i(1,2) by (auto simp: sfs_ok_def ram_ok_def demo_def demo_bio_def)
  show "disksize (sbio demo) = 3" "sector (sbio demo) n = peek demo_ram (n * 512) 512"
    using i by (simp_all add: demo_def demo_bio_def sector_def)
qed

lemma bytes_peek: "off + k \<le> n \<Longrightarrow> bytes off k (peek m a n) = peek m (a + of_nat off) k"
  by (auto simp: bytes_def peek_def intro!: nth_equalityI simp: add.assoc)

lemma peek_add: "peek m a (j + k) = peek m a j @ peek m (a + of_nat j) k"
  by (auto simp: peek_def nth_append intro!: nth_equalityI simp: algebra_simps)

lemma demo_entry: "ie_at demo 1 = peek demo_ram 1408 64"
  using bytes_peek [of 384 64 512 demo_ram 1024] by (simp add: ie_at_def demo_ok) (simp add: demo_def)

lemma demo_fields:
  "ie_type (peek demo_ram 1408 64) = 0x12" "unat (ie_ne (peek demo_ram 1408 64)) = 0"
  "file_len (peek demo_ram 1408 64) = 5" "file_blk_start (peek demo_ram 1408 64) = 0"
  "file_name (peek demo_ram 1408 64) = 97 # 98 # peek demo_ram 1444 28"
proof -
  let ?e = "peek demo_ram 1408 64"
  show "ie_type ?e = 0x12" "unat (ie_ne ?e) = 0"
    by (simp_all add: ie_type_def ie_ne_def peek_def demo_ram_def poke_def)
  have "field 26 8 ?e = le_nat (peek demo_ram 1434 8)" "field 10 8 ?e = le_nat (peek demo_ram 1418 8)"
    using bytes_peek [of 26 8 64 demo_ram 1408] bytes_peek [of 10 8 64 demo_ram 1408] by (simp_all add: field_def bytes_def)
  moreover have "le_nat (peek demo_ram 1434 8) = 5" "le_nat (peek demo_ram 1418 8) = 0"
    by (simp_all add: peek_def demo_ram_def poke_def le_nat_def upt_rec)
  ultimately show "file_len ?e = 5" "file_blk_start ?e = 0" by (simp_all add: file_len_def file_blk_start_def)
  have "file_name ?e = bytes 34 30 ?e" by (simp add: file_name_def bytes_def)
  then have "file_name ?e = peek demo_ram 1442 30" using bytes_peek [of 34 30 64 demo_ram 1408] by simp
  also have "\<dots> = peek demo_ram 1442 2 @ peek demo_ram 1444 28"
    using peek_add [of demo_ram 1442 2 28] by simp
  also have "peek demo_ram 1442 2 = [97, 98]" by (simp add: peek_def demo_ram_def poke_def upt_rec)
  finally show "file_name ?e = 97 # 98 # peek demo_ram 1444 28" by simp
qed

lemma demo_index: "index_fits demo (unat (ia_num demo) - 1)" "0 < ia_num demo"
    "index_chain (ie_at demo) (unat (ia_num demo) - 1) [peek demo_ram 1408 64]"
proof -
  have d: "ia_num demo = 2" "s_nblk demo = 3" by (simp_all add: demo_def)
  show "index_fits demo (unat (ia_num demo) - 1)" "0 < ia_num demo" by (simp_all add: index_fits_def demo_ok d)
  show "index_chain (ie_at demo) (unat (ia_num demo) - 1) [peek demo_ram 1408 64]"
    using demo_fields demo_entry by (simp add: d)
qed

text \<open>
  C11. Lookup: \<^verbatim>\<open>sfs_find_index\<close> returns the first of the index entries, from the newest to the oldest, whose
  name starts with the name looked up; when there is none it finds nothing. The entries are those of the
  index area, each in front of its continuation entries. The blocks of the device do not change.
\<close>

theorem sfs_lookup_first:
  assumes "sfs_ok s" and "index_fits s (unat (ia_num s) - 1)" and "0 < ia_num s"
    and "index_chain (ie_at s) (unat (ia_num s) - 1) es"
  shows "\<exists>s'. sfs_find_index file s = Inr (find (matches s file) es, s') \<and> keeps s s'"
  by (rule sfs_find_index_spec [OF assms])

theorem sfs_lookup_first_witness:
  "(\<exists>s'. sfs_find_index [97] demo = Inr (Some (peek demo_ram 1408 64), s')) \<and>
   (\<exists>s'. sfs_find_index [98] demo = Inr (None, s'))"
  using sfs_lookup_first [OF demo_ok(1) demo_index, of "[97]"] sfs_lookup_first [OF demo_ok(1) demo_index, of "[98]"]
    demo_fields
  by (auto simp: matches_def name_eq_def)

text \<open>
  C6. Open and read: a file that lookup finds is opened while the tables have free slots, and reading it in
  pieces of any sizes delivers, put together, the bytes of the file from its start, up to its end.
\<close>

theorem sfs_open_read:
  assumes "sfs_ok s" and "index_fits s (unat (ia_num s) - 1)" and "0 < ia_num s"
    and "index_chain (ie_at s) (unat (ia_num s) - 1) es" and "find (matches s name) es = Some e"
    and "slots_free s" and "unat (file_len e) < 2 ^ 31"
    and "data_fits s (ucast (file_blk_start e)) (unat (file_len e) + 1)"
    and "\<forall>n \<in> set ns. unat n < 2 ^ 31"
  shows "\<exists>fd s1 s2. sfs_open name flags s = Inr (fd, s1) \<and> 0 \<le> fd \<and>
    read_all fd dst ns m s1 = Inr (take (sum_list (map unat ns)) (contents s e), s2)"
proof -
  obtain fd f s1 where o: "sfs_open name flags s = Inr (fd, s1)" "opened s1 fd f e 0" "sfs_ok s1" "contents s1 e = contents s e"
    using sfs_open_spec [OF assms(1-8)] by blast
  obtain s2 where "read_all fd dst ns m s1 = Inr (take (sum_list (map unat ns)) (contents s e), s2)"
    using read_all_spec [OF o(3,2) assms(9)] o(4) by auto
  then show ?thesis using o(1,2) by (auto simp: opened_def)
qed

theorem sfs_open_read_witness:
  "\<exists>fd s1 s2. sfs_open [97, 98] 0 demo = Inr (fd, s1) \<and>
     read_all fd 0x9000 [2, 1, 7] (\<lambda>_. 0) s1 = Inr ([104, 101, 108, 108, 111], s2)"
proof -
  let ?e = "peek demo_ram 1408 64"
  have m: "find (matches demo [97, 98]) [?e] = Some ?e" using demo_fields by (simp add: matches_def name_eq_def)
  have f: "slots_free demo" by (auto simp: slots_free_def demo_def intro: exI [of _ 0])
  have l: "unat (file_len ?e) < 2 ^ 31" "data_fits demo (ucast (file_blk_start ?e)) (unat (file_len ?e) + 1)"
    by (simp_all add: demo_fields data_fits_def demo_ok) (simp add: demo_def)
  have "contents demo ?e = take 5 (sector (sbio demo) 1)"
    by (simp add: contents_def demo_fields data_at_def sfsdev.run_def) (simp add: demo_def)
  also have "\<dots> = bytes 0 5 (peek demo_ram 512 512)" by (simp add: demo_ok bytes_def)
  also have "\<dots> = peek demo_ram 512 5" using bytes_peek [of 0 5 512 demo_ram 512] by simp
  also have "\<dots> = [104, 101, 108, 108, 111]" by (simp add: peek_def demo_ram_def poke_def upt_rec)
  finally have c: "contents demo ?e = [104, 101, 108, 108, 111]" .
  show ?thesis
    using sfs_open_read [OF demo_ok(1) demo_index m f l, of "[2, 1, 7]" 0 "0x9000" "\<lambda>_. 0"] by (auto simp: c)
qed

end
