(* ===== verification/Fs_Vfs.thy ===== *)
theory Fs_Vfs
  imports Fs_Sfs Kern_Printf Kern_Mm
begin

text \<open>
  The virtual file system \<^verbatim>\<open>fs/fs.c\<close> with \<^verbatim>\<open>inc/fs.h\<close>, the file calls of \<^verbatim>\<open>fs/sysfile.c\<close> and \<^verbatim>\<open>fs/file.c\<close>,
  the root nodes of the two file systems (\<^verbatim>\<open>init_initrd_sfs\<close> of \<^verbatim>\<open>fs/sfs/sfs.c\<close>, \<^verbatim>\<open>init_ext2\<close> of
  \<^verbatim>\<open>fs/ext2/ext2.c\<close>) and what \<^verbatim>\<open>ext2.c\<close> does with its superblock. The callbacks of a node are functions of the
  address of the node; a null callback is \<open>None\<close>.
\<close>

section \<open>Nodes and their callbacks\<close>

abbreviation FS_DIR :: u32 where "FS_DIR \<equiv> 2"

record 's fs_node =
  n_name :: "u8 list"
  n_mask :: u32
  n_uid :: u32
  n_gid :: u32
  n_flags :: u32
  n_inode :: u32
  n_length :: u32
  n_impl :: u32
  n_open :: "(u32 \<Rightarrow> u32 \<Rightarrow> 's \<Rightarrow> 's res) option"
  n_close :: "(u32 \<Rightarrow> 's \<Rightarrow> 's res) option"
  n_read :: "(u32 \<Rightarrow> u32 \<Rightarrow> u32 \<Rightarrow> u32 \<Rightarrow> 's \<Rightarrow> (u32 \<times> 's) res) option"
  n_write :: "(u32 \<Rightarrow> u32 \<Rightarrow> u32 \<Rightarrow> u32 \<Rightarrow> 's \<Rightarrow> (u32 \<times> 's) res) option"
  n_readdir :: "(u32 \<Rightarrow> u32 \<Rightarrow> 's \<Rightarrow> (u32 \<times> 's) res) option"
  n_finddir :: "(u32 \<Rightarrow> u32 \<Rightarrow> 's \<Rightarrow> (u32 \<times> 's) res) option"
  n_ptr :: u32

text \<open>\<open>nd\<close> is the node at address \<open>p\<close>.\<close>

definition open_fs :: "'s fs_node \<Rightarrow> u32 \<Rightarrow> u32 \<Rightarrow> 's \<Rightarrow> 's res" where
  "open_fs nd p flag s = (case n_open nd of Some f \<Rightarrow> f p flag s | None \<Rightarrow> Inr s)"

definition close_fs :: "'s fs_node \<Rightarrow> u32 \<Rightarrow> 's \<Rightarrow> 's res" where
  "close_fs nd p s = (case n_close nd of Some f \<Rightarrow> f p s | None \<Rightarrow> Inr s)"

definition read_fs :: "'s fs_node \<Rightarrow> u32 \<Rightarrow> u32 \<Rightarrow> u32 \<Rightarrow> u32 \<Rightarrow> 's \<Rightarrow> (u32 \<times> 's) res" where
  "read_fs nd p off sz buffer s = (case n_read nd of Some f \<Rightarrow> f p off sz buffer s | None \<Rightarrow> Inr (0, s))"

definition write_fs :: "'s fs_node \<Rightarrow> u32 \<Rightarrow> u32 \<Rightarrow> u32 \<Rightarrow> u32 \<Rightarrow> 's \<Rightarrow> (u32 \<times> 's) res" where
  "write_fs nd p off sz buffer s = (case n_write nd of Some f \<Rightarrow> f p off sz buffer s | None \<Rightarrow> Inr (0, s))"

definition readdir_fs :: "'s fs_node \<Rightarrow> u32 \<Rightarrow> u32 \<Rightarrow> 's \<Rightarrow> (u32 \<times> 's) res" where
  "readdir_fs nd p index s =
     (case n_readdir nd of
        Some f \<Rightarrow> if n_flags nd AND 0xf = FS_DIR then f p index s else Inr (0, s)
      | None \<Rightarrow> Inr (0, s))"

definition finddir_fs :: "'s fs_node \<Rightarrow> u32 \<Rightarrow> u32 \<Rightarrow> 's \<Rightarrow> (u32 \<times> 's) res" where
  "finddir_fs nd p name s =
     (case n_finddir nd of
        Some f \<Rightarrow> if n_flags nd AND 0xf = FS_DIR then f p name s else Inr (0, s)
      | None \<Rightarrow> Inr (0, s))"

section \<open>The file calls\<close>

text \<open>
  \<^verbatim>\<open>fs/file.c\<close>: each call prints its name. \<^verbatim>\<open>fileread\<close> and \<^verbatim>\<open>filewrite\<close> return a variable that was never
  assigned; its value is the argument \<open>count\<close>.
\<close>

definition fileopen :: "cons \<Rightarrow> int \<times> cons" where
  "fileopen c = (0, kprint ''In fileopen\<newline>'' [] c)"

definition filecreat :: "cons \<Rightarrow> int \<times> cons" where
  "filecreat c = (0, kprint ''In filecreat\<newline>'' [] c)"

definition fileread :: "int \<Rightarrow> cons \<Rightarrow> int \<times> cons" where
  "fileread count c = (count, kprint ''In fileread\<newline>'' [] c)"

definition filewrite :: "int \<Rightarrow> cons \<Rightarrow> int \<times> cons" where
  "filewrite count c = (count, kprint ''In filewrite\<newline>'' [] c)"

definition fileclose :: "cons \<Rightarrow> int \<times> cons" where
  "fileclose c = (0, kprint ''In fileclose\<newline>'' [] c)"

definition sf_open :: "u8 list \<Rightarrow> u32 \<Rightarrow> cons \<times> sfs \<Rightarrow> (int \<times> cons \<times> sfs) res" where
  "sf_open path flags = (\<lambda>(c, s).
     bnd (sfs_open path flags s) (\<lambda>(fd, s1).
       Inr (fd, kprint ''in sf_open: path: %s, flags: %d\<newline>'' [Str path, Num flags] c, s1)))"

definition sf_creat :: "u8 list \<Rightarrow> u32 \<Rightarrow> cons \<Rightarrow> int \<times> cons" where
  "sf_creat path flags c = filecreat (kprint ''in sf_creat: path: %s, flags: %d\<newline>'' [Str path, Num flags] c)"

definition sf_read :: "int \<Rightarrow> u32 \<Rightarrow> u32 \<Rightarrow> mem \<Rightarrow> sfs \<Rightarrow> (int \<times> mem \<times> sfs) res" where
  "sf_read fd buf n m s = sfs_read fd buf n m s"

definition sf_write :: "int \<Rightarrow> u32 \<Rightarrow> u8 list \<Rightarrow> u32 \<Rightarrow> cons \<Rightarrow> int \<times> cons" where
  "sf_write count fd buf n c =
     filewrite count (kprint ''in sf_write: fd: %d, buf: %s, n: %d\<newline>'' [Num fd, Str buf, Num n] c)"

definition sf_close :: "u32 \<Rightarrow> cons \<Rightarrow> int \<times> cons" where
  "sf_close fd c = fileclose (kprint ''in sf_close: fd: %d\<newline>'' [Num fd] c)"

definition sf_stat :: "u8 list \<Rightarrow> cons \<times> sfs \<Rightarrow> (int \<times> sfs_stat \<times> cons \<times> sfs) res" where
  "sf_stat path = (\<lambda>(c, s).
     bnd (sfs_stat_path path s) (\<lambda>(r, st, s1). Inr (r, st, kprint ''in sf_stat: path: %s\<newline>'' [Str path] c, s1)))"

section \<open>Root nodes\<close>

text \<open>
  Both file systems allocate a page for their root node and fill it in; on a machine without a free
  page the node is at address 0. The operations on the file system print what \<^verbatim>\<open>sfs_cat_file\<close> returns.
\<close>

definition sfs_root_open :: "u32 \<Rightarrow> u32 \<Rightarrow> cons \<times> sfs \<Rightarrow> (cons \<times> sfs) res" where
  "sfs_root_open node flag = (\<lambda>(c, s).
     bnd (sfs_node_open node flag s) (\<lambda>(out, s1). Inr (fold put_c out c, s1)))"

definition init_initrd_sfs :: "mm \<Rightarrow> (u32 \<times> (cons \<times> sfs) fs_node \<times> mm) res" where
  "init_initrd_sfs mm =
     (case kalloc_page mm of (p, mm1) \<Rightarrow>
        if p = 0 then Inl (Fault ''init_initrd_sfs: no page'')
        else Inr (p, \<lparr>n_name = chars ''sfs'', n_mask = 0, n_uid = 0, n_gid = 0, n_flags = FS_DIR, n_inode = 0,
                      n_length = 0, n_impl = 0, n_open = Some sfs_root_open, n_close = None, n_read = None,
                      n_write = None, n_readdir = None, n_finddir = None, n_ptr = 0\<rparr>, mm1))"

section \<open>The second extended file system\<close>

definition EXT2_DEV :: u32 where
  "EXT2_DEV = MKDEV (ucast MEM_MAJOR) 0"

abbreviation EXT2_SUPER_MAGIC :: u16 where "EXT2_SUPER_MAGIC \<equiv> 0xEF53"
abbreviation SB_BLOCK :: nat where "SB_BLOCK \<equiv> 2"

text \<open>The block number stays the same in the loop of \<^verbatim>\<open>read_nblocks\<close>.\<close>

primrec ext2_read_nblocks :: "u32 \<Rightarrow> nat \<Rightarrow> bio \<Rightarrow> (u8 list \<times> bio) res" where
  "ext2_read_nblocks sec 0 s = Inr ([], s)"
| "ext2_read_nblocks sec (Suc n) s =
     bnd (dev_read (\<lambda>_. 0) EXT2_DEV sec s) (\<lambda>(b, s1).
       bnd (ext2_read_nblocks sec n s1) (\<lambda>(bs, s2). Inr (b @ bs, s2)))"

definition ext2_read_sb :: "bio \<Rightarrow> (u8 list \<times> bio) res" where
  "ext2_read_sb s = ext2_read_nblocks 2 SB_BLOCK s"

text \<open>The fields of \<^verbatim>\<open>struct ext2_super_block\<close>. The shift takes its count modulo 32, as the processor does.\<close>

definition sb32 :: "nat \<Rightarrow> u8 list \<Rightarrow> u32" where "sb32 off b = of_nat (field off 4 b)"
definition sb16 :: "nat \<Rightarrow> u8 list \<Rightarrow> u16" where "sb16 off b = of_nat (field off 2 b)"

definition shl :: "u32 \<Rightarrow> u32 \<Rightarrow> u32" where
  "shl x n = push_bit (unat (n mod 32)) x"

definition dump_ext2_superblock :: "u8 list \<Rightarrow> cons \<Rightarrow> cons res" where
  "dump_ext2_superblock b c =
     (let c1 = kprint ''superblock Magic = %x\<newline>'' [Num (ucast (sb16 56 b))] (settextcolor 12 0 c)
      in if sb16 56 b \<noteq> EXT2_SUPER_MAGIC then Inl (Panic ''assertion failed: sb_ptr->magic == EXT2_SUPER_MAGIC'')
         else Inr (resettextcolor
           (kprint ''inodes are %d bytes\<newline>'' [Num (ucast (sb16 88 b))]
           (kprint ''and need to be verified after %d mounts\<newline>'' [Num (ucast (sb16 54 b) - ucast (sb16 52 b))]
           (kprint ''mounts %d times since verified, '' [Num (ucast (sb16 52 b))]
           (kprint ''last mount: %x, last write: %x\<newline>'' [Num (sb32 44 b), Num (sb32 48 b)]
           (kprint ''each group has %d blocks, %d fragments or %d inodes\<newline>'' [Num (sb32 32 b), Num (sb32 36 b), Num (sb32 40 b)]
           (kprint ''a frag = %d bytes\<newline>'' [Num (shl 1024 (sb32 28 b))]
           (kprint ''a block = %d bytes, '' [Num (shl 1024 (sb32 24 b))]
           (kprint ''first block start: %d, '' [Num (sb32 20 b)]
           (kprint ''free inodes: %d\<newline>'' [Num (sb32 16 b)]
           (kprint ''free blocks: %d, '' [Num (sb32 12 b)]
           (kprint ''blocks reserved for root: %d\<newline>'' [Num (sb32 8 b)]
           (kprint ''block count: %d, '' [Num (sb32 4 b)]
           (kprint ''inodes count: %d, '' [Num (sb32 0 b)] c1)))))))))))))))"

definition ext2_cat_file :: "u8 list \<Rightarrow> cons \<Rightarrow> cons" where
  "ext2_cat_file file c =
     resettextcolor (kprint ''From function ext2_cat_file(): file = %s\<newline>'' [Str file] (settextcolor 15 0 c))"

definition ext2_obtain_sb_info :: "cons \<times> bio \<Rightarrow> (u8 list \<times> cons \<times> bio) res" where
  "ext2_obtain_sb_info = (\<lambda>(c, s).
     bnd (ext2_read_sb s) (\<lambda>(sb, s1). bnd (dump_ext2_superblock sb c) (\<lambda>c1. Inr (sb, c1, s1))))"

text \<open>The calls that are not implemented: an unassigned variable is the argument \<open>count\<close>.\<close>

definition ext2_read :: "int \<Rightarrow> int \<Rightarrow> int" where
  "ext2_read count fd = (if int SFS_NOFILE \<le> fd then - 1 else count)"

definition ext2_write :: "int \<Rightarrow> cons \<Rightarrow> int \<times> cons" where
  "ext2_write count c = (count, kprint ''In write\<newline>'' [] c)"

definition ext2_close :: "cons \<Rightarrow> int \<times> cons" where
  "ext2_close c = (0, kprint ''In close\<newline>'' [] c)"

definition fs_ext2_open :: "u32 \<Rightarrow> u32 \<Rightarrow> cons \<times> bio \<Rightarrow> (cons \<times> bio) res" where
  "fs_ext2_open node flag = (\<lambda>(c, s). Inr (ext2_cat_file (chars ''etc/motd'') c, s))"

definition fs_ext2_close :: "u32 \<Rightarrow> cons \<times> bio \<Rightarrow> (cons \<times> bio) res" where
  "fs_ext2_close node s = Inr s"

definition fs_ext2_read :: "u32 \<Rightarrow> u32 \<Rightarrow> u32 \<Rightarrow> u32 \<Rightarrow> cons \<times> bio \<Rightarrow> (u32 \<times> cons \<times> bio) res" where
  "fs_ext2_read node fd n buf s = Inr (0, s)"

definition fs_ext2_write :: "u32 \<Rightarrow> u32 \<Rightarrow> u32 \<Rightarrow> u32 \<Rightarrow> cons \<times> bio \<Rightarrow> (u32 \<times> cons \<times> bio) res" where
  "fs_ext2_write node fd n buf s = Inr (0, s)"

definition init_ext2 :: "mm \<Rightarrow> cons \<times> bio \<Rightarrow> (u32 \<times> (cons \<times> bio) fs_node \<times> mm \<times> cons \<times> bio) res" where
  "init_ext2 mm s =
     (case kalloc_page mm of (p, mm1) \<Rightarrow>
        if p = 0 then Inl (Fault ''init_ext2: no page'')
        else bnd (ext2_obtain_sb_info s) (\<lambda>(sb, c, b).
          Inr (p, \<lparr>n_name = chars ''ext2'', n_mask = 0, n_uid = 0, n_gid = 0, n_flags = FS_DIR, n_inode = 0,
                   n_length = 0, n_impl = 0, n_open = Some fs_ext2_open, n_close = Some fs_ext2_close,
                   n_read = Some fs_ext2_read, n_write = Some fs_ext2_write, n_readdir = None, n_finddir = None,
                   n_ptr = 0\<rparr>, mm1, ext2_cat_file (chars ''README'') c, b)))"

section \<open>The superblock that is read\<close>

lemma ext2_read_nblocks_spec:
  assumes "ram_ok (ucast EXT2_DEV) s" and "sec < disksize s"
  shows "\<exists>s'. ext2_read_nblocks sec n s = Inr (concat (replicate n (sector s sec)), s') \<and>
    ram_ok (ucast EXT2_DEV) s' \<and> sector s' = sector s \<and> disksize s' = disksize s"
  using assms
proof (induction n arbitrary: s)
  case (Suc n)
  have "ucast (ucast EXT2_DEV :: u16) = EXT2_DEV" by (simp add: EXT2_DEV_def MKDEV_def)
  with ramdev.rdE [OF Suc.prems, of "\<lambda>_. 0"] obtain s1 where "dev_read (\<lambda>_. 0) EXT2_DEV sec s = Inr (sector s sec, s1)"
    "ram_ok (ucast EXT2_DEV) s1" "sector s1 = sector s" "disksize s1 = disksize s" by metis
  then show ?case using Suc.IH [of s1] Suc.prems(2) by auto
qed simp

end
