(* ===== verification/Drv_Keyboard.thy ===== *)
theory Drv_Keyboard
  imports Drv_Console
begin

text \<open>
  The keyboard driver \<^verbatim>\<open>drv/keyboard.c\<close> with \<^verbatim>\<open>inc/kbd.h\<close>: the scan code tables, the decoder
  \<^verbatim>\<open>read_kbd\<close> with its modifier flags, and the interrupt handler that feeds the console. The state of
  the decoder is its flag word and the scan codes waiting in the controller.
\<close>

abbreviation SHIFT :: u32 where "SHIFT \<equiv> 1"
abbreviation CTL :: u32 where "CTL \<equiv> 2"
abbreviation ALT :: u32 where "ALT \<equiv> 4"
abbreviation CAPSLOCK :: u32 where "CAPSLOCK \<equiv> 8"
abbreviation NUMLOCK :: u32 where "NUMLOCK \<equiv> 16"
abbreviation SCROLLLOCK :: u32 where "SCROLLLOCK \<equiv> 32"
abbreviation E0ESC :: u32 where "E0ESC \<equiv> 64"

section \<open>The tables\<close>

text \<open>\<^verbatim>\<open>F10\<close> is 0xF10 and keeps its low byte only.\<close>

definition norm_map :: "u8 list" where
  "norm_map =
     [0, 0, 49, 50, 51, 52, 53, 54,
      55, 56, 57, 48, 45, 61, 8, 9,
      113, 119, 101, 114, 116, 121, 117, 105,
      111, 112, 91, 93, 10, 0, 97, 115,
      100, 102, 103, 104, 106, 107, 108, 59,
      39, 96, 0, 92, 122, 120, 99, 118,
      98, 110, 109, 44, 46, 47, 0, 42,
      0, 32, 0, 0xF1, 0xF2, 0xF3, 0xF4, 0xF5,
      0xF6, 0xF7, 0xF8, 0xF9, 0xF10]
     @ replicate 59 0"

definition shift_map :: "u8 list" where
  "shift_map =
     [0, 0, 33, 64, 35, 36, 37, 94,
      38, 42, 40, 41, 95, 43, 8, 9,
      81, 87, 69, 82, 84, 89, 85, 73,
      79, 80, 123, 125, 10, 0, 65, 83,
      68, 70, 71, 72, 74, 75, 76, 58,
      34, 126, 0, 124, 90, 88, 67, 86,
      66, 78, 77, 60, 62, 63, 0, 42,
      0, 32]
     @ replicate 70 0"

definition C :: "u8 \<Rightarrow> u8" where
  "C x = x - 64"

definition ctrl_map :: "u8 list" where
  "ctrl_map =
     [0, 0, 0, 0, 0, 0, 0, 0,
      0, 0, 0, 0, 0, 0, 0, 0,
      C 81, C 87, C 69, C 82, C 84, C 89, C 85, C 73,
      C 79, C 80, 0, 0, 13, 0, C 65, C 83,
      C 68, C 70, C 71, C 72, C 74, C 75, C 76, 0,
      0, 0, 0, C 92, C 90, C 88, C 67, C 86,
      C 66, C 78, C 77, 0, 0, C 47, 0, 0]
     @ replicate 72 0"

definition e0_map :: "u8 list" where
  "e0_map = (replicate 128 0)
     [0x1C := 10, 0x1D := 0xEC, 0x35 := 47, 0x38 := 0xED, 0x48 := 0xE2, 0x47 := 0xE0, 0x49 := 0xE6,
      0x4B := 0xE4, 0x4D := 0xE5, 0x4F := 0xE1, 0x50 := 0xE3, 0x51 := 0xE7, 0x52 := 0xE8, 0x53 := 0xE9,
      0x5B := 0xEA, 0x5C := 0xEB]"

definition shiftmap :: "u32 list" where
  "shiftmap = (replicate 128 0)[0x1D := CTL, 0x2A := SHIFT, 0x36 := SHIFT, 0x38 := ALT]"

definition togglemap :: "u32 list" where
  "togglemap = (replicate 128 0)[0x3A := CAPSLOCK, 0x45 := NUMLOCK, 0x46 := SCROLLLOCK]"

definition kb_map :: "u8 list list" where
  "kb_map = [norm_map, shift_map, ctrl_map, ctrl_map]"

section \<open>The decoder\<close>

text \<open>The test of the lock key on the signed \<^verbatim>\<open>char\<close> \<^verbatim>\<open>val\<close>.\<close>

definition caps :: "u8 \<Rightarrow> u8" where
  "caps v =
     (if 97 \<le> sint v \<and> sint v \<le> 122 then v + (65 - 97)
      else if 65 \<le> sint v \<and> sint v \<le> 90 then v + (97 - 65)
      else v)"

fun read_kbd :: "u32 \<times> u8 list \<Rightarrow> int \<times> (u32 \<times> u8 list)" where
  "read_kbd (flag, []) = (- 1, (flag, []))"
| "read_kbd (flag, sc # scs) =
     (let sc' = unat (sc AND 0x7f)
      in if sc = 0xE0 then (0, (flag OR E0ESC, scs))
         else if sc AND 0x80 \<noteq> 0 then (0, (flag AND NOT (shiftmap ! sc' OR E0ESC), scs))
         else let e0_flag = flag AND E0ESC \<noteq> 0;
                  flag1 = (if e0_flag then flag AND NOT E0ESC else flag);
                  flag2 = (flag1 OR shiftmap ! sc') XOR togglemap ! sc'
              in if e0_flag then (uint (e0_map ! sc'), (flag2, scs))
                 else let val = kb_map ! unat (flag2 AND (CTL OR SHIFT)) ! sc';
                          val1 = (if flag2 AND CAPSLOCK \<noteq> 0 then caps val else val)
                      in (sint val1, (flag2, scs)))"

text \<open>\<open>p61\<close> and \<open>imr\<close> are what the ports 0x61 and 0x21 read as.\<close>

definition keyboard_isr :: "u8 \<Rightarrow> u32 \<times> u8 list \<Rightarrow> cons \<Rightarrow> ((u32 \<times> u8 list) \<times> cons) option" where
  "keyboard_isr p61 k s =
     (case console_isr read_kbd k s of
        None \<Rightarrow> None
      | Some (k', s') \<Rightarrow>
          Some (k', cons_outb 0x20 0x20 (cons_outb 0x61 (p61 AND 0x7f) (cons_outb 0x61 (p61 OR 0x80) s'))))"

definition init_keyboard :: "u8 \<Rightarrow> cons \<Rightarrow> cons" where
  "init_keyboard imr s = cons_outb 0x21 (imr AND 0xfd) s"

section \<open>Decoding a sequence of scan codes\<close>

text \<open>The tables are checked entry by entry.\<close>

lemma length_maps:
  "length norm_map = 128" "length shift_map = 128" "length ctrl_map = 128" "length e0_map = 128"
  "length shiftmap = 128" "length togglemap = 128"
  by (simp_all add: norm_map_def shift_map_def ctrl_map_def e0_map_def shiftmap_def togglemap_def)

lemma no_minus_one: "list_all (list_all (\<lambda>v. v \<noteq> 0xFF \<and> caps v \<noteq> 0xFF)) kb_map"
  by code_simp

lemma char_keys:
  "list_all (\<lambda>n. norm_map ! n \<noteq> 0 \<or> shift_map ! n \<noteq> 0 \<longrightarrow> shiftmap ! n = 0 \<and> togglemap ! n = 0 \<and> n \<noteq> 0x60) [0..<128]"
  by code_simp

lemma code_bits:
  "list_all (\<lambda>n. (of_nat n :: u8) AND 0x80 = 0 \<and> (of_nat n OR 0x80 :: u8) AND 0x80 \<noteq> 0 \<and>
     unat ((of_nat n :: u8) AND 0x7f) = n \<and> unat ((of_nat n OR 0x80 :: u8) AND 0x7f) = n \<and>
     (of_nat n :: u8) \<noteq> 0xE0 \<and> (n \<noteq> 0x60 \<longrightarrow> (of_nat n OR 0x80 :: u8) \<noteq> 0xE0)) [0..<128]"
  by code_simp

lemma code_bitsD:
  assumes "n < 128"
  shows "(of_nat n :: u8) AND 0x80 = 0" and "(of_nat n OR 0x80 :: u8) AND 0x80 \<noteq> 0"
    and "unat ((of_nat n :: u8) AND 0x7f) = n" and "unat ((of_nat n OR 0x80 :: u8) AND 0x7f) = n"
    and "(of_nat n :: u8) \<noteq> 0xE0" and "n \<noteq> 0x60 \<Longrightarrow> (of_nat n OR 0x80 :: u8) \<noteq> 0xE0"
  using code_bits assms by (simp_all only: list_all_iff set_upt atLeastLessThan_iff) simp_all

primrec kbd_run :: "u32 \<Rightarrow> u8 list \<Rightarrow> u32 \<times> u8 list" where
  "kbd_run flag [] = (flag, [])"
| "kbd_run flag (sc # scs) =
     (case read_kbd (flag, [sc]) of (c, (flag', _)) \<Rightarrow>
        case kbd_run flag' scs of (flag'', bs) \<Rightarrow> (flag'', word_of_int c # bs))"

lemma kbd_run_append:
  "kbd_run flag (xs @ ys) =
     (case kbd_run flag xs of (f1, bs1) \<Rightarrow> case kbd_run f1 ys of (f2, bs2) \<Rightarrow> (f2, bs1 @ bs2))"
  by (induction xs arbitrary: flag) (auto split: prod.splits)

lemma read_kbd_one:
  assumes "read_kbd (flag, [sc]) = (c, (flag', r))"
  shows "read_kbd (flag, sc # scs) = (c, (flag', scs))"
  using assms by (auto simp: Let_def split: if_splits)

lemma kb_val: "kb_map ! unat ((f :: u32) AND (CTL OR SHIFT)) ! unat (sc AND 0x7f :: u8) \<noteq> 0xFF"
  "caps (kb_map ! unat (f AND (CTL OR SHIFT)) ! unat (sc AND 0x7f)) \<noteq> 0xFF"
proof -
  have "f AND 3 \<le> 3" by (rule word_and_le1)
  then have i: "unat (f AND (CTL OR SHIFT)) < length kb_map" by (simp add: kb_map_def word_le_nat_alt)
  have "sc AND 0x7f \<le> 0x7f" by (rule word_and_le1)
  then have j: "unat (sc AND 0x7f) < 128" by (simp add: word_le_nat_alt)
  have "length m = 128" if "m \<in> set kb_map" for m using that by (auto simp: kb_map_def length_maps)
  with i j have "kb_map ! unat (f AND (CTL OR SHIFT)) ! unat (sc AND 0x7f)
      \<in> set (kb_map ! unat (f AND (CTL OR SHIFT)))" by simp
  with i no_minus_one show "kb_map ! unat (f AND (CTL OR SHIFT)) ! unat (sc AND 0x7f) \<noteq> 0xFF"
    "caps (kb_map ! unat (f AND (CTL OR SHIFT)) ! unat (sc AND 0x7f)) \<noteq> 0xFF"
    unfolding list_all_iff using nth_mem by blast+
qed

text \<open>A scan code never decodes to -1, which would end the loop of \<^verbatim>\<open>console_isr\<close> early.\<close>

lemma sint_not_minus_one: "(v :: u8) \<noteq> 0xFF \<Longrightarrow> sint v \<noteq> - 1"
proof
  assume "v \<noteq> 0xFF" and m: "sint v = - 1"
  have "v = of_int (sint v)" by simp
  also have "\<dots> = 0xFF" unfolding m by simp
  finally show False using \<open>v \<noteq> 0xFF\<close> by blast
qed

lemma read_kbd_range:
  assumes "read_kbd (flag, [sc]) = (c, k)"
  shows "c \<noteq> - 1" and "c = 0 \<longleftrightarrow> (word_of_int c :: u8) = 0"
proof -
  have u: "uint v \<noteq> - 1" for v :: u8 using uint_nonnegative [of v] by linarith
  show "c \<noteq> - 1" using assms u kb_val sint_not_minus_one
    by (auto simp: Let_def split: if_splits)
  have "c = 0 \<or> (\<exists>v :: u8. c = uint v) \<or> (\<exists>v :: u8. c = sint v)"
    using assms by (auto simp: Let_def split: if_splits)
  then show "c = 0 \<longleftrightarrow> (word_of_int c :: u8) = 0" by (auto simp: uint_0_iff)
qed

lemma console_isr_kbd:
  "console_isr read_kbd (flag, scs) s =
     Some ((fst (kbd_run flag scs), []), fold feed (snd (kbd_run flag scs)) s)"
proof (induction scs arbitrary: flag s)
  case Nil
  show ?case by (simp add: console_isr.simps)
next
  case (Cons sc scs)
  obtain c flag' r where r: "read_kbd (flag, [sc]) = (c, (flag', r))" by (metis prod.exhaust)
  note rk = read_kbd_range [OF r] read_kbd_one [OF r, of scs]
  have "sint (word_of_int c :: u8) \<le> 127" using sint_less [of "word_of_int c :: u8"] by simp
  with rk Cons.IH show ?case
    unfolding console_isr.simps [of _ "(flag, sc # scs)"]
    by (simp del: read_kbd.simps add: r feed_def Let_def split: prod.splits)
qed

section \<open>Typing a text\<close>

text \<open>
  The scan codes of a person typing a character: the key whose unshifted character it is, pressed and
  released, or the key whose shifted character it is while the left shift key is down.
\<close>

definition key_of :: "u8 \<Rightarrow> u8 list \<Rightarrow> u8" where
  "key_of c m = of_nat (length (takeWhile (\<lambda>x. x \<noteq> c) m))"

definition keystrokes :: "u8 \<Rightarrow> u8 list" where
  "keystrokes c =
     (if c \<in> set norm_map then [key_of c norm_map, key_of c norm_map OR 0x80]
      else [0x2A, key_of c shift_map, key_of c shift_map OR 0x80, 0xAA])"

definition typeable :: "u8 \<Rightarrow> bool" where
  "typeable c \<longleftrightarrow> c \<noteq> 0 \<and> c \<in> set norm_map \<union> set shift_map"

definition typed :: "u32 \<Rightarrow> u8 \<Rightarrow> u8" where
  "typed flag c = (if flag AND CAPSLOCK \<noteq> 0 then caps c else c)"

lemma key_pos:
  assumes "c \<in> set m" and "length m = 128"
  obtains n where "n < 128" and "key_of c m = of_nat n" and "m ! n = c"
proof
  have "length (takeWhile (\<lambda>x. x \<noteq> c) m) < length m"
    using assms(1) by (induction m) auto
  then show "length (takeWhile (\<lambda>x. x \<noteq> c) m) < 128" "m ! length (takeWhile (\<lambda>x. x \<noteq> c) m) = c"
    using assms(2) nth_length_takeWhile [of "\<lambda>x. x \<noteq> c" m] by auto
qed (simp add: key_of_def)

lemma press:
  assumes "n < 128" and "shiftmap ! n = 0" and "togglemap ! n = 0" and "flag AND E0ESC = 0"
  shows "read_kbd (flag, [of_nat n]) =
    (sint (typed flag (kb_map ! unat (flag AND (CTL OR SHIFT)) ! n)), (flag, []))"
  using assms code_bitsD [OF assms(1)] by (simp add: Let_def typed_def)

lemma release:
  assumes "n < 128" and "n \<noteq> 0x60"
  shows "read_kbd (flag, [of_nat n OR 0x80]) = (0, (flag AND NOT (shiftmap ! n OR E0ESC), []))"
  using code_bitsD [OF assms(1)] assms(2) by (simp add: Let_def)

lemma char_keysD:
  assumes "n < 128" and "norm_map ! n \<noteq> 0 \<or> shift_map ! n \<noteq> 0"
  shows "shiftmap ! n = 0" and "togglemap ! n = 0" and "n \<noteq> 0x60"
  using char_keys assms by (simp_all only: list_all_iff set_upt atLeastLessThan_iff) simp_all

text \<open>The flag word with no shift, no control and no escape prefix.\<close>

definition plain :: "u32 \<Rightarrow> bool" where
  "plain flag \<longleftrightarrow> flag AND (SHIFT OR CTL OR E0ESC) = 0"

lemma bits_of_kbd_flags:
  "bit (1 :: u32) n \<longleftrightarrow> n = 0" "bit (8 :: u32) n \<longleftrightarrow> n = 3" "bit (64 :: u32) n \<longleftrightarrow> n = 6"
  "bit (3 :: u32) n \<longleftrightarrow> n = 0 \<or> n = 1" "bit (65 :: u32) n \<longleftrightarrow> n = 0 \<or> n = 6"
  "bit (67 :: u32) n \<longleftrightarrow> n = 0 \<or> n = 1 \<or> n = 6"
proof -
  show b: "bit (1 :: u32) n \<longleftrightarrow> n = 0" by (simp add: bit_1_iff)
  have b2: "bit (2 :: u32) n \<longleftrightarrow> n = 1" by (auto simp: bit_2_iff)
  show "bit (8 :: u32) n \<longleftrightarrow> n = 3" using bit_exp_iff [of 3 n, where ?'a = "32 word"] by auto
  show b64: "bit (64 :: u32) n \<longleftrightarrow> n = 6" using bit_exp_iff [of 6 n, where ?'a = "32 word"] by auto
  have "(3 :: u32) = 1 OR 2" "(65 :: u32) = 1 OR 64" "(67 :: u32) = 1 OR 2 OR 64" by simp_all
  then show "bit (3 :: u32) n \<longleftrightarrow> n = 0 \<or> n = 1" "bit (65 :: u32) n \<longleftrightarrow> n = 0 \<or> n = 6"
    "bit (67 :: u32) n \<longleftrightarrow> n = 0 \<or> n = 1 \<or> n = 6"
    by (simp_all only: bit_or_iff b b2 b64)
qed

lemma bit_u32_less: "bit (w :: u32) n \<Longrightarrow> n < 32"
  using bit_imp_le_length [of w n] by simp

lemma plain_flag:
  assumes "plain flag"
  shows "flag AND 64 = 0" and "flag AND 3 = 0" and "(flag OR 1) AND 64 = 0" and "(flag OR 1) AND 3 = 1"
    and "(flag OR 1) AND 8 = flag AND 8"
    and "flag AND NOT 64 = flag" and "(flag OR 1) AND NOT 64 = flag OR 1" and "(flag OR 1) AND NOT 65 = flag"
proof -
  have "\<not> bit (flag AND 67) 0" "\<not> bit (flag AND 67) 1" "\<not> bit (flag AND 67) 6"
    using assms by (simp_all add: plain_def)
  then have p: "\<not> bit flag 0" "\<not> bit flag 1" "\<not> bit flag 6"
    unfolding bit_and_iff bits_of_kbd_flags by auto
  have n: "bit (NOT w) n \<longleftrightarrow> n < 32 \<and> \<not> bit w n" for w :: u32 and n
    by (simp add: bit_not_iff)
  note b = bit_and_iff bit_or_iff n bits_of_kbd_flags bit_0_eq bot_apply bot_bool_def
  show "flag AND 64 = 0" using p by (intro bit_eqI) (auto simp only: b)
  show "flag AND 3 = 0" using p by (intro bit_eqI) (auto simp only: b)
  show "(flag OR 1) AND 64 = 0" using p by (intro bit_eqI) (auto simp only: b)
  show "(flag OR 1) AND 3 = 1" using p by (intro bit_eqI) (auto simp only: b)
  show "(flag OR 1) AND 8 = flag AND 8" by (intro bit_eqI) (auto simp only: b)
  show "flag AND NOT 64 = flag" using p by (intro bit_eqI) (auto simp only: b dest: bit_u32_less)
  show "(flag OR 1) AND NOT 64 = flag OR 1" using p by (intro bit_eqI) (auto simp only: b dest: bit_u32_less)
  show "(flag OR 1) AND NOT 65 = flag" using p by (intro bit_eqI) (auto simp only: b dest: bit_u32_less)
qed

lemma kbd_run_keystrokes:
  assumes "plain flag" and "typeable c"
  shows "fst (kbd_run flag (keystrokes c)) = flag"
    and "filter (\<lambda>b. b \<noteq> 0) (snd (kbd_run flag (keystrokes c))) = [typed flag c]"
proof -
  have "c + 32 = 0 \<Longrightarrow> sint c = - 32" using eq_neg_iff_add_eq_0 [of c 32] by simp
  then have t: "typed flag c \<noteq> 0" using assms(2) by (auto simp: typed_def caps_def typeable_def)
  note p = plain_flag [OF assms(1)]
  have tab: "shiftmap ! 42 = 1" "togglemap ! 42 = 0" "kb_map ! 1 ! 42 = 0" by code_simp+
  have shift: "read_kbd (flag, [0x2A]) = (0, (flag OR 1, []))"
    using p tab by (simp add: Let_def caps_def)
  have unshift: "read_kbd (flag OR 1, [0xAA]) = (0, (flag, []))"
    using p release [of 42 "flag OR 1"] by (simp add: tab)
  have "fst (kbd_run flag (keystrokes c)) = flag \<and>
    filter (\<lambda>b. b \<noteq> 0) (snd (kbd_run flag (keystrokes c))) = [typed flag c]"
  proof (cases "c \<in> set norm_map")
    case True
    then obtain n where n: "n < 128" "key_of c norm_map = of_nat n" "norm_map ! n = c"
      using key_pos length_maps by metis
    then have k: "shiftmap ! n = 0" "togglemap ! n = 0" "n \<noteq> 0x60"
      using char_keysD [of n] assms(2) by (auto simp: typeable_def)
    show ?thesis
      using True n k press [OF n(1) k(1,2) p(1)] release [OF n(1) k(3), of flag] p t
      by (simp del: read_kbd.simps add: keystrokes_def kb_map_def)
  next
    case False
    then obtain n where n: "n < 128" "key_of c shift_map = of_nat n" "shift_map ! n = c"
      using key_pos length_maps assms(2) unfolding typeable_def by (metis UnE)
    then have k: "shiftmap ! n = 0" "togglemap ! n = 0" "n \<noteq> 0x60"
      using char_keysD [of n] assms(2) by (auto simp: typeable_def)
    show ?thesis
      using False n k press [OF n(1) k(1,2) p(3)] release [OF n(1) k(3), of "flag OR 1"] p t
        shift unshift
      by (simp del: read_kbd.simps add: keystrokes_def kb_map_def typed_def)
  qed
  then show "fst (kbd_run flag (keystrokes c)) = flag"
    "filter (\<lambda>b. b \<noteq> 0) (snd (kbd_run flag (keystrokes c))) = [typed flag c]" by simp_all
qed

lemma kbd_run_text:
  "plain flag \<Longrightarrow> list_all typeable cs \<Longrightarrow>
   fst (kbd_run flag (concat (map keystrokes cs))) = flag \<and>
   filter (\<lambda>b. b \<noteq> 0) (snd (kbd_run flag (concat (map keystrokes cs)))) = map (typed flag) cs"
  by (induction cs) (auto simp: kbd_run_append kbd_run_keystrokes split: prod.splits
      dest!: kbd_run_keystrokes simp: prod_eq_iff)

section \<open>Properties\<close>



end
