(* ===== verification/Kern_Exec.thy ===== *)
theory Kern_Exec
  imports Kern_Heap Kern_Clock Kern_Tools Fs_Vfs Drv_Keyboard
begin

text \<open>
  The kernel as system calls see it, and \<^verbatim>\<open>exec\<close> (\<^verbatim>\<open>kern/exec.c\<close>): tasks and memory, the console, the file system, the
  clock and the keyboard in one state. Addresses a user program passes are translated by the page directory that is
  loaded; an address that is not mapped is a page fault, after which the kernel stops.
\<close>

section \<open>The state and user memory\<close>

record ksys =
  sk :: kst
  sc :: cons
  sf :: sfs
  ck :: clk
  kbd :: "u32 \<times> u8 list"

definition udir :: "kst \<Rightarrow> u32" where
  "udir s = P2V (cr3 (km s))"

definition uget :: "u32 \<Rightarrow> kst \<Rightarrow> u8 res" where
  "uget a s =
     (if present (entry (kmem s) (udir s) a) then Inr (kmem s (uaddr (kmem s) (udir s) a)) else Inl (Fault ''page fault''))"

primrec ureads :: "u32 \<Rightarrow> nat \<Rightarrow> kst \<Rightarrow> u8 list res" where
  "ureads a 0 s = Inr []"
| "ureads a (Suc n) s = bnd (uget a s) (\<lambda>b. bnd (ureads (a + 1) n s) (\<lambda>bs. Inr (b # bs)))"

definition uread32 :: "u32 \<Rightarrow> kst \<Rightarrow> u32 res" where
  "uread32 a s = bnd (ureads a 4 s) (\<lambda>bs. Inr (of_nat (le_nat bs)))"

partial_function (option) ustr_loop :: "u32 \<Rightarrow> u8 list \<Rightarrow> kst \<Rightarrow> u8 list res option" where
  "ustr_loop a acc s =
     (case uget a s of
        Inl e \<Rightarrow> Some (Inl e)
      | Inr b \<Rightarrow> if b = 0 then Some (Inr acc) else ustr_loop (a + 1) (acc @ [b]) s)"

definition ustr :: "u32 \<Rightarrow> kst \<Rightarrow> u8 list res" where
  "ustr a s = ended ''string without end'' (ustr_loop a [] s)"

definition uwrites :: "u32 \<Rightarrow> u8 list \<Rightarrow> kst \<Rightarrow> kst res" where
  "uwrites a bs s = bnd (user_write (udir s) a bs (km s)) (\<lambda>m. Inr (s\<lparr>km := m\<rparr>))"

text \<open>What the file system stores at a user address goes through the same translation.\<close>

definition uview :: "kst \<Rightarrow> mem" where
  "uview s = (\<lambda>v. kmem s (uaddr (kmem s) (udir s) v))"

section \<open>\<open>exec\<close>\<close>

abbreviation MAXARGS :: nat where "MAXARGS \<equiv> 16"
abbreviation ELF_SIZE :: nat where "ELF_SIZE \<equiv> 52"

text \<open>\<^verbatim>\<open>copyout\<close> from bytes that are read through the loaded directory.\<close>

function copyout_bytes :: "u32 \<Rightarrow> u32 \<Rightarrow> u8 list \<Rightarrow> mm \<Rightarrow> (int \<times> mm) res" where
  "copyout_bytes pgdir va bs s =
     (if bs = [] then Inr (0, s)
      else let va0 = PGROUNDDOWN va in
        bnd (uva2ka pgdir va0 s) (\<lambda>pa0.
          if pa0 = 0 then Inr (- 1, s)
          else let n = unat (PGSIZE - (va - va0)) in
            copyout_bytes pgdir (va0 + PGSIZE) (drop n bs) (s\<lparr>mem := poke (mem s) (pa0 + (va - va0)) (take n bs)\<rparr>)))"
  by pat_completeness auto
termination copyout_bytes
proof (relation "measure (\<lambda>(pgdir, va, bs, s). length bs)"; clarsimp)
  fix va :: u32 and bs :: "u8 list"
  assume "bs \<noteq> []"
  moreover have "0 < (4096 :: u32) - (va - PGROUNDDOWN va)"
    using page_offset_less [of va] by (simp add: word_gt_0 eq_diff_eq)
  ultimately show "length bs - unat (4096 - (va - PGROUNDDOWN va)) < length bs"
    by (simp add: unat_gt_0 word_gt_0)
qed

declare copyout_bytes.simps [simp del]

definition cur :: "ksys \<Rightarrow> nat res" where
  "cur s = (case current (sk s) of None \<Rightarrow> Inl (Fault ''current is NULL'') | Some c \<Rightarrow> Inr c)"

definition show_args :: "u8 list \<Rightarrow> u8 list list \<Rightarrow> cons \<Rightarrow> cons" where
  "show_args path args c =
     kprint ''argc = %d\<newline><<<\<newline>'' [Num (of_nat (length args))]
       (fold (\<lambda>i. kprint ''arg%d: %s\<newline>'' [Num (of_nat (i + 1)), Str (args ! i)]) [0..<length args]
         (kprint ''>>>\<newline>path = %s\<newline>'' [Str path] c))"

text \<open>
  The failure path. Before \<^verbatim>\<open>mapkvm\<close> has been called \<^verbatim>\<open>pgdir\<close> holds what the stack held: \<open>pgdir\<close> is then a parameter.
\<close>

definition exec_fail :: "u32 \<Rightarrow> ksys \<Rightarrow> (int \<times> ksys) res" where
  "exec_fail pgdir s =
     (let s1 = s\<lparr>sc := kprint ''Error! exec() failed\<newline>'' [] (sc s)\<rparr>
      in if pgdir = 0 then Inr (- 1, s1)
         else bnd (free_vm pgdir (km (sk s1))) (\<lambda>m. Inr (- 1, s1\<lparr>sk := (sk s1)\<lparr>km := m\<rparr>\<rparr>)))"

text \<open>One segment: room for it in the address space of the caller, its bytes and zeros, and its first page copied.\<close>

definition exec_segment :: "nat \<Rightarrow> u32 \<Rightarrow> u32 \<Rightarrow> u32 \<Rightarrow> kst \<Rightarrow> (u32 option \<times> kst) res" where
  "exec_segment c pgdir fp ph s =
     bnd (uread32 ph s) (\<lambda>ty.
       if ty \<noteq> ELF_PROG_LOAD then Inr (None, s)
       else bnd (uread32 (ph + 4) s) (\<lambda>off. bnd (uread32 (ph + 8) s) (\<lambda>va.
            bnd (uread32 (ph + 16) s) (\<lambda>fsz. bnd (uread32 (ph + 20) s) (\<lambda>msz.
            bnd (region_alloc (t_pgdir (tget s c)) va msz (PTE_W OR PTE_U) (km s)) (\<lambda>m1.
            let s1 = s\<lparr>km := m1\<rparr>
            in bnd (ureads (fp + off) (unat fsz) s1) (\<lambda>bs.
               bnd (uwrites va bs s1) (\<lambda>s2.
               bnd (uwrites (va + fsz) (replicate (unat (msz - fsz)) 0) s2) (\<lambda>s3.
               bnd (copy_page (t_pgdir (tget s3 c)) pgdir va (km s3)) (\<lambda>(r, m4).
               Inr (Some (va + msz), s3\<lparr>km := m4\<rparr>)))))))))))"

text \<open>The loop compares pointers: a table that runs over the end of the address space is not read at all.\<close>

definition ph_count :: "u32 \<Rightarrow> u16 \<Rightarrow> nat" where
  "ph_count ph n = (if ph < ph + 32 * ucast n then unat n else 0)"

primrec exec_segments :: "nat \<Rightarrow> u32 \<Rightarrow> u32 \<Rightarrow> nat \<Rightarrow> u32 \<Rightarrow> u32 \<Rightarrow> kst \<Rightarrow> (u32 \<times> kst) res" where
  "exec_segments c pgdir fp 0 ph rg s = Inr (rg, s)"
| "exec_segments c pgdir fp (Suc k) ph rg s =
     bnd (exec_segment c pgdir fp ph s) (\<lambda>(off, s1).
       exec_segments c pgdir fp k (ph + 32)
         (case off of None \<Rightarrow> rg | Some v \<Rightarrow> if v \<le> rg then rg else v) s1)"

text \<open>The arguments on the new stack: \<open>None\<close> when \<^verbatim>\<open>copyout\<close> fails or there are too many.\<close>

fun exec_args :: "u32 \<Rightarrow> nat \<Rightarrow> u32 \<Rightarrow> u32 list \<Rightarrow> u32 list \<Rightarrow> kst \<Rightarrow> ((u32 \<times> u32 list) option \<times> kst) res" where
  "exec_args dir argc sp ustack [] s = Inr (Some (sp, ustack), s)"
| "exec_args dir argc sp ustack (p # ps) s =
     (if MAXARGS \<le> argc then Inr (None, s)
      else bnd (ustr p s) (\<lambda>str.
           let sp1 = (sp - (of_nat (length str) + 1)) AND NOT 3
           in bnd (ureads p (length str + 1) s) (\<lambda>bs.
              bnd (copyout_bytes dir sp1 bs (km s)) (\<lambda>(r, m1).
              let s1 = s\<lparr>km := m1\<rparr>
              in if r < 0 then Inr (None, s1) else exec_args dir (argc + 1) sp1 (ustack @ [sp1]) ps s1))))"

definition word_bytes :: "u32 list \<Rightarrow> u8 list" where
  "word_bytes ws = concat (map (\<lambda>w. to_le 4 (unat w)) ws)"

text \<open>The last part: the frame of \<^verbatim>\<open>main\<close>, two pages copied, and the switch to the new address space.\<close>

definition exec_switch :: "nat \<Rightarrow> u32 \<Rightarrow> u32 \<Rightarrow> u32 \<Rightarrow> u32 \<Rightarrow> kst \<Rightarrow> kst res" where
  "exec_switch c pgdir entry_pt sp rg s =
     bnd (copy_page (t_pgdir (tget s c)) pgdir (USTACKTOP - PGSIZE) (km s)) (\<lambda>(_, m1).
     bnd (copy_page (t_pgdir (tget s c)) pgdir HEAP_START m1) (\<lambda>(_, m2).
     let old = t_pgdir (tget s c);
         s1 = tupd c (\<lambda>t. t\<lparr>t_pgdir := pgdir\<rparr>) (s\<lparr>km := m2\<rparr>)
     in bnd (free_vm old (km s1)) (\<lambda>m3.
        let s2 = set_tf c TF_ESP sp (set_tf c TF_EIP entry_pt (s1\<lparr>km := m3\<rparr>))
        in Inr (set_cr3 (t_pgdir (tget s2 c)) (tupd c (\<lambda>t. t\<lparr>t_sz := rg\<rparr>) s2)))))"

definition exec_stack :: "nat \<Rightarrow> u32 \<Rightarrow> u32 \<Rightarrow> u32 \<Rightarrow> u32 list \<Rightarrow> ksys \<Rightarrow> (int \<times> ksys) res" where
  "exec_stack c pgdir entry_pt rg argv s =
     (let dir = t_pgdir (tget (sk s) c)
      in bnd (region_alloc dir (USTACKTOP - PGSIZE) PGSIZE (PTE_W OR PTE_U) (km (sk s))) (\<lambda>m1.
         bnd (exec_args dir 0 USTACKTOP [] argv ((sk s)\<lparr>km := m1\<rparr>)) (\<lambda>(r, k1).
         case r of
           None \<Rightarrow> exec_fail pgdir (s\<lparr>sk := k1\<rparr>)
         | Some (sp, ptrs) \<Rightarrow>
             let argc = of_nat (length ptrs) :: u32; sp1 = sp - (3 + argc) * 4;
                 frame_words = [argc, sp - (argc + 1) * 4] @ ptrs @ [0]
             in bnd (copyout_bytes dir sp1 (word_bytes frame_words) (km k1)) (\<lambda>(r2, m2).
                if r2 < 0 then exec_fail pgdir (s\<lparr>sk := k1\<lparr>km := m2\<rparr>\<rparr>)
                else bnd (exec_switch c pgdir entry_pt sp1 rg (k1\<lparr>km := m2\<rparr>)) (\<lambda>k2.
                     Inr (0, s\<lparr>sk := k2, sc := kprint ''---+--+--- exec() end\<newline>'' [] (sc s)\<rparr>))))))"

text \<open>
  The whole call. \<open>argv\<close> are the user pointers before the null pointer, \<open>hdr\<close> is the memory the ELF header is read into and
  \<open>garbage\<close> what \<^verbatim>\<open>pgdir\<close> holds before it is set.
\<close>

definition exec :: "mem \<Rightarrow> u32 \<Rightarrow> u8 list \<Rightarrow> u32 list \<Rightarrow> ksys \<Rightarrow> (int \<times> ksys) res" where
  "exec hdr garbage path argv s =
     bnd (cur s) (\<lambda>c.
     bnd (foldr (\<lambda>p r. bnd (ustr p (sk s)) (\<lambda>a. bnd r (\<lambda>as. Inr (a # as)))) argv (Inr [])) (\<lambda>args.
     let s0 = s\<lparr>sc := show_args path args (sc s)\<rparr>
     in bnd (sfs_read_file path 0 (of_nat ELF_SIZE) hdr (sf s0)) (\<lambda>(ret, h, f1).
        let s1 = s0\<lparr>sf := f1, sc := kprint ''exec: ret = %d\<newline>'' [Num (word_of_int ret)] (sc s0)\<rparr>;
            failed = s1\<lparr>sc := kprint ''exec: read file fail\<newline>'' [] (sc s1)\<rparr>
        in if ret < int ELF_SIZE \<or> e_magic h 0 \<noteq> ELF_MAGIC then exec_fail garbage failed
           else bnd (mapkvm (kdata (sk s1)) (km (sk s1))) (\<lambda>(pgdir, m1).
                let s2 = s1\<lparr>sk := (sk s1)\<lparr>km := m1\<rparr>\<rparr>
                in if pgdir = 0 then exec_fail 0 (s2\<lparr>sc := kprint ''exec: mapkvm() fail\<newline>'' [] (sc s2)\<rparr>)
                   else bnd (sfs_stat_path path (sf s2)) (\<lambda>(_, st, f2).
                        let s3 = s2\<lparr>sf := f2, sc := kprint ''%s: size = %d\<newline>'' [Str path, Num (st_size st)] (sc s2)\<rparr>
                        in bnd (task_kmalloc (st_size st) (sk s3)) (\<lambda>(fp, k4).
                           if fp = 0 then Inl (Panic ''kmalloc'')
                           else bnd (sfs_read_file path fp (st_size st) (uview k4) (sf s3)) (\<lambda>(ret2, v, f5).
                                bnd (uwrites fp (bytes_at v fp (unat (st_size st))) k4) (\<lambda>k5.
                                if ret2 < sint (st_size st) then Inl (Panic ''sfs_read_file'')
                                else bnd (exec_segments c pgdir fp (ph_count (fp + e_phoff h 0) (e_phnum h 0)) (fp + e_phoff h 0) 0 k5) (\<lambda>(rg, k6).
                                     bnd (task_kfree fp k6) (\<lambda>(_, k7).
                                     exec_stack c pgdir (e_entry h 0) rg argv (s3\<lparr>sk := k7, sf := f5\<rparr>)))))))))))"

end
