(* ===== verification/Kern_Syscall.thy ===== *)
theory Kern_Syscall
  imports Kern_Exec
begin

text \<open>
  The system calls (\<^verbatim>\<open>kern/syscall.c\<close>) and the common handler of traps and interrupts (\<^verbatim>\<open>kern/trap.c\<close>, with \<^verbatim>\<open>page_fault\<close> of
  \<^verbatim>\<open>kern/mm.c\<close>). A call that switches to another task ends with \<open>Run\<close> of that task and does not store a result.
\<close>

section \<open>Arguments\<close>

definition getint :: "u32 \<Rightarrow> kst \<Rightarrow> u32 res" where
  "getint addr s = uread32 addr s"

definition getstr :: "u32 \<Rightarrow> kst \<Rightarrow> (u8 list \<times> int) res" where
  "getstr addr s = bnd (ustr addr s) (\<lambda>str. Inr (str, int (length str)))"

definition argint :: "nat \<Rightarrow> ksys \<Rightarrow> u32 res" where
  "argint n s = bnd (cur s) (\<lambda>c. getint (ld32 (kmem (sk s)) (t_tf (tget (sk s) c) + TF_ESP) + 4 + 4 * of_nat n) (sk s))"

text \<open>The pointer and the string it points to.\<close>

definition argstr :: "nat \<Rightarrow> ksys \<Rightarrow> (u32 \<times> u8 list) res" where
  "argstr n s = bnd (argint n s) (\<lambda>a. bnd (getstr a (sk s)) (\<lambda>(str, len). Inr (a, str)))"

section \<open>The calls\<close>

definition sys_gticks :: "ksys \<Rightarrow> (int ctl \<times> ksys) res" where
  "sys_gticks s = Inr (Ret (uint (timer_ticks (ck s))), s)"

text \<open>The file system works on the open files of the task that calls it.\<close>

definition with_files :: "nat \<Rightarrow> (sfs \<Rightarrow> ('a \<times> sfs) res) \<Rightarrow> ksys \<Rightarrow> ('a \<times> ksys) res" where
  "with_files c f s =
     bnd (f ((sf s)\<lparr>ofile := t_ofile (tget (sk s) c)\<rparr>)) (\<lambda>(x, f1).
       Inr (x, s\<lparr>sf := f1, sk := tupd c (\<lambda>t. t\<lparr>t_ofile := ofile f1\<rparr>) (sk s)\<rparr>))"

definition sys_open :: "ksys \<Rightarrow> (int ctl \<times> ksys) res" where
  "sys_open s =
     bnd (argstr 0 s) (\<lambda>(_, path). bnd (argint 1 s) (\<lambda>flag. bnd (cur s) (\<lambda>c.
     bnd (with_files c (\<lambda>f. bnd (sf_open path flag (sc s, f)) (\<lambda>(fd, c1, f1). Inr ((fd, c1), f1))) s) (\<lambda>((fd, c1), s1).
       Inr (Ret fd, s1\<lparr>sc := c1\<rparr>)))))"

definition sys_creat :: "ksys \<Rightarrow> (int ctl \<times> ksys) res" where
  "sys_creat s =
     bnd (argstr 0 s) (\<lambda>(_, path). bnd (argint 1 s) (\<lambda>flag.
       case sf_creat path flag (sc s) of (r, c1) \<Rightarrow> Inr (Ret r, s\<lparr>sc := c1\<rparr>)))"

text \<open>What \<^verbatim>\<open>sfs_read\<close> stores at \<open>p\<close> is as long as the count it returns.\<close>

definition sys_read :: "ksys \<Rightarrow> (int ctl \<times> ksys) res" where
  "sys_read s =
     bnd (argint 0 s) (\<lambda>fd. bnd (argstr 1 s) (\<lambda>(p, _). bnd (argint 2 s) (\<lambda>len. bnd (cur s) (\<lambda>c.
       if fd = 0
       then (case stdin_read (sint len) (sc s) of (r, bs, c1) \<Rightarrow>
               bnd (uwrites p bs (sk s)) (\<lambda>k1. Inr (Ret r, s\<lparr>sk := k1, sc := c1\<rparr>)))
       else bnd (with_files c (\<lambda>f. bnd (sf_read (sint fd) p len (uview (sk s)) f) (\<lambda>(r, v, f1). Inr ((r, v), f1))) s)
              (\<lambda>((r, v), s1). bnd (uwrites p (bytes_at v p (nat r)) (sk s1)) (\<lambda>k1. Inr (Ret r, s1\<lparr>sk := k1\<rparr>)))))))"

text \<open>\<open>junk\<close> is the uninitialised value \<^verbatim>\<open>filewrite\<close> returns, which is dropped here.\<close>

definition sys_write :: "ksys \<Rightarrow> (int ctl \<times> ksys) res" where
  "sys_write s =
     bnd (argint 0 s) (\<lambda>fd. bnd (argstr 1 s) (\<lambda>(p, str). bnd (argint 2 s) (\<lambda>len.
       if fd = 1 \<or> fd = 2
       then if len = 1 then bnd (uget p (sk s)) (\<lambda>b. Inr (Ret 0, s\<lparr>sc := put_c b (sc s)\<rparr>))
            else Inr (Ret 0, s\<lparr>sc := kprint ''%s'' [Str str] (sc s)\<rparr>)
       else Inr (Ret 0, s\<lparr>sc := snd (sf_write 0 fd str len (sc s))\<rparr>))))"

definition sys_close :: "ksys \<Rightarrow> (int ctl \<times> ksys) res" where
  "sys_close s =
     bnd (argint 0 s) (\<lambda>fd. case sf_close fd (sc s) of (r, c1) \<Rightarrow> Inr (Ret r, s\<lparr>sc := c1\<rparr>))"

definition sys_fork :: "ksys \<Rightarrow> (int ctl \<times> ksys) res" where
  "sys_fork s = bnd (fork (sk s)) (\<lambda>(r, k). Inr (Ret r, s\<lparr>sk := k\<rparr>))"

definition sys_exit :: "nat option \<Rightarrow> ksys \<Rightarrow> (int ctl \<times> ksys) res" where
  "sys_exit tp s = bnd (exit tp (sk s)) (\<lambda>(i, k). Inr (Run i, s\<lparr>sk := k\<rparr>))"

definition sys_wait :: "ksys \<Rightarrow> (int ctl \<times> ksys) res" where
  "sys_wait s = bnd (wait (sk s)) (\<lambda>(r, k). Inr (r, s\<lparr>sk := k\<rparr>))"

text \<open>The pointers of \<^verbatim>\<open>argv\<close>: \<open>None\<close> when there are \<^verbatim>\<open>MAXARGS\<close> or more. Each string is scanned.\<close>

function get_argv :: "u32 \<Rightarrow> nat \<Rightarrow> u32 list \<Rightarrow> kst \<Rightarrow> u32 list option res" where
  "get_argv uargv i acc s =
     (if MAXARGS \<le> i then Inr None
      else if uargv = 0 then Inr (Some acc)
      else bnd (getint (uargv + of_nat i * 4) s) (\<lambda>uarg.
           if uarg = 0 then Inr (Some acc)
           else bnd (getstr uarg s) (\<lambda>_. get_argv uargv (i + 1) (acc @ [uarg]) s)))"
  by pat_completeness auto
termination get_argv
  by (relation "measure (\<lambda>(uargv, i, acc, s). MAXARGS - i)") auto

declare get_argv.simps [simp del]

definition sys_exec :: "mem \<Rightarrow> u32 \<Rightarrow> ksys \<Rightarrow> (int ctl \<times> ksys) res" where
  "sys_exec hdr garbage s =
     bnd (argstr 0 s) (\<lambda>(_, path). bnd (argint 1 s) (\<lambda>uargv.
     bnd (get_argv uargv 0 [] (sk s)) (\<lambda>r.
       case r of
         None \<Rightarrow> Inr (Ret (- 1), s)
       | Some argv \<Rightarrow> bnd (exec hdr garbage path argv s) (\<lambda>(x, s1). Inr (Ret x, s1)))))"

text \<open>\<^verbatim>\<open>struct sfs_stat\<close> in memory: the device in 16 bits, padding that the \<^verbatim>\<open>memset\<close> has cleared, mode and size.\<close>

definition stat_bytes :: "sfs_stat \<Rightarrow> u8 list" where
  "stat_bytes st = to_le 2 (unat (st_dev st)) @ [0, 0] @ to_le 4 (unat (st_mode st)) @ to_le 4 (unat (st_size st))"

definition sys_stat :: "ksys \<Rightarrow> (int ctl \<times> ksys) res" where
  "sys_stat s =
     bnd (argstr 0 s) (\<lambda>(_, path). bnd (argstr 1 s) (\<lambda>(buf, _).
     bnd (sf_stat path (sc s, sf s)) (\<lambda>(r, st, c1, f1).
     bnd (uwrites buf (stat_bytes st) (sk s)) (\<lambda>k1. Inr (Ret r, s\<lparr>sk := k1, sc := c1, sf := f1\<rparr>)))))"

text \<open>
  The values the calls take from uninitialised variables: \<^verbatim>\<open>tp\<close> of \<^verbatim>\<open>exit\<close>, the stack of \<^verbatim>\<open>exec\<close> and its \<^verbatim>\<open>pgdir\<close>.
\<close>

record stack_junk =
  j_tp :: "nat option"
  j_hdr :: mem
  j_pgdir :: u32

definition syscalls :: "stack_junk \<Rightarrow> (ksys \<Rightarrow> (int ctl \<times> ksys) res) option list" where
  "syscalls j = [None, Some sys_open, Some sys_creat, Some sys_read, Some sys_write, Some sys_close, Some sys_gticks,
     Some sys_fork, Some sys_wait, Some (sys_exit (j_tp j)), Some (sys_exec (j_hdr j) (j_pgdir j)), Some sys_stat]"

definition set_eax :: "int \<Rightarrow> ksys \<Rightarrow> ksys res" where
  "set_eax v s = bnd (cur s) (\<lambda>c. Inr (s\<lparr>sk := set_tf c TF_EAX (word_of_int v) (sk s)\<rparr>))"

definition syscall :: "stack_junk \<Rightarrow> ksys \<Rightarrow> (nat option \<times> ksys) res" where
  "syscall j s =
     bnd (cur s) (\<lambda>c.
     let num = ld32 (kmem (sk s)) (t_tf (tget (sk s) c) + TF_EAX)
     in if length (syscalls j) \<le> unat num then Inl (Fault ''syscalls: index out of bounds'')
        else case syscalls j ! unat num of
               Some call \<Rightarrow>
                 bnd (call s) (\<lambda>(r, s1).
                   case r of
                     Ret v \<Rightarrow> bnd (set_eax v s1) (\<lambda>s2. Inr (None, s2))
                   | Run i \<Rightarrow> Inr (Some i, s1))
             | None \<Rightarrow>
                 bnd (set_eax (- 1) (s\<lparr>sc := kprint ''Unknown syscall number: %d\<newline>'' [Num num] (sc s)\<rparr>)) (\<lambda>s2.
                 Inr (None, s2)))"

section \<open>Traps\<close>

abbreviation T_PGFLT :: u32 where "T_PGFLT \<equiv> 14"
abbreviation T_IRQ0 :: u32 where "T_IRQ0 \<equiv> 32"
abbreviation T_SYSCALL_NO :: u32 where "T_SYSCALL_NO \<equiv> 48"

definition exceptions :: "string list" where
  "exceptions = [''Divide error'', ''Debug exceptions'', ''Non-maskable interrupt (NMI)'', ''Breakpoint'', ''Overflow'',
     ''Bounds check'', ''Invalid opcode'', ''Coprocessor not available'', ''Double fault'',
     ''Coprocessor segment overrun'', ''Invalid TSS'', ''Segment not present'', ''Stack exception'',
     ''General protection exception'', ''Page fault'', ''Intel reserved'', ''Coprocessor error'']"

text \<open>The words of a frame by their offset.\<close>

definition tfw :: "mem \<Rightarrow> u32 \<Rightarrow> u32 \<Rightarrow> arg" where
  "tfw m tf off = Num (ld32 m (tf + off))"

definition frame_text :: "mem \<Rightarrow> u32 \<Rightarrow> cons \<Rightarrow> cons res" where
  "frame_text m tf c =
     (let no = ld32 m (tf + TF_TRAPNO)
      in if length exceptions \<le> unat no then Inl (Fault ''exceptions: index out of bounds'')
         else Inr (fold (\<lambda>(fmt, args). kprint fmt args)
           [(''----- Exception %d: %s -----\<newline>'', [Num no, Str (chars (exceptions ! unat no))]),
            ('' gs: %x'' @ [CHR 0x09] @ '' fs: %x'' @ [CHR 0x09], [tfw m tf TF_GS, tfw m tf TF_FS]),
            ('' es: %x'' @ [CHR 0x09] @ '' ds: %x\<newline>'', [tfw m tf TF_ES, tfw m tf TF_DS]),
            (''edi: %x'' @ [CHR 0x09] @ ''esi: %x\<newline>'', [tfw m tf 16, tfw m tf 20]),
            (''ebp: %x'' @ [CHR 0x09] @ ''old_esp: %x\<newline>'', [tfw m tf 24, tfw m tf 28]),
            (''ebx: %x'' @ [CHR 0x09] @ ''edx: %x\<newline>'', [tfw m tf 32, tfw m tf 36]),
            (''ecx: %x'' @ [CHR 0x09] @ ''eax: %x\<newline>'', [tfw m tf 40, tfw m tf TF_EAX]),
            (''trapno: %x'' @ [CHR 0x09] @ ''err: %x'' @ [CHR 0x09], [tfw m tf TF_TRAPNO, tfw m tf 56]),
            (''ret_addr: %x\<newline>'', [tfw m tf 48]),
            (''eip: %x'' @ [CHR 0x09] @ '' cs: %x'' @ [CHR 0x09], [tfw m tf TF_EIP, tfw m tf TF_CS]),
            (''eflags: %x\<newline>'', [tfw m tf TF_EFLAGS]),
            (''esp: %x'' @ [CHR 0x09] @ '' ss: %x\<newline>'', [tfw m tf TF_ESP, tfw m tf TF_SS])] c))"

definition dump_tf :: "u32 \<Rightarrow> ksys \<Rightarrow> 'a res" where
  "dump_tf tf s = bnd (frame_text (kmem (sk s)) tf (sc s)) (\<lambda>_. Inl (Panic ''dump_tf''))"

definition page_fault :: "u32 \<Rightarrow> u32 \<Rightarrow> mem \<Rightarrow> cons \<Rightarrow> cons" where
  "page_fault cr2 tf m c =
     (let err = ld32 m (tf + 56); flag = (\<lambda>b. Num (if err AND b = 0 then 0 else 1))
      in kprint ''eip = %x, faulting address %x\<newline>'' [tfw m tf TF_EIP, Num cr2]
           (kprint ''\<newline>page fault! (flags: p:%d, rw:%d, user:%d, res:%d)\<newline>'' [flag 1, flag 2, flag 4, flag 8] c))"

text \<open>
  What the machine presents when the trap is handled: the flags, the fault address, the keyboard's port, the bytes of the
  serial line, and the status and data of the disk.
\<close>

record ports =
  eflags :: u32
  cr2 :: u32
  port61 :: u8
  line :: "u8 list"
  hd_status :: "nat \<Rightarrow> u8"
  hd_bytes :: "u8 list"

definition trap :: "ports \<Rightarrow> stack_junk \<Rightarrow> u32 \<Rightarrow> ksys \<Rightarrow> (nat option \<times> ksys) res" where
  "trap io j tf s =
     (let no = ld32 (kmem (sk s)) (tf + TF_TRAPNO)
      in if eflags io AND FL_IF \<noteq> 0 then Inl (Panic ''FL_IF should not be set!'')
         else if no = T_IRQ0 then
           bnd (timer_isr (ck s, sc s, sk s)) (\<lambda>(r, k1, c1, s1). Inr (r, s\<lparr>ck := k1, sc := c1, sk := s1\<rparr>))
         else if no = T_IRQ0 + 1 then
           (case keyboard_isr (port61 io) (kbd s) (sc s) of
              None \<Rightarrow> Inl (Hang ''keyboard_isr'')
            | Some (k1, c1) \<Rightarrow> Inr (None, s\<lparr>kbd := k1, sc := c1\<rparr>))
         else if no = T_IRQ0 + 4 then
           (case serial_isr (line io) (sc s) of
              None \<Rightarrow> Inl (Hang ''serial_isr'')
            | Some (_, c1) \<Rightarrow> Inr (None, s\<lparr>sc := c1\<rparr>))
         else if no = T_IRQ0 + 14 then
           bnd (hd_isr (hd_status io) (hd_bytes io) (sbio (sf s))) (\<lambda>b1.
             Inr (None, s\<lparr>sf := (sf s)\<lparr>sbio := b1\<rparr>, sc := kprint ''IDE read/write interrupt\<newline>'' [] (sc s)\<rparr>))
         else if no = T_IRQ0 + 7 then
           Inr (None, s\<lparr>sc := kprint ''Spurious interrupt (irq 7) is ignored\<newline>'' [] (sc s)\<rparr>)
         else if no = T_PGFLT then dump_tf tf (s\<lparr>sc := page_fault (cr2 io) tf (kmem (sk s)) (sc s)\<rparr>)
         else if no = T_SYSCALL_NO then syscall j s
         else dump_tf tf (s\<lparr>sc := kprint ''tf->trapno: %d\<newline>'' [Num no] (sc s)\<rparr>))"

end
