(* ===== verification/Kern_Inv.thy ===== *)
theory Kern_Inv
  imports Kern_Syscall
begin

text \<open>
  The tables of the kernel keep their shape: every pointer into a table points to one of its entries, whatever interrupt or
  system call is handled. The facts on single operations are collected in \<open>typed\<close>.
\<close>

named_theorems typed

declare upt_rec_numeral [simp del]

section \<open>Tasks\<close>

definition task_ptr :: "nat option \<Rightarrow> bool" where
  "task_ptr p \<longleftrightarrow> (case p of None \<Rightarrow> True | Some i \<Rightarrow> i < NPROC)"

definition fd_ptrs :: "nat option list \<Rightarrow> bool" where
  "fd_ptrs fs \<longleftrightarrow> length fs = NOFILE \<and> (\<forall>f \<in> set fs. f = None \<or> the f < FDT_SIZE)"

definition task_typed :: "task \<Rightarrow> bool" where
  "task_typed t \<longleftrightarrow> fd_ptrs (t_ofile t) \<and> task_ptr (t_next t) \<and> task_ptr (t_parent t)"

definition kst_typed :: "kst \<Rightarrow> bool" where
  "kst_typed s \<longleftrightarrow> length (tasks s) = NPROC \<and> (\<forall>t \<in> set (tasks s). task_typed t) \<and>
     task_ptr (rootp s) \<and> task_ptr (current s) \<and> task_ptr (inittask s)"

lemma task_ptr_simps [simp]: "task_ptr None" "task_ptr (Some i) \<longleftrightarrow> i < NPROC"
  by (simp_all add: task_ptr_def)

lemma task_typed_upd [simp]:
  "task_typed (t\<lparr>t_tf := a\<rparr>) = task_typed t" "task_typed (t\<lparr>t_context := a\<rparr>) = task_typed t"
  "task_typed (t\<lparr>t_pid := a\<rparr>) = task_typed t" "task_typed (t\<lparr>t_ppid := a\<rparr>) = task_typed t"
  "task_typed (t\<lparr>t_name := n\<rparr>) = task_typed t" "task_typed (t\<lparr>t_state := st\<rparr>) = task_typed t"
  "task_typed (t\<lparr>t_sz := a\<rparr>) = task_typed t" "task_typed (t\<lparr>t_priority := a\<rparr>) = task_typed t"
  "task_typed (t\<lparr>t_pgdir := a\<rparr>) = task_typed t" "task_typed (t\<lparr>t_kstack := a\<rparr>) = task_typed t"
  "task_typed (t\<lparr>t_chan := ch\<rparr>) = task_typed t" "task_typed (t\<lparr>t_heap_top := a\<rparr>) = task_typed t"
  "task_typed (t\<lparr>t_heap_start := a\<rparr>) = task_typed t"
  by (simp_all add: task_typed_def)

lemma task_typed_ptr [simp]:
  "task_typed t \<Longrightarrow> task_ptr p \<Longrightarrow> task_typed (t\<lparr>t_next := p\<rparr>)" "task_typed t \<Longrightarrow> task_ptr p \<Longrightarrow> task_typed (t\<lparr>t_parent := p\<rparr>)"
  "task_typed t \<Longrightarrow> fd_ptrs fs \<Longrightarrow> task_typed (t\<lparr>t_ofile := fs\<rparr>)"
  by (simp_all add: task_typed_def)

lemma kst_typed_upd [simp]:
  "kst_typed (s\<lparr>km := m\<rparr>) = kst_typed s" "kst_typed (s\<lparr>nextpid := n\<rparr>) = kst_typed s" "kst_typed (s\<lparr>tss_ss0 := n\<rparr>) = kst_typed s"
  "kst_typed (s\<lparr>tss_esp0 := n\<rparr>) = kst_typed s" "kst_typed (s\<lparr>ltrflag := b\<rparr>) = kst_typed s"
  "kst_typed (set_mem mm s) = kst_typed s" "kst_typed (set_cr3 n s) = kst_typed s" "kst_typed (set_tf i off n s) = kst_typed s"
  by (simp_all add: kst_typed_def set_mem_def set_cr3_def set_tf_def)

lemma kst_typed_ptr [simp]:
  "kst_typed s \<Longrightarrow> task_ptr p \<Longrightarrow> kst_typed (s\<lparr>current := p\<rparr>)" "kst_typed s \<Longrightarrow> task_ptr p \<Longrightarrow> kst_typed (s\<lparr>rootp := p\<rparr>)"
  by (simp_all add: kst_typed_def)

lemma kst_typedD:
  assumes "kst_typed s"
  shows "task_ptr (rootp s)" "task_ptr (current s)" "task_ptr (inittask s)" "length (tasks s) = NPROC"
    "i < NPROC \<Longrightarrow> task_typed (tget s i)" "i < NPROC \<Longrightarrow> task_ptr (t_next (tget s i))" "i < NPROC \<Longrightarrow> fd_ptrs (t_ofile (tget s i))"
proof -
  show "task_ptr (rootp s)" "task_ptr (current s)" "task_ptr (inittask s)" "length (tasks s) = NPROC"
    using assms by (simp_all add: kst_typed_def)
  assume "i < NPROC"
  then show "task_typed (tget s i)" using assms by (simp add: kst_typed_def tget_def)
  then show "task_ptr (t_next (tget s i))" "fd_ptrs (t_ofile (tget s i))" by (simp_all add: task_typed_def)
qed

lemma kst_typed_tupd:
  assumes "kst_typed s" and "\<And>t. i < NPROC \<Longrightarrow> task_typed t \<Longrightarrow> task_typed (f t)"
  shows "kst_typed (tupd i f s)"
proof (cases "i < NPROC")
  case True
  then have "task_typed (f (tasks s ! i))" using assms kst_typedD(5) [OF assms(1) True] by (simp add: tget_def)
  then show ?thesis
    using assms(1) set_update_subset_insert [of "tasks s" i] by (auto simp: kst_typed_def tupd_def)
next
  case False
  then show ?thesis using assms(1) by (simp add: kst_typed_def tupd_def list_update_beyond)
qed

lemma bnd_InrD: "bnd r f = Inr x \<Longrightarrow> \<exists>y. r = Inr y \<and> f y = Inr x"
  by (cases r) simp_all

lemma ended_InrD: "ended n r = Inr x \<Longrightarrow> r = Some (Inr x)"
  by (cases r) (simp_all add: ended_def)

section \<open>The scheduler\<close>

lemma runnable_from_typed:
  assumes "runnable_from s p = Some r"
  shows "kst_typed s \<Longrightarrow> task_ptr p \<Longrightarrow> task_ptr r"
  using assms
proof (induction rule: runnable_from.raw_induct [rotated, consumes 1, case_names step])
  case (step f s p r)
  then show ?case by (auto split: option.splits if_splits dest: kst_typedD(6))
qed

lemma runnable_until_typed:
  assumes "runnable_until s c p = Some r"
  shows "kst_typed s \<Longrightarrow> task_ptr p \<Longrightarrow> r = Inr q \<Longrightarrow> task_ptr q"
  using assms
proof (induction rule: runnable_until.raw_induct [rotated, consumes 1, case_names step])
  case (step f s c p r)
  show ?case
    using step(2-5) step(1) [OF _ step(3) kst_typedD(6) [OF step(3)], of c _ r]
    by (auto split: option.splits if_splits)
qed

lemma task_run_typed: "task_run i s = Inr (j, s') \<Longrightarrow> kst_typed s \<Longrightarrow> i < NPROC \<Longrightarrow> kst_typed s' \<and> j < NPROC"
  by (auto simp: task_run_def Let_def kst_typed_tupd split: option.splits)

lemma sched_yield_typed [typed]:
  assumes "sched_yield s = Inr (j, s')" and "kst_typed s"
  shows "kst_typed s' \<and> j < NPROC"
proof -
  obtain r where r: "rootp s = Some r" using assms(1) by (auto simp: sched_yield_def split: option.splits)
  define s1 where "s1 = (if current s = None then s\<lparr>current := Some r\<rparr> else s)"
  have rn: "r < NPROC" using kst_typedD(1) [OF assms(2)] r by simp
  then have t1: "kst_typed s1" using assms(2) by (simp add: s1_def)
  have c: "the (current s1) < NPROC" using kst_typedD(2) [OF t1] rn by (cases "current s") (simp_all add: s1_def)
  note run = assms(1) [unfolded sched_yield_def r, simplified, folded s1_def, unfolded Let_def]
  have from_next: "task_ptr r'" if "runnable_from s1 (t_next (tget s1 (the (current s1)))) = Some r'" for r'
    by (rule runnable_from_typed [OF that t1 kst_typedD(6) [OF t1 c]])
  have until: "task_ptr q" if "runnable_until s1 (the (current s1)) (Some r) = Some (Inr q)" for q
    using runnable_until_typed [OF that t1] rn by simp
  obtain i where "task_run i s1 = Inr (j, s')" "i < NPROC"
    using run c from_next until by (force split: option.splits dest!: bnd_InrD ended_InrD)
  then show ?thesis using task_run_typed [OF _ t1] by blast
qed

lemma sleep_on_typed [typed]: "sleep_on ch s = Inr (j, s') \<Longrightarrow> kst_typed s \<Longrightarrow> kst_typed s' \<and> j < NPROC"
  by (auto simp: sleep_on_def kst_typed_tupd split: option.splits dest: sched_yield_typed)

lemma wake_one_typed: "kst_typed s \<Longrightarrow> kst_typed (wake_one ch i s)"
  by (simp add: wake_one_def kst_typed_tupd)

lemma wakeup_loop_typed:
  assumes "wakeup_loop ch p s = Some r"
  shows "kst_typed s \<Longrightarrow> r = Inr s' \<Longrightarrow> kst_typed s'"
  using assms
proof (induction rule: wakeup_loop.raw_induct [rotated, consumes 1, case_names step])
  case (step f ch p s r)
  show ?case
    using step(2-4) step(1) [OF _ wake_one_typed [OF step(3)]] by (auto split: option.splits)
qed

lemma wakeup_typed [typed]: "wakeup ch s = Inr s' \<Longrightarrow> kst_typed s \<Longrightarrow> kst_typed s'"
  by (auto simp: wakeup_def dest: ended_InrD wakeup_loop_typed)

lemma exit_loop_typed:
  assumes "exit_loop c p s = Some r"
  shows "kst_typed s \<Longrightarrow> r = Inr s' \<Longrightarrow> kst_typed s'"
  using assms
proof (induction rule: exit_loop.raw_induct [rotated, consumes 1, case_names step])
  case (step f c p s r)
  show ?case
  proof (cases p)
    case None
    then show ?thesis using step(2-4) by simp
  next
    case (Some i)
    let ?s1 = "if t_parent (tget s i) = Some c then tupd i (\<lambda>t. t\<lparr>t_parent := inittask s\<rparr>) s else s"
    have "kst_typed ?s1" using step(3) kst_typedD(3) [OF step(3)] by (simp add: kst_typed_tupd)
    then show ?thesis
      using step(2,4) Some step(1) [of c _ ?s1 r] step(1) [of c _ _ r] wakeup_typed
      by (auto simp: Let_def split: if_splits sum.splits)
  qed
qed

lemma exit_typed [typed]: "exit tp s = Inr (j, s') \<Longrightarrow> kst_typed s \<Longrightarrow> kst_typed s' \<and> j < NPROC"
  by (auto simp: exit_def Let_def kst_typed_tupd split: option.splits if_splits
      dest!: ended_InrD sched_yield_typed wakeup_typed dest: exit_loop_typed)

lemma reap_typed: "reap i s = Inr s' \<Longrightarrow> kst_typed s \<Longrightarrow> kst_typed s'"
  by (auto simp: reap_def Let_def kst_typed_tupd)

lemma wait_typed [typed]: "wait s = Inr (r, s') \<Longrightarrow> kst_typed s \<Longrightarrow> kst_typed s' \<and> (\<forall>j. r = Run j \<longrightarrow> j < NPROC)"
  by (auto simp: wait_def split: option.splits prod.splits bool.splits dest: reap_typed sleep_on_typed)

lemma task_alloc_typed: "task_alloc s = (r, s') \<Longrightarrow> kst_typed s \<Longrightarrow> kst_typed s' \<and> task_ptr r"
  by (auto simp: task_alloc_def Let_def kst_typed_tupd find_Some_iff split: option.splits prod.splits if_splits)

lemma fork_fail_typed: "fork_fail p s = Inr (r, s') \<Longrightarrow> kst_typed s \<Longrightarrow> kst_typed s'"
  by (auto simp: fork_fail_def kst_typed_tupd split: option.splits)

lemma link_task_typed: "kst_typed s \<Longrightarrow> i < NPROC \<Longrightarrow> kst_typed (link_task i s)"
  using kst_typedD(1) [of s] by (simp add: link_task_def kst_typed_tupd)

lemma fork_typed [typed]:
  assumes "fork s = Inr (r, s')" and "kst_typed s"
  shows "kst_typed s'"
proof (cases "task_alloc s")
  case (Pair p s1)
  note a = task_alloc_typed [OF Pair assms(2)]
  show ?thesis
  proof (cases p)
    case None
    with assms(1) Pair a show ?thesis by (auto simp: fork_def fork_fail_def)
  next
    case (Some i)
    with assms(1) Pair a kst_typedD(2) [of s1] show ?thesis
      by (auto simp: fork_def Let_def kst_typed_tupd split: option.splits if_splits
          intro!: link_task_typed dest!: fork_fail_typed)
  qed
qed

section \<open>User memory and \<open>exec\<close>\<close>

lemma heap_fields: "s\<lparr>km := m, tasks := (tasks s)[c := (tget s c)\<lparr>t_heap_start := a, t_heap_top := b\<rparr>]\<rparr> =
    (tupd c (\<lambda>t. t\<lparr>t_heap_start := a, t_heap_top := b\<rparr>) s)\<lparr>km := m\<rparr>"
  by (simp add: tupd_def tget_def)

lemma on_heap_typed: "on_heap f s = Inr (x, s') \<Longrightarrow> kst_typed s \<Longrightarrow> kst_typed s'"
  by (auto simp: on_heap_def Let_def heap_fields kst_typed_tupd split: option.splits)

lemma heap_calls_typed:
  "task_kmalloc n s = Inr (x, s') \<Longrightarrow> kst_typed s \<Longrightarrow> kst_typed s'" "task_kfree p s = Inr (y, s') \<Longrightarrow> kst_typed s \<Longrightarrow> kst_typed s'"
  by (auto simp: task_kmalloc_def task_kfree_def dest: on_heap_typed)

lemma uwrites_typed [typed]: "uwrites a bs s = Inr s' \<Longrightarrow> kst_typed s' = kst_typed s"
  by (auto simp: uwrites_def)

lemma exec_segment_typed: "exec_segment c d fp ph s = Inr (r, s') \<Longrightarrow> kst_typed s' = kst_typed s"
  by (auto simp: exec_segment_def Let_def uwrites_typed split: if_splits dest!: uwrites_typed)

lemma exec_segments_typed: "exec_segments c d fp k ph rg s = Inr (r, s') \<Longrightarrow> kst_typed s' = kst_typed s"
  by (induction k arbitrary: ph rg s) (auto dest!: exec_segment_typed)

lemma exec_args_typed: "exec_args d argc sp us ps s = Inr (r, s') \<Longrightarrow> kst_typed s' = kst_typed s"
proof (induction d argc sp us ps s rule: exec_args.induct)
  case (2 d argc sp us p ps s)
  then show ?case by (auto simp: Let_def split: if_splits)
qed simp

lemma exec_switch_typed: "exec_switch c d e sp rg s = Inr s' \<Longrightarrow> kst_typed s \<Longrightarrow> kst_typed s'"
  by (auto simp: exec_switch_def Let_def kst_typed_tupd)

section \<open>The console\<close>

definition cons_typed :: "cons \<Rightarrow> bool" where
  "cons_typed c \<longleftrightarrow> cons_ok c \<and> length (cbuf c) = CBUF_SIZE \<and> rpos c < CBUF_SIZE \<and> wpos c < CBUF_SIZE"

lemma cons_typed_same: "cons_typed c \<Longrightarrow> same_input c c' \<Longrightarrow> cons_ok c' \<Longrightarrow> cons_typed c'"
  by (simp add: cons_typed_def same_input_def)

lemma cons_typed_upd [simp]:
  "cons_typed (cons_outb p v c) = cons_typed c" "cons_typed (c\<lparr>cwoken := n\<rparr>) = cons_typed c"
  "cons_typed (c\<lparr>timer_flag := b\<rparr>) = cons_typed c"
  by (simp_all add: cons_typed_def cons_outb_def cons_ok_def)

lemma put_c_typed: "cons_typed c \<Longrightarrow> cons_typed (put_c x c)"
  using put_c_bounds [where s = c and c = x] by (metis cons_typed_def cons_typed_same)

lemma fold_put_c_typed: "cons_typed c \<Longrightarrow> cons_typed (fold put_c xs c)"
  by (induction xs arbitrary: c) (simp_all add: put_c_typed)

lemma kprint_typed [simp]: "cons_typed c \<Longrightarrow> cons_typed (kprint fmt as c)"
  by (simp add: kprint_def fold_put_c_typed)

lemma cbuf_put_typed: "cons_typed c \<Longrightarrow> cons_typed (cbuf_put v c)"
  by (simp add: cons_typed_def cbuf_put_def Let_def cons_ok_def)

lemma get_c_typed: "get_c b c = Some (r, c') \<Longrightarrow> cons_typed c \<Longrightarrow> cons_typed c'"
  by (auto simp: get_c_def cbuf_take_def Let_def cons_typed_def cons_ok_def split: if_splits)

lemma stdin_loop_typed: "stdin_loop n out c = (r, bs, c') \<Longrightarrow> cons_typed c \<Longrightarrow> cons_typed c'"
  by (induction n arbitrary: out c) (auto split: option.splits prod.splits if_splits dest: get_c_typed)

lemma console_isr_typed:
  assumes "console_isr getc k c = Some r"
  shows "cons_typed c \<Longrightarrow> cons_typed (snd r)"
  using assms
proof (induction rule: console_isr.raw_induct [rotated, consumes 1, case_names step])
  case (step f getc k c r)
  then show ?case
    by (auto simp: Let_def put_c_typed cbuf_put_typed split: prod.splits if_splits)
qed

lemma isr_typed [typed]:
  "keyboard_isr p k c = Some (k', c') \<Longrightarrow> cons_typed c \<Longrightarrow> cons_typed c'"
  "serial_isr bs c = Some (bs', c') \<Longrightarrow> cons_typed c \<Longrightarrow> cons_typed c'"
  by (auto simp: keyboard_isr_def serial_isr_def split: option.splits prod.splits dest: console_isr_typed)

lemma set_cursor_typed: "cons_typed c \<Longrightarrow> y * CONS_COLS + x < CONS_SIZE \<Longrightarrow> cons_typed (set_cursor x y c)"
  by (simp add: cons_typed_def set_cursor_def Let_def cons_ok_def)

lemma show_seconds_typed: "cons_typed c \<Longrightarrow> cons_typed (show_seconds t c)"
proof -
  assume c: "cons_typed c"
  have "cons_pos c div CONS_COLS * CONS_COLS + cons_pos c mod CONS_COLS = cons_pos c" by (rule div_mult_mod_eq)
  then have "cons_pos c div CONS_COLS * CONS_COLS + cons_pos c mod CONS_COLS < CONS_SIZE"
    using c by (simp add: cons_typed_def cons_ok_def)
  then show ?thesis using c
    by (simp add: show_seconds_def get_cursor_def Let_def) (intro set_cursor_typed; simp add: set_cursor_typed)
qed

lemma timer_isr_typed [typed]:
  "timer_isr (k, c, s) = Inr (r, k', c', s') \<Longrightarrow> cons_typed c \<Longrightarrow> kst_typed s \<Longrightarrow>
   cons_typed c' \<and> kst_typed s' \<and> task_ptr r"
  by (auto simp: timer_isr_def Let_def show_seconds_typed split: if_splits dest: sched_yield_typed)

section \<open>The file system\<close>

definition sfs_typed :: "sfs \<Rightarrow> bool" where
  "sfs_typed f \<longleftrightarrow> length (ibuf f) = NIBUF \<and> length (fdtable f) = FDT_SIZE \<and> (\<forall>d \<in> set (fdtable f). f_inode d < NIBUF)"

text \<open>Reading blocks changes no table.\<close>

definition tabs :: "sfs \<Rightarrow> sfs_inode list \<times> sfs_file_desc list \<times> nat option list" where
  "tabs f = (ibuf f, fdtable f, ofile f)"

lemma tabs_sbio [simp]: "tabs (f\<lparr>sbio := b\<rparr>) = tabs f"
  by (simp add: tabs_def)

lemma sfs_typed_tabs: "tabs f' = tabs f \<Longrightarrow> sfs_typed f' = sfs_typed f" "tabs f' = tabs f \<Longrightarrow> ofile f' = ofile f"
  by (simp_all add: tabs_def sfs_typed_def)

lemma read_block_tabs: "read_block n f = Inr (b, f') \<Longrightarrow> tabs f' = tabs f"
  by (auto simp: read_block_def on_bio_def)

lemma read_index_tabs: "read_index n f = Inr (b, f') \<Longrightarrow> tabs f' = tabs f"
  by (auto simp: read_index_def dest: read_block_tabs)

lemma read_conts_tabs: "read_conts i ne f = Inr (u, f') \<Longrightarrow> tabs f' = tabs f"
  by (induction ne arbitrary: f) (auto dest!: read_index_tabs)

lemma find_loop_tabs: "find_loop nm n f = Inr (r, f') \<Longrightarrow> tabs f' = tabs f"
proof (induction nm n f rule: find_loop.induct)
  case (1 nm n f)
  show ?case
  proof (cases "n \<le> 0")
    case True
    then show ?thesis using "1.prems" by (simp add: find_loop.simps)
  next
    case False
    then obtain e f1 where e: "read_index (word_of_int n) f = Inr (e, f1)"
      using "1.prems" by (auto simp: find_loop.simps [of nm n])
    note t1 = read_index_tabs [OF e]
    show ?thesis
    proof (cases "ie_type e = IAT_DIR_ENT \<or> ie_type e = IAT_FILE_ENT")
      case True
      let ?n1 = "n - int (unat (ie_ne e)) - 1"
      let ?c = "unat (ie_ne e) = 0 \<and> length nm \<le> (if ie_type e = IAT_DIR_ENT then DIR_SPACE else FILE_SPACE)"
      let ?nm = "if ie_type e = IAT_DIR_ENT then dir_name e else file_name e"
      from "1.prems" False e True obtain u f2 where f2: "(if ?c then Inr ((), f1) else read_conts ?n1 (unat (ie_ne e)) f1) = Inr (u, f2)"
        "(if name_eq nm (?nm @ junk f) then Inr (Some e, f2) else find_loop nm ?n1 f2) = Inr (r, f')"
        by (simp add: find_loop.simps [of nm n] Let_def bnd_eq_Inr_iff) blast
      have t2: "tabs f2 = tabs f" using f2(1) t1 read_conts_tabs by (auto split: if_splits)
      show ?thesis
      proof (cases "name_eq nm (?nm @ junk f)")
        case True
        then show ?thesis using f2(2) t2 by simp
      next
        case no: False
        then have "find_loop nm ?n1 f2 = Inr (r, f')" using f2(2) by simp
        then have "tabs f' = tabs f2"
          using "1.IH" [OF False e refl True refl refl refl refl f2(1) refl no] by simp
        then show ?thesis using t2 by simp
      qed
    next
      case no: False
      then show ?thesis using "1.prems" False e t1 by (auto simp: find_loop.simps [of nm n])
    qed
  qed
qed

lemma sfs_find_index_tabs: "sfs_find_index file f = Inr (r, f') \<Longrightarrow> tabs f' = tabs f"
  by (auto simp: sfs_find_index_def dest: find_loop_tabs)

lemma read_rest_tabs: "read_rest nb n dst m f = Inr (r, m', f') \<Longrightarrow> tabs f' = tabs f"
proof (induction "nat n" arbitrary: nb n dst m f r rule: less_induct)
  case less
  show ?case
  proof (cases "n \<le> 0")
    case True
    then show ?thesis using less.prems by (simp add: read_rest.simps)
  next
    case False
    obtain b f1 c where b: "read_data_block nb f = Inr (b, f1)" and
      r: "read_rest (nb + 1) (n - min (int SECT_SIZE) n) (dst + word_of_int (min (int SECT_SIZE) n))
            (poke m dst (take (nat (min (int SECT_SIZE) n)) b)) f1 = Inr (c, m', f')"
      using less.prems False by (auto simp: read_rest.simps [of nb n] Let_def)
    have "tabs f1 = tabs f" using read_block_tabs b by (simp add: read_data_block_def)
    with less.hyps [OF _ r] False show ?thesis by simp
  qed
qed

lemma find_below: "find P [0..<n] = Some i \<Longrightarrow> i < n"
  by (auto simp: find_Some_iff)

lemma sfs_typed_ibuf: "sfs_typed f \<Longrightarrow> sfs_typed (f\<lparr>ibuf := (ibuf f)[i := e]\<rparr>)"
  by (simp add: sfs_typed_def)

lemma sfs_namei_typed:
  assumes "sfs_namei path f = Inr (r, f')" and "sfs_typed f"
  shows "sfs_typed f' \<and> ofile f' = ofile f \<and> (\<forall>i. r = Some i \<longrightarrow> i < NIBUF)"
proof -
  obtain e f1 where e: "sfs_find_index path f = Inr (e, f1)" and
    r: "(case e of None \<Rightarrow> Inr (None, f1) | Some e \<Rightarrow> (case ibuf_alloc f1 of None \<Rightarrow> Inr (None, f1) | Some i \<Rightarrow>
      Inr (Some i, f1\<lparr>ibuf := (ibuf f1)[i := \<lparr>i_flags = SFS_INODE_INUSE, i_name = Some path, i_sindex = e\<rparr>]\<rparr>))) = (Inr (r, f') :: (nat option \<times> sfs) res)"
    using assms(1) by (auto simp: sfs_namei_def search_index_def)
  note t = sfs_find_index_tabs [OF e]
  have "sfs_typed f1" "ofile f1 = ofile f" using sfs_typed_tabs [OF t] assms(2) by simp_all
  with r show ?thesis by (auto simp: ibuf_alloc_def sfs_typed_ibuf split: option.splits dest: find_below)
qed

lemma sfs_typed_fdtable:
  "sfs_typed f \<Longrightarrow> f_inode d < NIBUF \<Longrightarrow> sfs_typed (f\<lparr>fdtable := (fdtable f)[i := d]\<rparr>)"
  using set_update_subset_insert [of "fdtable f" i d] by (auto simp: sfs_typed_def)

lemma fd_alloc_typed: "fd_alloc f = (r, f') \<Longrightarrow> sfs_typed f \<Longrightarrow> sfs_typed f' \<and> ofile f' = ofile f \<and> (\<forall>i. r = Some i \<longrightarrow> i < FDT_SIZE)"
proof -
  assume a: "fd_alloc f = (r, f')" and t: "sfs_typed f"
  show ?thesis
  proof (cases "find (\<lambda>i. f_count (fdtable f ! i) = 0) [0..<FDT_SIZE]")
    case None
    with a t show ?thesis by (simp add: fd_alloc_def)
  next
    case (Some i)
    note i = find_below [OF Some]
    then have "f_inode (fdtable f ! i) < NIBUF" using t by (simp add: sfs_typed_def)
    then show ?thesis using a t Some i by (auto simp: fd_alloc_def intro!: sfs_typed_fdtable)
  qed
qed

lemma fd_ptrs_update: "fd_ptrs fs \<Longrightarrow> n < FDT_SIZE \<Longrightarrow> fd_ptrs (fs[i := Some n])"
  using set_update_subset_insert [of fs i "Some n"] by (auto simp: fd_ptrs_def)

lemma sfs_typed_ofile [simp]: "sfs_typed (f\<lparr>ofile := fs\<rparr>) = sfs_typed f"
  by (simp add: sfs_typed_def)

lemma sfs_open_typed:
  assumes "sfs_open path flags f = Inr (r, f')" and "sfs_typed f" and "fd_ptrs (ofile f)"
  shows "sfs_typed f' \<and> fd_ptrs (ofile f')"
proof -
  obtain i f1 where n: "sfs_namei path f = Inr (i, f1)" using assms(1) by (auto simp: sfs_open_def)
  note t1 = sfs_namei_typed [OF n assms(2)]
  show ?thesis
  proof (cases i)
    case None
    then show ?thesis using assms n t1 by (auto simp: sfs_open_def sfs_create_def split: if_splits)
  next
    case (Some inp)
    obtain fd f2 where a: "fd_alloc f1 = (fd, f2)" by (cases "fd_alloc f1") auto
    note t2 = fd_alloc_typed [OF a]
    from Some t1 have inp: "inp < NIBUF" by simp
    show ?thesis
    proof (cases "find (\<lambda>i. ofile f1 ! i = None) [0..<SFS_NOFILE]")
      case None
      then show ?thesis using assms n t1 Some by (simp add: sfs_open_def)
    next
      case free: (Some k)
      show ?thesis
      proof (cases fd)
        case None
        then show ?thesis using assms n t1 Some free a t2 by (simp add: sfs_open_def)
      next
        case fd: (Some d)
        then have "f' = f2\<lparr>fdtable := (fdtable f2)[d := (fdtable f2 ! d)\<lparr>f_type := 0, f_mode := 0, f_flags := flags,
            f_pos := 0, f_inode := inp\<rparr>], ofile := (ofile f2)[k := Some d]\<rparr>"
          using assms(1) n Some free a by (simp add: sfs_open_def)
        then show ?thesis using t1 t2 assms(3) fd inp by (simp add: sfs_typed_fdtable fd_ptrs_update)
      qed
    qed
  qed
qed

lemma sfs_read_tail:
  assumes "bnd (read_data_block nb f) (\<lambda>(b, f1). if len < 0 then Inl e
      else bnd (read_rest nb1 n2 dst2 (m2 b) f1) (\<lambda>(count, m3, f2).
        Inr (len + count, m3, f2\<lparr>fdtable := (fdtable f2)[d := (fdtable f2 ! d)\<lparr>f_pos := p count\<rparr>]\<rparr>))) = Inr (r, m', f')"
    and "sfs_typed f" and "fd_ptrs (ofile f)" and "d < FDT_SIZE"
  shows "sfs_typed f' \<and> fd_ptrs (ofile f')"
proof -
  obtain b f1 where b: "read_data_block nb f = Inr (b, f1)" using assms(1) by auto
  with assms(1) obtain c f2 where r: "read_rest nb1 n2 dst2 (m2 b) f1 = Inr (c, m', f2)"
    and f': "f' = f2\<lparr>fdtable := (fdtable f2)[d := (fdtable f2 ! d)\<lparr>f_pos := p c\<rparr>]\<rparr>"
    by (auto split: if_splits)
  have "tabs f2 = tabs f" using read_rest_tabs [OF r] read_block_tabs b by (simp add: read_data_block_def)
  then have t2: "sfs_typed f2" "fd_ptrs (ofile f2)" using sfs_typed_tabs assms(2,3) by metis+
  then have "f_inode (fdtable f2 ! d) < NIBUF" using assms(4) by (simp add: sfs_typed_def)
  then show ?thesis using t2 by (simp add: f' sfs_typed_fdtable)
qed

lemma sfs_read_typed:
  assumes "sfs_read fd dst n m f = Inr (r, m', f')" and "sfs_typed f" and "fd_ptrs (ofile f)"
  shows "sfs_typed f' \<and> fd_ptrs (ofile f')"
proof (cases "int SFS_NOFILE \<le> fd")
  case True
  then show ?thesis using assms by (simp add: sfs_read_def)
next
  case False
  have pos: "\<not> fd < 0"
  proof
    assume "fd < 0"
    with assms(1) False show False by (simp add: sfs_read_def)
  qed
  have "ofile f ! nat fd \<noteq> None"
  proof
    assume "ofile f ! nat fd = None"
    with assms(1) False pos show False by (simp add: sfs_read_def)
  qed
  with pos obtain d where d: "\<not> fd < 0" "ofile f ! nat fd = Some d" by blast
  then have "Some d \<in> set (ofile f)"
    using False assms(3) nth_mem [of "nat fd" "ofile f"] by (auto simp: fd_ptrs_def)
  then have dn: "d < FDT_SIZE" using assms(3) by (auto simp: fd_ptrs_def)
  note run = assms(1) [unfolded sfs_read_def d Let_def if_not_P [OF False] if_not_P [OF d(1)] option.case]
  show ?thesis by (rule sfs_read_tail [OF run assms(2,3) dn])
qed

lemma sfs_read_file_tabs: "sfs_read_file nm dst n m f = Inr (r, m', f') \<Longrightarrow> tabs f' = tabs f"
  by (auto simp: sfs_read_file_def Let_def split: option.splits if_splits dest!: sfs_find_index_tabs read_rest_tabs)

lemma sfs_read_file_typed: "sfs_read_file nm dst n m f = Inr (r, m', f') \<Longrightarrow> sfs_typed f \<Longrightarrow> sfs_typed f'"
  using sfs_read_file_tabs sfs_typed_tabs(1) by metis

lemma sfs_stat_typed: "sfs_stat_path nm f = Inr (r, st, f') \<Longrightarrow> sfs_typed f \<Longrightarrow> sfs_typed f'"
  by (auto simp: sfs_stat_path_def Let_def split: option.splits dest!: sfs_namei_typed)

section \<open>System calls and traps\<close>

definition well_typed :: "ksys \<Rightarrow> bool" where
  "well_typed s \<longleftrightarrow> kst_typed (sk s) \<and> cons_typed (sc s) \<and> sfs_typed (sf s)"

lemma cur_typed: "cur s = Inr c \<Longrightarrow> kst_typed (sk s) \<Longrightarrow> c < NPROC"
  using kst_typedD(2) [of "sk s"] by (auto simp: cur_def split: option.splits)

lemma well_typedI: "kst_typed (sk s) \<Longrightarrow> cons_typed (sc s) \<Longrightarrow> sfs_typed (sf s) \<Longrightarrow> well_typed s"
  by (simp add: well_typed_def)

lemma well_typedD: "well_typed s \<Longrightarrow> kst_typed (sk s)" "well_typed s \<Longrightarrow> cons_typed (sc s)" "well_typed s \<Longrightarrow> sfs_typed (sf s)"
  by (simp_all add: well_typed_def)

lemma fold_kprint_typed: "cons_typed c \<Longrightarrow> cons_typed (fold (\<lambda>i. kprint (f i) (g i)) xs c)"
  by (induction xs arbitrary: c) simp_all

lemma show_args_typed: "cons_typed c \<Longrightarrow> cons_typed (show_args path args c)"
  by (simp add: show_args_def fold_kprint_typed)

lemma exec_fail_typed: "exec_fail d s = Inr (r, s') \<Longrightarrow> well_typed s \<Longrightarrow> well_typed s'"
  by (auto simp: exec_fail_def Let_def well_typed_def split: if_splits)

lemma exec_stack_typed: "exec_stack c d e rg argv s = Inr (r, s') \<Longrightarrow> well_typed s \<Longrightarrow> well_typed s'"
proof -
  assume a: "exec_stack c d e rg argv s = Inr (r, s')" and t: "well_typed s"
  obtain m1 q k1 where k1: "exec_args (t_pgdir (tget (sk s) c)) 0 USTACKTOP [] argv ((sk s)\<lparr>km := m1\<rparr>) = Inr (q, k1)" and
    b: "(case q of None \<Rightarrow> exec_fail d (s\<lparr>sk := k1\<rparr>) | Some (sp, ptrs) \<Rightarrow>
      let argc = of_nat (length ptrs) :: u32; sp1 = sp - (3 + argc) * 4; fw = [argc, sp - (argc + 1) * 4] @ ptrs @ [0]
      in bnd (copyout_bytes (t_pgdir (tget (sk s) c)) sp1 (word_bytes fw) (km k1)) (\<lambda>(r2, m2).
         if r2 < 0 then exec_fail d (s\<lparr>sk := k1\<lparr>km := m2\<rparr>\<rparr>)
         else bnd (exec_switch c d e sp1 rg (k1\<lparr>km := m2\<rparr>)) (\<lambda>k2.
              Inr (0, s\<lparr>sk := k2, sc := kprint ''---+--+--- exec() end\<newline>'' [] (sc s)\<rparr>)))) = Inr (r, s')"
    using a by (auto simp: exec_stack_def Let_def)
  have kt: "kst_typed k1" using exec_args_typed [OF k1] t by (simp add: well_typed_def)
  then have fk: "well_typed (s\<lparr>sk := k1\<lparr>km := m\<rparr>\<rparr>)" "well_typed (s\<lparr>sk := k1\<rparr>)" for m
    using t by (simp_all add: well_typed_def)
  have kt': "kst_typed (k1\<lparr>km := m\<rparr>)" for m using kt by simp
  show ?thesis
    using b t fk exec_switch_typed [OF _ kt'] exec_fail_typed
    by (auto simp: Let_def well_typed_def split: option.splits if_splits)
qed

lemma exec_typed:
  assumes "exec hdr g path argv s = Inr (r, s')" and "well_typed s"
  shows "well_typed s'"
  using assms
  by (auto simp: exec_def Let_def well_typed_def show_args_typed split: if_splits
      dest!: exec_fail_typed exec_stack_typed heap_calls_typed exec_segments_typed uwrites_typed
      sfs_read_file_typed sfs_stat_typed)

lemma with_files_typed:
  assumes "with_files c f s = Inr (x, s')" and "well_typed s" and "c < NPROC"
    and "\<And>g y g'. f g = Inr (y, g') \<Longrightarrow> sfs_typed g \<Longrightarrow> fd_ptrs (ofile g) \<Longrightarrow> sfs_typed g' \<and> fd_ptrs (ofile g')"
  shows "well_typed s' \<and> sc s' = sc s"
proof -
  let ?g = "(sf s)\<lparr>ofile := t_ofile (tget (sk s) c)\<rparr>"
  obtain g' where g: "f ?g = Inr (x, g')" and s': "s' = s\<lparr>sf := g', sk := tupd c (\<lambda>t. t\<lparr>t_ofile := ofile g'\<rparr>) (sk s)\<rparr>"
    using assms(1) by (auto simp: with_files_def)
  have "fd_ptrs (ofile ?g)" using kst_typedD(7) [OF well_typedD(1) [OF assms(2)] assms(3)] by simp
  with assms(4) [OF g] well_typedD(3) [OF assms(2)] have "sfs_typed g'" "fd_ptrs (ofile g')" by simp_all
  then show ?thesis using assms(2) by (simp add: s' well_typed_def kst_typed_tupd)
qed

definition call_typed :: "(ksys \<Rightarrow> (int ctl \<times> ksys) res) \<Rightarrow> bool" where
  "call_typed call \<longleftrightarrow> (\<forall>s r s'. call s = Inr (r, s') \<longrightarrow> well_typed s \<longrightarrow>
     well_typed s' \<and> (\<forall>i. r = Run i \<longrightarrow> i < NPROC))"

lemma simple_calls_typed [typed]:
  "call_typed sys_gticks" "call_typed sys_creat" "call_typed sys_write" "call_typed sys_close" "call_typed sys_fork"
  "call_typed sys_wait" "call_typed (sys_exit tp)" "call_typed (sys_exec hdr g)"
  by (auto simp: call_typed_def sys_gticks_def sys_creat_def sf_creat_def filecreat_def sys_write_def sf_write_def
      filewrite_def sys_close_def sf_close_def fileclose_def sys_fork_def sys_wait_def sys_exit_def sys_exec_def
      well_typed_def put_c_typed split: if_splits option.splits
      dest!: fork_typed wait_typed exit_typed exec_typed)

lemma sys_open_typed [typed]: "call_typed sys_open"
proof (unfold call_typed_def, intro allI impI)
  fix s r s'
  assume a: "sys_open s = Inr (r, s')" and t: "well_typed s"
  obtain path flag c fd c1 s1 where c: "cur s = Inr c" and r: "r = Ret fd" "s' = s1\<lparr>sc := c1\<rparr>" and
    w: "with_files c (\<lambda>f. bnd (sf_open path flag (sc s, f)) (\<lambda>(fd, c1, f1). Inr ((fd, c1), f1))) s = Inr ((fd, c1), s1)"
    using a by (auto simp: sys_open_def)
  have "well_typed s1 \<and> sc s1 = sc s"
    by (rule with_files_typed [OF w t cur_typed [OF c well_typedD(1) [OF t]]])
      (auto simp: sf_open_def dest: sfs_open_typed)
  moreover have "cons_typed c1" using w t by (auto simp: with_files_def sf_open_def well_typed_def)
  ultimately show "well_typed s' \<and> (\<forall>i. r = Run i \<longrightarrow> i < NPROC)" by (simp add: r well_typed_def)
qed

lemma sys_read_typed [typed]: "call_typed sys_read"
proof (unfold call_typed_def, intro allI impI)
  fix s r s'
  assume a: "sys_read s = Inr (r, s')" and t: "well_typed s"
  obtain fd len :: u32 and p c where c: "cur s = Inr c" and
    b: "(if fd = 0
       then (case stdin_read (sint len) (sc s) of (r, bs, c1) \<Rightarrow>
               bnd (uwrites p bs (sk s)) (\<lambda>k1. Inr (Ret r, s\<lparr>sk := k1, sc := c1\<rparr>)))
       else bnd (with_files c (\<lambda>f. bnd (sf_read (sint fd) p len (uview (sk s)) f) (\<lambda>(r, v, f1). Inr ((r, v), f1))) s)
              (\<lambda>((r, v), s1). bnd (uwrites p (bytes_at v p (nat r)) (sk s1)) (\<lambda>k1. Inr (Ret r, s1\<lparr>sk := k1\<rparr>)))) = Inr (r, s')"
    using a by (auto simp: sys_read_def)
  show "well_typed s' \<and> (\<forall>i. r = Run i \<longrightarrow> i < NPROC)"
  proof (cases "fd = 0")
    case True
    then show ?thesis using b t
      by (auto simp: stdin_read_def well_typed_def split: prod.splits dest!: uwrites_typed dest: stdin_loop_typed)
  next
    case False
    then obtain n v s1 k1 where
      w: "with_files c (\<lambda>f. bnd (sf_read (sint fd) p len (uview (sk s)) f) (\<lambda>(r, v, f1). Inr ((r, v), f1))) s = Inr ((n, v), s1)"
      and u: "uwrites p (bytes_at v p (nat n)) (sk s1) = Inr k1" and r: "r = Ret n" "s' = s1\<lparr>sk := k1\<rparr>"
      using b by auto
    have "well_typed s1 \<and> sc s1 = sc s"
      by (rule with_files_typed [OF w t cur_typed [OF c well_typedD(1) [OF t]]])
        (auto simp: sf_read_def dest: sfs_read_typed)
    then show ?thesis using uwrites_typed [OF u] by (auto simp: r well_typed_def)
  qed
qed

lemma sys_stat_typed [typed]: "call_typed sys_stat"
  by (auto simp: call_typed_def sys_stat_def sf_stat_def well_typed_def dest!: uwrites_typed sfs_stat_typed)

lemma set_eax_typed: "set_eax v s = Inr s' \<Longrightarrow> well_typed s' = well_typed s"
  by (auto simp: set_eax_def well_typed_def)

lemma syscalls_typed: "n < length (syscalls j) \<Longrightarrow> syscalls j ! n = Some call \<Longrightarrow> call_typed call"
proof -
  assume "n < length (syscalls j)" "syscalls j ! n = Some call"
  then have "Some call \<in> set (syscalls j)" using nth_mem by fastforce
  then show ?thesis by (auto simp: syscalls_def typed)
qed

lemma syscall_typed:
  assumes "syscall j s = Inr (r, s')" and "well_typed s"
  shows "well_typed s' \<and> task_ptr r"
proof -
  obtain c where c: "cur s = Inr c" using assms(1) by (auto simp: syscall_def)
  define n where "n = unat (ld32 (kmem (sk s)) (t_tf (tget (sk s) c) + TF_EAX))"
  have n: "n < length (syscalls j)" using assms(1) c by (auto simp: syscall_def n_def Let_def not_le split: if_splits)
  show ?thesis
  proof (cases "syscalls j ! n")
    case None
    then show ?thesis using assms c n
      by (auto simp: syscall_def n_def Let_def well_typed_def dest!: set_eax_typed)
  next
    case (Some call)
    note t = syscalls_typed [OF n Some, unfolded call_typed_def, rule_format, OF _ assms(2)]
    obtain x s1 where x: "call s = Inr (x, s1)" using assms(1) c n Some by (auto simp: syscall_def n_def Let_def)
    then show ?thesis using assms c n Some t [OF x]
      by (auto simp: syscall_def n_def Let_def split: ctl.splits dest!: set_eax_typed)
  qed
qed


text \<open>A task asks for the ticks of the timer.\<close>

definition asking :: ksys where
  "asking = \<lparr>
     sk = three_tasks\<lparr>tasks := replicate NPROC (a_task\<lparr>t_ofile := replicate NOFILE None, t_tf := 0x1000\<rparr>),
       km := two_pages\<lparr>mem := (\<lambda>_. 0)(0x102C := 6, 0x1034 := 48)\<rparr>\<rparr>,
     sc = blank_cons, sf = demo, ck = \<lparr>timer_ticks = 250, reent = - 1\<rparr>, kbd = (0, [])\<rparr>"

definition no_ports :: ports where
  "no_ports = \<lparr>eflags = 2, cr2 = 0, port61 = 0, line = [], hd_status = (\<lambda>_. 0), hd_bytes = []\<rparr>"

definition no_junk :: stack_junk where
  "no_junk = \<lparr>j_tp = None, j_hdr = (\<lambda>_. 0), j_pgdir = 0\<rparr>"

lemma asking_typed: "well_typed asking"
proof (rule well_typedI)
  show "kst_typed (sk asking)"
    by (simp add: asking_def kst_typed_def task_typed_def fd_ptrs_def a_task_def three_tasks_def)
  show "cons_typed (sc asking)" using blank_cons_ok by (simp add: asking_def cons_typed_def blank_cons_def)
  show "sfs_typed (sf asking)" by (simp add: asking_def sfs_typed_def demo_def)
qed

lemma asking_trap: "\<exists>s'. trap no_ports no_junk 0x1000 asking = Inr (None, s') \<and> ld32 (kmem (sk s')) 0x102C = 250"
  by (simp add: trap_def asking_def no_ports_def no_junk_def syscall_def syscalls_def cur_def three_tasks_def sys_gticks_def
      set_eax_def set_tf_def set_mem_def tget_def a_task_def ld32_def st32_def)


end
