(* ===== verification/Fs_Minix.thy ===== *)
theory Fs_Minix
  imports Fs_Block Kern_Printf
begin

text \<open>
  The reader for Minix file systems, \<^verbatim>\<open>fs/minix/fs_minix.c\<close> with \<^verbatim>\<open>inc/fs_minix.h\<close>. A pointer into one of the two
  tables is an index. \<open>m_ofile\<close> are the open files of the current task.
\<close>

section \<open>Data\<close>

abbreviation MINIX_MAGIC :: u16 where "MINIX_MAGIC \<equiv> 0x137F"
abbreviation MINIX_MAGIC2 :: u16 where "MINIX_MAGIC2 \<equiv> 0x138F"
abbreviation DIR_LEN :: nat where "DIR_LEN \<equiv> 30"
abbreviation NDIRECT :: u32 where "NDIRECT \<equiv> 7"
abbreviation ADDR_LEN :: nat where "ADDR_LEN \<equiv> 9"
abbreviation BPB :: u32 where "BPB \<equiv> 2"
abbreviation ROOTDEV :: u32 where "ROOTDEV \<equiv> 1"
abbreviation ROOTINO :: u32 where "ROOTINO \<equiv> 1"
abbreviation T_DEV :: u16 where "T_DEV \<equiv> 3"
abbreviation NINODE :: nat where "NINODE \<equiv> 128"
abbreviation NFILE :: nat where "NFILE \<equiv> 256"
abbreviation M_NOFILE :: nat where "M_NOFILE \<equiv> 16"
abbreviation DE_SIZE :: u32 where "DE_SIZE \<equiv> 32"

record d_superblock =
  s_ninodes :: u16
  s_nzones :: u16
  s_imap_blks :: u16
  s_zmap_blks :: u16
  s_firstdatazone :: u16
  s_log_zone_size :: u16
  s_max_size :: u32
  s_magic :: u16

record superblock = d_superblock +
  s_dev :: u16
  s_flag :: u16
  s_time :: u32

record minix_inode =
  mi_type :: u16
  mi_uid :: u16
  mi_size :: u32
  mi_time :: u32
  mi_gid :: u8
  mi_count :: u8
  mi_addr :: "u16 list"
  mi_dev :: u16
  mi_inum :: u16
  mi_ref :: u16
  mi_flag :: u32

record minix_file =
  mf_mode :: u32
  mf_flags :: u32
  mf_ref :: u32
  mf_pos :: u32
  mf_inode :: "nat option"

record minix =
  mbio :: bio
  m_inode :: "minix_inode list"
  m_file :: "minix_file list"
  m_ofile :: "nat option list"
  m_sb :: superblock
  mcons :: cons

text \<open>Both structures as they lie in a block; the one in memory is packed.\<close>

definition get_d_sb :: "u8 list \<Rightarrow> d_superblock" where
  "get_d_sb b = \<lparr>s_ninodes = of_nat (field 0 2 b), s_nzones = of_nat (field 2 2 b), s_imap_blks = of_nat (field 4 2 b),
     s_zmap_blks = of_nat (field 6 2 b), s_firstdatazone = of_nat (field 8 2 b), s_log_zone_size = of_nat (field 10 2 b),
     s_max_size = of_nat (field 12 4 b), s_magic = of_nat (field 16 2 b)\<rparr>"

definition get_sb :: "u8 list \<Rightarrow> superblock" where
  "get_sb b = d_superblock.extend (get_d_sb b)
     \<lparr>s_dev = of_nat (field 18 2 b), s_flag = of_nat (field 20 2 b), s_time = of_nat (field 22 4 b)\<rparr>"

definition ip_get :: "minix \<Rightarrow> nat \<Rightarrow> minix_inode" where
  "ip_get s i = m_inode s ! i"

definition ip_upd :: "nat \<Rightarrow> (minix_inode \<Rightarrow> minix_inode) \<Rightarrow> minix \<Rightarrow> minix" where
  "ip_upd i f s = s\<lparr>m_inode := (m_inode s)[i := f (m_inode s ! i)]\<rparr>"

definition mprint :: "string \<Rightarrow> arg list \<Rightarrow> minix \<Rightarrow> minix" where
  "mprint fmt args s = s\<lparr>mcons := kprint fmt args (mcons s)\<rparr>"

section \<open>Blocks and inodes\<close>

text \<open>\<open>st\<close> is what the status port of the disk answers.\<close>

definition m_read :: "(nat \<Rightarrow> u8) \<Rightarrow> u32 \<Rightarrow> u32 \<Rightarrow> minix \<Rightarrow> (u8 list \<times> minix) res" where
  "m_read st dev blk s = bnd (dev_read st dev blk (mbio s)) (\<lambda>(b, d). Inr (b, s\<lparr>mbio := d\<rparr>))"

definition readsb :: "(nat \<Rightarrow> u8) \<Rightarrow> u32 \<Rightarrow> minix \<Rightarrow> (d_superblock \<times> minix) res" where
  "readsb st dev s = bnd (m_read st dev (1 * BPB) s) (\<lambda>(b, s1). Inr (get_d_sb b, s1))"

definition balloc :: "u32 \<Rightarrow> u32" where
  "balloc dev = 0"

definition bfree :: "u32 \<Rightarrow> u32 \<Rightarrow> minix \<Rightarrow> minix" where
  "bfree dev bn s = s"

definition ialloc :: "u32 \<Rightarrow> u32 \<Rightarrow> nat option" where
  "ialloc dev type = None"

definition ifree :: "u32 \<Rightarrow> u32 \<Rightarrow> minix \<Rightarrow> minix" where
  "ifree dev bn s = s"

definition iget :: "u32 \<Rightarrow> u32 \<Rightarrow> minix \<Rightarrow> (nat \<times> minix) res" where
  "iget dev n s =
     (case find (\<lambda>i. mi_ref (ip_get s i) > 0 \<and> ucast (mi_dev (ip_get s i)) = dev \<and> ucast (mi_inum (ip_get s i)) = n)
             [0..<NINODE] of
        Some i \<Rightarrow> Inr (i, ip_upd i (\<lambda>ip. ip\<lparr>mi_ref := mi_ref ip + 1\<rparr>) s)
      | None \<Rightarrow>
          (case find (\<lambda>i. mi_ref (ip_get s i) = 0) [0..<NINODE] of
             None \<Rightarrow> Inl (Panic ''iget: no inodes caches'')
           | Some i \<Rightarrow>
               Inr (i, ip_upd i (\<lambda>ip. ip\<lparr>mi_dev := ucast dev, mi_inum := ucast n, mi_ref := 1, mi_flag := 0\<rparr>) s)))"

definition idup :: "nat \<Rightarrow> minix \<Rightarrow> nat \<times> minix" where
  "idup i s = (i, ip_upd i (\<lambda>ip. ip\<lparr>mi_ref := mi_ref ip + 1\<rparr>) s)"

definition iput :: "nat \<Rightarrow> minix \<Rightarrow> minix" where
  "iput i s = ip_upd i (\<lambda>ip. ip\<lparr>mi_ref := mi_ref ip - 1\<rparr>) s"

definition bmap :: "nat \<Rightarrow> u32 \<Rightarrow> minix \<Rightarrow> (u32 \<times> minix) res" where
  "bmap i bn s =
     (if bn < NDIRECT
      then let addr = ucast (mi_addr (ip_get s i) ! unat bn)
           in if addr = 0
              then let a = balloc (ucast (mi_dev (ip_get s i)))
                   in Inr (a, ip_upd i (\<lambda>ip. ip\<lparr>mi_addr := (mi_addr ip)[unat bn := ucast a]\<rparr>) s)
              else Inr (addr, s)
      else Inl (Panic ''bmap: TODO''))"

section \<open>Reading and writing\<close>

text \<open>
  One pass of the loops copies \<^verbatim>\<open>min(n - s, SECT_SIZE - off % SECT_SIZE)\<close> bytes; \<open>left\<close> is \<^verbatim>\<open>n - s\<close>. The bytes read are
  the second component of the result.
\<close>

definition chunk_len :: "u32 \<Rightarrow> u32 \<Rightarrow> u32" where
  "chunk_len left off = (if left < 512 - off mod 512 then left else 512 - off mod 512)"

lemma chunk_len_bounds:
  fixes off :: u32
  assumes "left \<noteq> 0"
  shows "0 < unat (chunk_len left off)" "unat (chunk_len left off) \<le> unat left"
    "unat (left - chunk_len left off) = unat left - unat (chunk_len left off)"
    "unat (off mod 512) + unat (chunk_len left off) \<le> 512"
proof -
  have m: "unat (off mod 512) < 512" by (simp add: unat_mod)
  then have d: "unat (512 - off mod 512) = 512 - unat (off mod 512)"
    by (subst unat_sub) (simp_all add: word_le_nat_alt)
  have l: "0 < unat left" using assms by (simp add: unat_gt_0)
  show 1: "0 < unat (chunk_len left off)" using l m d by (simp add: chunk_len_def)
  show 2: "unat (chunk_len left off) \<le> unat left"
    by (auto simp: chunk_len_def word_less_nat_alt)
  then show "unat (left - chunk_len left off) = unat left - unat (chunk_len left off)"
    by (intro unat_sub) (simp add: word_le_nat_alt)
  show "unat (off mod 512) + unat (chunk_len left off) \<le> 512"
    using m d by (auto simp: chunk_len_def word_less_nat_alt)
qed

lemma chunk_len_decreases: "left \<noteq> 0 \<Longrightarrow> unat (left - chunk_len left off) < unat left"
  using chunk_len_bounds [of left off] by simp

function readi_loop :: "(nat \<Rightarrow> u8) \<Rightarrow> nat \<Rightarrow> u32 \<Rightarrow> u32 \<Rightarrow> u8 list \<Rightarrow> minix \<Rightarrow> (u8 list \<times> minix) res" where
  "readi_loop st i off left out s =
     (if left = 0 then Inr (out, s)
      else bnd (bmap i (off div 512) s) (\<lambda>(blk, s1).
           bnd (m_read st (ucast (mi_dev (ip_get s1 i))) blk s1) (\<lambda>(b, s2).
           let m = chunk_len left off
           in readi_loop st i (off + m) (left - m) (out @ bytes (unat (off mod 512)) (unat m) b) s2)))"
  by pat_completeness auto
termination readi_loop
  by (relation "measure (\<lambda>(st, i, off, left, out, s). unat left)") (simp_all add: chunk_len_decreases)

declare readi_loop.simps [simp del]

definition readi :: "(nat \<Rightarrow> u8) \<Rightarrow> nat \<Rightarrow> u32 \<Rightarrow> u32 \<Rightarrow> minix \<Rightarrow> (int \<times> u8 list \<times> minix) res" where
  "readi st i off n s =
     (let sz = mi_size (ip_get s i); n1 = (if sz < off + n then sz - off else n)
      in if mi_type (ip_get s i) = T_DEV then Inl (Panic ''readi: TODO'')
         else if sz < off then Inr (- 1, [], mprint ''readi: arguments wrong'' [] s)
         else bnd (readi_loop st i off n1 [] s) (\<lambda>(out, s1). Inr (sint n1, out, s1)))"

definition m_write :: "(nat \<Rightarrow> u8) \<Rightarrow> u32 \<Rightarrow> u32 \<Rightarrow> nat \<Rightarrow> u8 list \<Rightarrow> minix \<Rightarrow> minix res" where
  "m_write st dev blk off bs s =
     bnd (bread st dev blk (mbio s)) (\<lambda>(g, d1).
       case g of
         Got j \<Rightarrow>
           (let f = (\<lambda>b. b\<lparr>b_data := take off (b_data b) @ bs @ drop (off + length bs) (b_data b)\<rparr>)
            in bnd (bwrite st j (bupd j f d1)) (\<lambda>(ready, d2).
               if ready then bnd (brelse j d2) (\<lambda>d3. Inr (s\<lparr>mbio := d3\<rparr>)) else Inl (Asleep ''bwrite'')))
       | _ \<Rightarrow> Inl (Asleep ''bread''))"

function writei_loop :: "(nat \<Rightarrow> u8) \<Rightarrow> nat \<Rightarrow> u8 list \<Rightarrow> u32 \<Rightarrow> u32 \<Rightarrow> minix \<Rightarrow> minix res" where
  "writei_loop st i src off left s =
     (if left = 0 then Inr s
      else bnd (bmap i (off div 512) s) (\<lambda>(blk, s1).
           let m = chunk_len left off
           in bnd (m_write st (ucast (mi_dev (ip_get s1 i))) blk (unat (off mod 512)) (take (unat m) src) s1) (\<lambda>s2.
              writei_loop st i (drop (unat m) src) (off + m) (left - m) s2)))"
  by pat_completeness auto
termination writei_loop
  by (relation "measure (\<lambda>(st, i, src, off, left, s). unat left)") (simp_all add: chunk_len_decreases)

declare writei_loop.simps [simp del]

text \<open>\<open>src\<close> are the \<open>n\<close> bytes at the source.\<close>

definition writei :: "(nat \<Rightarrow> u8) \<Rightarrow> nat \<Rightarrow> u8 list \<Rightarrow> u32 \<Rightarrow> u32 \<Rightarrow> minix \<Rightarrow> (int \<times> minix) res" where
  "writei st i src off n s =
     (if mi_type (ip_get s i) = T_DEV then Inl (Panic ''writei: TODO'')
      else if mi_size (ip_get s i) < off then Inr (- 1, mprint ''writei: arguments wrong'' [] s)
      else bnd (writei_loop st i src off n s) (\<lambda>s1. Inr (sint n, s1)))"

section \<open>Paths\<close>

text \<open>
  A path is the list of its characters; \<^verbatim>\<open>name\<close> is an array of 30 bytes that keeps what it held beyond the new name.
\<close>

definition put_name :: "u8 list \<Rightarrow> u8 list \<Rightarrow> u8 list" where
  "put_name elt name =
     (if DIR_LEN \<le> length elt then take DIR_LEN elt
      else elt @ [0] @ drop (length elt + 1) name)"

definition path_down :: "u8 list \<Rightarrow> u8 list \<Rightarrow> (u8 list \<times> u8 list) option" where
  "path_down path name =
     (let p = dropWhile (\<lambda>c. c = 47) path
      in if p = [] then None
         else Some (dropWhile (\<lambda>c. c = 47) (dropWhile (\<lambda>c. c \<noteq> 47) p), put_name (takeWhile (\<lambda>c. c \<noteq> 47) p) name))"

text \<open>\<^verbatim>\<open>strncmp\<close> of this kernel compares all 30 bytes, also behind a NUL.\<close>

partial_function (option) search_dir_loop ::
    "(nat \<Rightarrow> u8) \<Rightarrow> nat \<Rightarrow> u8 list \<Rightarrow> u32 \<Rightarrow> minix \<Rightarrow> (nat option \<times> minix) res option" where
  "search_dir_loop st dp name len s =
     (if mi_size (ip_get s dp) \<le> len then Some (Inr (None, s))
      else case readi st dp len DE_SIZE s of
             Inl e \<Rightarrow> Some (Inl e)
           | Inr (r, de, s1) \<Rightarrow>
               if word_of_int r \<noteq> DE_SIZE then Some (Inl (Panic ''search_dir: readi fail''))
               else if name = bytes 2 DIR_LEN de
               then Some (bnd (iget (ucast (mi_dev (ip_get s1 dp))) (of_nat (field 0 2 de)) s1) (\<lambda>(i, s2). Inr (Some i, s2)))
               else search_dir_loop st dp name (len + DE_SIZE) s1)"

definition search_dir :: "(nat \<Rightarrow> u8) \<Rightarrow> nat \<Rightarrow> u8 list \<Rightarrow> minix \<Rightarrow> (nat option \<times> minix) res" where
  "search_dir st dp name s = ended ''search_dir'' (search_dir_loop st dp name 0 s)"

definition dump_inode :: "nat \<Rightarrow> minix \<Rightarrow> minix" where
  "dump_inode i s =
     mprint ''ip->count(x): %x\<newline>'' [Num (ucast (mi_count (ip_get s i)))]
       (mprint ''ip->size(x): %x\<newline>'' [Num (mi_size (ip_get s i))]
         (mprint ''ip->type(d): %d\<newline>'' [Num (ucast (mi_type (ip_get s i)))] s))"

lemma path_down_shorter: "path_down path name = Some (rest, name') \<Longrightarrow> length rest < length path"
proof -
  assume a: "path_down path name = Some (rest, name')"
  let ?p = "dropWhile (\<lambda>c. c = 47) path"
  have p: "?p \<noteq> []" and r: "rest = dropWhile (\<lambda>c. c = 47) (dropWhile (\<lambda>c. c \<noteq> 47) ?p)"
    using a by (auto simp: path_down_def Let_def split: if_splits)
  then obtain x xs where x: "?p = x # xs" by (cases ?p) auto
  then have "x \<noteq> 47" by (metis (mono_tags) hd_dropWhile list.distinct(1) list.sel(1))
  then have "length rest \<le> length xs"
    using r x by (simp) (meson le_trans length_dropWhile_le)
  also have "\<dots> < length path" using x length_dropWhile_le [of "\<lambda>c. c = 47" path] by simp
  finally show ?thesis .
qed

text \<open>\<open>after\<close> is what follows \<^verbatim>\<open>name\<close> on the stack: \<^verbatim>\<open>%s\<close> runs on when the name fills the array.\<close>

function namei_loop ::
    "(nat \<Rightarrow> u8) \<Rightarrow> u8 list \<Rightarrow> u8 list \<Rightarrow> u8 list \<Rightarrow> nat \<Rightarrow> minix \<Rightarrow> (nat option \<times> minix) res" where
  "namei_loop st after path name ip s =
     (case path_down path name of
        None \<Rightarrow> Inr (Some ip, s)
      | Some (rest, name1) \<Rightarrow>
          bnd (search_dir st ip name1 (mprint ''namei: path: %s, name: %s\<newline>''
                 [Str rest, Str (takeWhile (\<lambda>c. c \<noteq> 0) (name1 @ after))] s)) (\<lambda>(r, s1).
          case r of
            None \<Rightarrow> Inr (None, mprint ''file not found\<newline>'' [] s1)
          | Some nx \<Rightarrow> namei_loop st after rest name1 nx s1))"
  by pat_completeness auto
termination namei_loop
  by (relation "measure (\<lambda>(st, after, path, name, ip, s). length path)") (simp_all, metis path_down_shorter)

declare namei_loop.simps [simp del]

text \<open>\<open>cwd\<close> is the working directory of the current task, which no code sets.\<close>

definition namei :: "(nat \<Rightarrow> u8) \<Rightarrow> u8 list \<Rightarrow> u8 list \<Rightarrow> nat option \<Rightarrow> u8 list \<Rightarrow> minix \<Rightarrow> (nat option \<times> minix) res" where
  "namei st name after cwd path s =
     (if path \<noteq> [] \<and> hd path = 47
      then bnd (iget ROOTDEV ROOTINO s) (\<lambda>(ip, s1). namei_loop st after path name ip s1)
      else case cwd of
             None \<Rightarrow> Inl (Fault ''idup: cwd is NULL'')
           | Some c \<Rightarrow> (case idup c s of (ip, s1) \<Rightarrow> namei_loop st after path name ip s1))"

section \<open>The file calls\<close>

definition dump_superblock :: "superblock \<Rightarrow> minix \<Rightarrow> minix" where
  "dump_superblock b = fold (\<lambda>(nm, fmt, v). mprint (''sb.'' @ nm @ '':'' @ [CHR 0x09] @ fmt @ ''\<newline>'') [Num v])
     [(''s_ninodes'', ''%d'', ucast (s_ninodes b)), (''s_nzones'', ''%d'', ucast (s_nzones b)),
      (''s_imap_blks'', ''%x'', ucast (s_imap_blks b)), (''s_zmap_blks'', ''%x'', ucast (s_zmap_blks b)),
      (''s_firstdatazone'', ''%d'', ucast (s_firstdatazone b)), (''s_log_zone_size'', ''%d'', ucast (s_log_zone_size b)),
      (''s_max_size'', ''%x'', s_max_size b), (''s_magic'', ''%x'', ucast (s_magic b)), (''s_dev'', ''%d'', ucast (s_dev b)),
      (''s_flag'', ''%d'', ucast (s_flag b)), (''s_time'', ''%d'', s_time b)]"

definition mk_minixfs :: "minix \<Rightarrow> minix res" where
  "mk_minixfs s = Inl (Panic ''In mk_minixfs'')"

definition check_minixfs :: "(nat \<Rightarrow> u8) \<Rightarrow> minix \<Rightarrow> minix res" where
  "check_minixfs st s =
     bnd (m_read st ROOTDEV 2 (mprint ''do some minixfs check...\<newline>'' [] s)) (\<lambda>(b, s1).
       let s2 = s1\<lparr>m_sb := get_sb b\<rparr>; s3 = mprint ''magic: %x\<newline>'' [Num (ucast (s_magic (m_sb s2)))] s2
       in if s_magic (m_sb s3) = MINIX_MAGIC \<or> s_magic (m_sb s3) = MINIX_MAGIC2
          then Inr (dump_superblock (m_sb s3) (mprint ''The fs is a minix fs\<newline>'' [] s3))
          else mk_minixfs s3)"

definition minix_fileopen ::
    "(nat \<Rightarrow> u8) \<Rightarrow> u8 list \<Rightarrow> u8 list \<Rightarrow> nat option \<Rightarrow> u8 list \<Rightarrow> u32 \<Rightarrow> minix \<Rightarrow> (int \<times> minix) res" where
  "minix_fileopen st name after cwd path flags s =
     bnd (check_minixfs st s) (\<lambda>s1.
     bnd (namei st name after cwd path (mprint ''In open: path: %s\<newline>'' [Str path] s1)) (\<lambda>(r, s2).
       case r of
         None \<Rightarrow> Inr (- 1, s2)
       | Some inp \<Rightarrow>
           (case find (\<lambda>i. m_ofile s2 ! i = None) [0..<M_NOFILE] of
              None \<Rightarrow> Inl (Panic ''open: ofile[] is full!'')
            | Some fd \<Rightarrow>
                (case find (\<lambda>i. mf_inode (m_file s2 ! i) = None) [0..<NFILE] of
                   None \<Rightarrow> Inl (Panic ''open: file[] is full!'')
                 | Some i \<Rightarrow>
                     Inr (int fd, s2\<lparr>m_ofile := (m_ofile s2)[fd := Some i],
                       m_file := (m_file s2)[i := (m_file s2 ! i)\<lparr>mf_inode := Some inp, mf_mode := flags, mf_pos := 0\<rparr>]\<rparr>)))))"

text \<open>\<open>count\<close> is the value of a variable that is never assigned.\<close>

definition minix_filecreat :: "minix \<Rightarrow> int \<times> minix" where
  "minix_filecreat s = (0, s)"

definition minix_fileread :: "int \<Rightarrow> minix \<Rightarrow> int \<times> minix" where
  "minix_fileread count s = (count, mprint ''In read\<newline>'' [] s)"

definition minix_filewrite :: "int \<Rightarrow> minix \<Rightarrow> int \<times> minix" where
  "minix_filewrite count s = (count, mprint ''In write\<newline>'' [] s)"

definition minix_fileclose :: "minix \<Rightarrow> int \<times> minix" where
  "minix_fileclose s = (0, mprint ''In close\<newline>'' [] s)"

section \<open>What \<open>readi\<close> returns\<close>

text \<open>
  \<open>direct_file d s i\<close>: entry \<open>i\<close> of the table describes a file on the RAM disk \<open>d\<close> that fits into its direct blocks.
\<close>

definition direct_file :: "u16 \<Rightarrow> minix \<Rightarrow> nat \<Rightarrow> bool" where
  "direct_file d s i \<longleftrightarrow> mi_type (ip_get s i) \<noteq> T_DEV \<and> mi_dev (ip_get s i) = d \<and> 7 \<le> length (mi_addr (ip_get s i)) \<and>
     unat (mi_size (ip_get s i)) \<le> 7 * 512 \<and> (\<forall>a \<in> set (take 7 (mi_addr (ip_get s i))). ucast a < disksize (mbio s))"

definition file_bytes :: "minix \<Rightarrow> nat \<Rightarrow> u8 list" where
  "file_bytes s i = concat (map (\<lambda>k. sector (mbio s) (ucast (mi_addr (ip_get s i) ! k))) [0..<7])"

definition m_same :: "minix \<Rightarrow> minix \<Rightarrow> bool" where
  "m_same s s' \<longleftrightarrow> m_inode s' = m_inode s \<and> m_file s' = m_file s \<and> m_ofile s' = m_ofile s \<and> mcons s' = mcons s \<and>
     sector (mbio s') = sector (mbio s) \<and> disksize (mbio s') = disksize (mbio s)"

lemma m_same_refl [simp]: "m_same s s"
  by (simp add: m_same_def)

lemma m_same_trans: "m_same s s' \<Longrightarrow> m_same s' s'' \<Longrightarrow> m_same s s''"
  by (simp add: m_same_def)

lemma m_sameD:
  assumes "m_same s s'"
  shows "ip_get s' i = ip_get s i" "direct_file d s' i = direct_file d s i" "file_bytes s' i = file_bytes s i"
  using assms by (simp_all add: m_same_def direct_file_def file_bytes_def ip_get_def)

lemma bmap_direct: "bn < NDIRECT \<Longrightarrow> bmap i bn s = Inr (ucast (mi_addr (ip_get s i) ! unat bn), s)"
proof (cases "mi_addr (ip_get s i) ! unat bn = 0")
  case True
  have "ip_upd i (\<lambda>ip. ip\<lparr>mi_addr := (mi_addr ip)[unat bn := 0]\<rparr>) s = s"
    using True list_update_id [of "mi_addr (m_inode s ! i)" "unat bn"] by (simp add: ip_upd_def ip_get_def)
  moreover assume "bn < NDIRECT"
  ultimately show ?thesis using True by (simp add: bmap_def balloc_def)
next
  case False
  have "(ucast a :: u32) = 0 \<longleftrightarrow> a = 0" for a :: u16 using ucast_dev(2) [of a 0] by simp
  moreover assume "bn < NDIRECT"
  ultimately show ?thesis using False by (simp add: bmap_def)
qed

lemma m_read_ok:
  assumes "ram_ok d (mbio s)" and "blk < disksize (mbio s)"
  shows "\<exists>s'. m_read st (ucast d) blk s = Inr (sector (mbio s) blk, s') \<and> ram_ok d (mbio s') \<and> m_same s s'"
proof -
  obtain b' where "dev_read st (ucast d) blk (mbio s) = Inr (sector (mbio s) blk, b')" "ram_ok d b'"
      "sector b' = sector (mbio s)" "disksize b' = disksize (mbio s)"
    using ramdev.rdE [OF assms, of st] by blast
  then show ?thesis by (intro exI [of _ "s\<lparr>mbio := b'\<rparr>"]) (simp add: m_read_def m_same_def)
qed

text \<open>The part of a run of blocks that lies in one of them.\<close>

lemma slice_in_block:
  assumes "\<And>k. k < n \<Longrightarrow> length (f k) = 512" and "q < n" and "r + m \<le> 512"
  shows "take m (drop (512 * q + r) (concat (map f [0..<n]))) = take m (drop r (f q))"
  using assms(1,2)
proof (induction n)
  case (Suc n)
  have len: "length (concat (map f [0..<n])) = 512 * n"
    using Suc.prems(1) by (induction n) simp_all
  show ?case
  proof (cases "q = n")
    case True
    with len assms(3) Suc.prems(1) [of n] show ?thesis by simp
  next
    case False
    then have q: "512 * q + 512 \<le> 512 * n" using Suc.prems(2) by simp
    have "take m (drop (512 * q + r) (concat (map f [0..<Suc n]))) = take m (drop (512 * q + r) (concat (map f [0..<n])))"
      using len assms(3) q by simp
    then show ?thesis using Suc False by simp
  qed
qed simp

lemma readi_loop_spec:
  assumes "ram_ok d (mbio s)" and "direct_file d s i" and "unat off + unat left \<le> 7 * 512"
  shows "\<exists>s'. readi_loop st i off left out s = Inr (out @ take (unat left) (drop (unat off) (file_bytes s i)), s') \<and>
    ram_ok d (mbio s') \<and> m_same s s'"
  using assms
proof (induction st i off left out s rule: readi_loop.induct)
  case (1 st i off left out s)
  show ?case
  proof (cases "left = 0")
    case True
    then show ?thesis using "1.prems" by (simp add: readi_loop.simps)
  next
    case False
    define m where "m = chunk_len left off"
    note b = chunk_len_bounds [OF False, of off, folded m_def]
    have q: "unat (off div 512) < 7" using "1.prems"(3) b(1,2) by (simp add: unat_div)
    then have q': "off div 512 < NDIRECT" by (simp add: word_less_nat_alt)
    have off: "unat off = 512 * unat (off div 512) + unat (off mod 512)"
      by (simp add: unat_div unat_mod)
    let ?blk = "ucast (mi_addr (ip_get s i) ! unat (off div 512))"
    have "mi_addr (ip_get s i) ! unat (off div 512) \<in> set (take 7 (mi_addr (ip_get s i)))"
      using nth_mem [of "unat (off div 512)" "take 7 (mi_addr (ip_get s i))"] "1.prems"(2) q by (simp add: direct_file_def)
    then have dev: "mi_dev (ip_get s i) = d" and blk: "?blk < disksize (mbio s)"
      using "1.prems"(2) by (simp_all add: direct_file_def)
    obtain s2 where r: "m_read st (ucast d) ?blk s = Inr (sector (mbio s) ?blk, s2)" "ram_ok d (mbio s2)" "m_same s s2"
      using m_read_ok [OF "1.prems"(1) blk] by blast
    have om: "unat (off + m) = unat off + unat m" using "1.prems"(3) b(2) by (simp add: unat_word_ariths)
    let ?out = "out @ bytes (unat (off mod 512)) (unat m) (sector (mbio s) ?blk)"
    obtain s' where s': "readi_loop st i (off + m) (left - m) ?out s2 =
        Inr (?out @ take (unat (left - m)) (drop (unat (off + m)) (file_bytes s2 i)), s')"
        "ram_ok d (mbio s')" "m_same s2 s'"
      using "1.IH" [OF False bmap_direct [OF q'] refl, of "(sector (mbio s) ?blk, s2)" "sector (mbio s) ?blk" s2 m]
        r dev m_sameD(2) [OF r(3)] "1.prems"(2,3) b(2,3) om m_def by auto
    have "bytes (unat (off mod 512)) (unat m) (sector (mbio s) ?blk) = take (unat m) (drop (unat off) (file_bytes s i))"
      using slice_in_block [where f = "\<lambda>k. sector (mbio s) (ucast (mi_addr (ip_get s i) ! k))" and n = 7, OF _ q b(4)]
      by (simp add: bytes_def file_bytes_def off [symmetric])
    moreover have "take (unat m) X @ take (unat (left - m)) (drop (unat m) X) = take (unat left) X" for X :: "u8 list"
      using b(2,3) take_add [of "unat m" "unat (left - m)" X] by simp
    ultimately have "?out @ take (unat (left - m)) (drop (unat (off + m)) (file_bytes s2 i)) =
        out @ take (unat left) (drop (unat off) (file_bytes s i))"
      using om m_sameD(3) [OF r(3)] by (simp add: add.commute [of "unat off"] flip: drop_drop)
    then show ?thesis
      using s' r False dev m_same_trans [OF r(3)]
      by (simp add: readi_loop.simps [of st i off] bmap_direct [OF q'] m_def [symmetric])
  qed
qed

text \<open>
  Device 1 has major number 0, which no driver serves, so the first block asked for stops the kernel.
\<close>

lemma bread_unserved:
  assumes "ram_ok d s" and "\<forall>j < length (fsbuf s). b_dev (bget s j) \<noteq> 1"
  shows "bread st ROOTDEV n s = Inl (Panic ''buf_ll_rw'')"
proof -
  obtain xs where inv: "cache_inv d s xs" and q: "quiet s" using assms(1) by (auto simp: ram_ok_def)
  have no: "\<not> holds ROOTDEV n s j" if "j < length (fsbuf s)" for j
    using assms(2) that ucast_dev(2) [of "b_dev (bget s j)" 1] by (simp add: holds_def)
  have av: "available ROOTDEV n s" by (rule quiet_available [OF q inv])
  from inv show ?thesis
  proof (cases rule: getblk_cases [where dev = ROOTDEV and n = n])
    case (fresh i)
    then show ?thesis by (simp add: bread_def buf_ll_rw_def MAJOR_def)
  qed (use no av in \<open>auto simp: available_def\<close>)
qed


text \<open>A table with one file of 600 bytes in the sectors 1 and 3 of the RAM disk at start-up.\<close>

definition a_minix :: minix where
  "a_minix = \<lparr>mbio = init_buffer boot_bio,
     m_inode = replicate NINODE \<lparr>mi_type = 1, mi_uid = 0, mi_size = 600, mi_time = 0, mi_gid = 0, mi_count = 1,
       mi_addr = [1, 3, 0, 0, 0, 0, 0, 0, 0], mi_dev = 0x100, mi_inum = 5, mi_ref = 0, mi_flag = 0\<rparr>,
     m_file = [], m_ofile = [], m_sb = get_sb (replicate 26 0), mcons = blank_cons\<rparr>"

lemma a_minix_ok: "ram_ok 0x100 (mbio a_minix)" "direct_file 0x100 a_minix 2"
proof -
  show "ram_ok 0x100 (mbio a_minix)" using boot_cache(1,2) by (auto simp: ram_ok_def a_minix_def)
  show "direct_file 0x100 a_minix 2"
    using boot_cache(3) by (simp add: direct_file_def a_minix_def ip_get_def)
qed


text \<open>
  \<^verbatim>\<open>fileopen\<close> of the Minix file system never returns: the root device number 1 has major number 0, for which \<^verbatim>\<open>buf_ll_rw\<close>
  has no driver, so the check of the superblock stops the kernel.
\<close>

lemma minix_fileopen_panics:
  assumes "ram_ok d (mbio s)" and "\<forall>j < length (fsbuf (mbio s)). b_dev (bget (mbio s) j) \<noteq> 1"
  shows "minix_fileopen st name after cwd path flags s = Inl (Panic ''buf_ll_rw'')"
  using bread_unserved [OF assms]
  by (simp add: minix_fileopen_def check_minixfs_def m_read_def dev_read_def mprint_def)

lemma a_minix_open_panics:
  "minix_fileopen (\<lambda>_. 0) (replicate 30 0) [0] None (chars ''/a'') 0 a_minix = Inl (Panic ''buf_ll_rw'')"
proof (rule minix_fileopen_panics [OF a_minix_ok(1)])
  have "length (fsbuf (init_buffer boot_bio)) = NBUF"
    using cache_invD(2) [OF boot_cache(1)] by (metis atLeast0LessThan card_lessThan length_rev length_upt distinct_card distinct_rev distinct_upt diff_zero)
  then show "\<forall>j < length (fsbuf (mbio a_minix)). b_dev (bget (mbio a_minix) j) \<noteq> 1"
    using boot_cache(5) by (simp add: a_minix_def)
qed

end
