(* ===== verification/Tools_Mksfs.thy ===== *)
theory Tools_Mksfs
  imports Fs_Sfs
begin

text \<open>
  The host program \<^verbatim>\<open>tools/mk_sfs.c\<close> that writes an SFS image, with \<^verbatim>\<open>tools/mk_sfs.h\<close>, and its round trip with
  the reader \<^verbatim>\<open>fs/sfs/sfs.c\<close>. The files of the host are a parameter: what \<^verbatim>\<open>stat\<close> and \<^verbatim>\<open>read\<close> see under a
  name. The image is a function from offsets to bytes with its length; a hole reads as zero.
\<close>

section \<open>The image\<close>

abbreviation BLKSZ :: nat where "BLKSZ \<equiv> 512"

datatype host_file = Host_dir | Host_reg "u8 list" | Host_other

type_synonym host = "u8 list \<Rightarrow> host_file option"

text \<open>The globals; \<open>m_sb\<close> is \<^verbatim>\<open>sb\<close> as its 512 bytes, \<open>m_nindex\<close> is \<^verbatim>\<open>nindex\<close>.\<close>

record mk =
  img :: "nat \<Rightarrow> u8"
  isize :: nat
  m_sb :: "u8 list"
  m_nblk :: u32
  m_nindex :: u32
  m_reserved_blk :: u32
  m_da_blocks :: u32
  m_ia_num :: u32

definition poke_at :: "nat \<Rightarrow> u8 list \<Rightarrow> u8 list \<Rightarrow> u8 list" where
  "poke_at off xs bs = take off bs @ xs @ drop (off + length xs) bs"

definition full :: "mk \<Rightarrow> bool" where
  "full s \<longleftrightarrow> m_nblk s \<le> m_da_blocks s + ((m_ia_num s + 1) div 8 + 1)"

text \<open>\<^verbatim>\<open>inc_and_verify\<close> on \<^verbatim>\<open>da_blocks\<close> and on \<^verbatim>\<open>ia_num\<close>.\<close>

definition verify :: "mk \<Rightarrow> mk res" where
  "verify s = (if full s then Inl (Exits 0) else Inr s)"

definition inc_da_blocks :: "u32 \<Rightarrow> mk \<Rightarrow> mk res" where
  "inc_da_blocks n s = verify (s\<lparr>m_da_blocks := m_da_blocks s + n\<rparr>)"

definition inc_ia_num :: "u32 \<Rightarrow> mk \<Rightarrow> mk res" where
  "inc_ia_num n s = verify (s\<lparr>m_ia_num := m_ia_num s + n\<rparr>)"

text \<open>The offset \<^verbatim>\<open>n * elem_size\<close> is computed in 32 bits.\<close>

definition read_elem :: "u32 \<Rightarrow> nat \<Rightarrow> mk \<Rightarrow> u8 list res" where
  "read_elem n sz s =
     (let off = unat (n * of_nat sz)
      in if isize s < off + sz then Inl (Exits 1) else Inr (map (img s) [off..<off + sz]))"

definition write_elem :: "u32 \<Rightarrow> u8 list \<Rightarrow> mk \<Rightarrow> mk" where
  "write_elem n xs s =
     (let off = unat (n * of_nat (length xs))
      in s\<lparr>img := (\<lambda>k. if off \<le> k \<and> k < off + length xs then xs ! (k - off) else img s k),
           isize := max (isize s) (off + length xs)\<rparr>)"

definition mk_write_index :: "u32 \<Rightarrow> u8 list \<Rightarrow> mk \<Rightarrow> mk" where
  "mk_write_index sec e s = write_elem (m_nindex s - sec - 1) e s"

definition mk_read_index :: "u32 \<Rightarrow> mk \<Rightarrow> u8 list res" where
  "mk_read_index sec s = read_elem (m_nindex s - sec - 1) IE_SIZE s"

section \<open>Superblock\<close>

definition init_sb :: "mk \<Rightarrow> mk" where
  "init_sb s =
     (let b1 = poke_at 0x194 (to_le 8 0) (m_sb s);
          b2 = poke_at 0x19c (to_le 8 0) b1;
          b3 = poke_at 0x1a4 (to_le 8 0) b2;
          b4 = poke_at 0x1ac [83, 70, 83] b3;
          b5 = poke_at 0x1af [0x10] b4;
          b6 = poke_at 0x1b0 (to_le 8 (unat (m_nblk s))) b5;
          b7 = poke_at 0x1b8 (to_le 4 (unat (m_reserved_blk s))) b6;
          b8 = poke_at 0x1bc [2] b7;
          b9 = poke_at 0x1bd [0] b8;
          b10 = poke_at 0x1bd [- calc_checksum b9] b9
      in write_elem 0 b10 (s\<lparr>m_sb := b10\<rparr>))"

definition update_sb :: "mk \<Rightarrow> mk res" where
  "update_sb s =
     bnd (read_elem 0 BLKSZ s) (\<lambda>b.
       let b1 = poke_at 0x194 (to_le 8 0) b;
           b2 = poke_at 0x19c (to_le 8 (unat (m_da_blocks s))) b1;
           b3 = poke_at 0x1a4 (to_le 8 (unat (m_ia_num s * of_nat IE_SIZE))) b2
       in Inr (write_elem 0 b3 (s\<lparr>m_sb := b3\<rparr>)))"

section \<open>Index and data\<close>

definition mark :: "u8 list" where
  "mark = 2 # replicate 63 0"

definition init_index :: "mk \<Rightarrow> mk res" where
  "init_index s =
     (let id = poke_at 12 [115, 102, 115, 45, 49, 46, 48, 0] (poke_at 4 (to_le 8 0) (poke_at 0 [1] (replicate 64 0)));
          s1 = mk_write_index 0 id (s\<lparr>m_ia_num := 0\<rparr>)
      in bnd (inc_ia_num 1 s1) (\<lambda>s2. Inr (mk_write_index (m_ia_num s2) mark s2)))"

text \<open>
  A directory or file entry: the two structures have the same layout. The name is cut or filled up
  with zeros to 30 bytes, as \<^verbatim>\<open>strncpy\<close> of the C library does.
\<close>

definition pad :: "nat \<Rightarrow> u8 list \<Rightarrow> u8 list" where
  "pad n xs = take n xs @ replicate (n - length xs) 0"

definition mk_entry :: "u8 \<Rightarrow> u8 \<Rightarrow> nat \<Rightarrow> nat \<Rightarrow> nat \<Rightarrow> u8 list \<Rightarrow> u8 list" where
  "mk_entry etype ne blk_start blk_end len name =
     etype # ne # to_le 8 0 @ to_le 8 blk_start @ to_le 8 blk_end @ to_le 8 len @ pad 30 name"

text \<open>
  \<^verbatim>\<open>create_dot_dir_items\<close> fills a buffer of its own, which it never writes to the image, and returns the
  length of the two items.
\<close>

definition DIRENT_LEN :: "nat \<Rightarrow> nat" where
  "DIRENT_LEN x = 4 + 4 + x + 1"

definition create_dot_dir_items :: "nat \<Rightarrow> nat \<Rightarrow> u8 list \<times> nat" where
  "create_dot_dir_items parent_inum self_inum =
     (let l1 = DIRENT_LEN 1; l2 = DIRENT_LEN 2;
          b1 = poke_at 0 (to_le 4 l1 @ to_le 4 self_inum @ [46]) (replicate BLKSZ 0);
          b2 = poke_at l1 (to_le 4 l2 @ to_le 4 parent_inum @ [46]) b1
      in (b2, l1 + l2))"

definition init_root :: "mk \<Rightarrow> mk res" where
  "init_root s =
     (let b = unat (m_da_blocks s);
          s1 = mk_write_index (m_ia_num s) (mk_entry IAT_DIR_ENT 0 b b (snd (create_dot_dir_items 1 1)) [47]) s
      in bnd (inc_da_blocks 1 s1) (\<lambda>s2.
         bnd (inc_ia_num 1 s2) (\<lambda>s3. Inr (mk_write_index (m_ia_num s3) mark s3))))"

text \<open>The loop of \<^verbatim>\<open>write_data\<close>: the last block is filled up with zeros.\<close>

function write_blocks :: "u8 list \<Rightarrow> mk \<Rightarrow> mk res" where
  "write_blocks xs s =
     (if xs = [] then Inr s
      else bnd (inc_da_blocks 1 (write_elem (m_da_blocks s + m_reserved_blk s) (pad BLKSZ xs) s))
             (\<lambda>s1. write_blocks (drop BLKSZ xs) s1))"
  by pat_completeness auto
termination write_blocks
  by (relation "measure (\<lambda>(xs, s). length xs)") auto

declare write_blocks.simps [simp del]

definition NIE_FILE :: "nat \<Rightarrow> nat" where
  "NIE_FILE len = (len + 34 + 1) div IE_SIZE"

text \<open>
  The continuation entries: \<^verbatim>\<open>strncpy(p, name + FILE_SPACE + IE_SIZE * i, IE_SIZE)\<close>. A start behind the
  terminating zero of the name reads outside the string.
\<close>

primrec write_conts :: "u8 list \<Rightarrow> nat \<Rightarrow> nat \<Rightarrow> mk \<Rightarrow> mk res" where
  "write_conts name i 0 s = Inr s"
| "write_conts name i (Suc n) s =
     (if length name < 30 + IE_SIZE * i then Inl (Fault ''write_file: name is shorter'')
      else write_conts name (Suc i) n
             (mk_write_index (m_ia_num s - 2 - of_nat i) (pad IE_SIZE (drop (30 + IE_SIZE * i) name)) s))"

text \<open>\<^verbatim>\<open>blk_start\<close> comes from an \<^verbatim>\<open>int\<close>; in \<^verbatim>\<open>blk_end\<close> the difference \<^verbatim>\<open>da_blocks - 1\<close> is a 32-bit number.\<close>

definition mk_write_file :: "host \<Rightarrow> u8 list \<Rightarrow> mk \<Rightarrow> mk res" where
  "mk_write_file h name s =
     (case h name of
        None \<Rightarrow> Inl (Exits 1)
      | Some Host_other \<Rightarrow> Inl (Exits 1)
      | Some Host_dir \<Rightarrow>
          let nie = NIE_FILE (length name)
          in bnd (inc_ia_num (of_nat (nie + 1)) s) (\<lambda>s1.
             let s2 = mk_write_index (m_ia_num s1) mark s1;
                 s3 = mk_write_index (m_ia_num s2 - 1) (mk_entry IAT_DIR_ENT (of_nat nie) 0 0 0 name) s2
             in write_conts name 0 nie s3)
      | Some (Host_reg xs) \<Rightarrow>
          let nie = NIE_FILE (length name)
          in bnd (inc_ia_num (of_nat (nie + 1)) s) (\<lambda>s1.
             let s2 = mk_write_index (m_ia_num s1) mark s1
             in bnd (write_blocks xs s2) (\<lambda>s3.
                let s4 = mk_write_index (m_ia_num s3 - 1)
                           (mk_entry IAT_FILE_ENT (of_nat nie) (unat (scast (m_da_blocks s2) :: u64)) (unat (m_da_blocks s3 - 1)) (length xs) name) s3
                in write_conts name 0 nie s4)))"

primrec write_files :: "host \<Rightarrow> u8 list list \<Rightarrow> mk \<Rightarrow> mk res" where
  "write_files h [] s = Inr s"
| "write_files h (f # fs) s = bnd (mk_write_file h f s) (write_files h fs)"

text \<open>\<open>nb\<close> is \<^verbatim>\<open>NBLK\<close>, which the build may set; the image file has just been created.\<close>

definition mk_start :: "u32 \<Rightarrow> mk" where
  "mk_start nb = \<lparr>img = (\<lambda>_. 0), isize = 0, m_sb = replicate 512 0, m_nblk = nb, m_nindex = nb * of_nat (BLKSZ div IE_SIZE),
     m_reserved_blk = 1, m_da_blocks = 0, m_ia_num = 0\<rparr>"

definition mk_main :: "host \<Rightarrow> u32 \<Rightarrow> u8 list list \<Rightarrow> mk res" where
  "mk_main h nb files =
     bnd (init_index (init_sb (mk_start nb))) (\<lambda>s1.
     bnd (init_root s1) (\<lambda>s2.
     bnd (write_files h files s2) update_sb))"


section \<open>Areas of the image\<close>

definition slice :: "(nat \<Rightarrow> u8) \<Rightarrow> nat \<Rightarrow> nat \<Rightarrow> u8 list" where
  "slice f off n = map f [off..<off + n]"

lemma length_slice [simp]: "length (slice f off n) = n"
  by (simp add: slice_def)

lemma slice_nth: "i < n \<Longrightarrow> slice f off n ! i = f (off + i)"
  by (simp add: slice_def)

lemma slice_add: "slice f a (j + k) = slice f a j @ slice f (a + j) k"
  using upt_add_eq_append [of a "a + j" k] by (simp add: slice_def add.assoc)

lemma slice_eqI: "length xs = n \<Longrightarrow> (\<And>i. i < n \<Longrightarrow> f (off + i) = xs ! i) \<Longrightarrow> slice f off n = xs"
  by (auto intro: nth_equalityI simp: slice_nth)

abbreviation nbl :: "mk \<Rightarrow> nat" where "nbl s \<equiv> unat (m_nblk s)"
abbreviation da :: "mk \<Rightarrow> nat" where "da s \<equiv> unat (m_da_blocks s)"
abbreviation ia :: "mk \<Rightarrow> nat" where "ia s \<equiv> unat (m_ia_num s)"

text \<open>There is room between the data area and the index area.\<close>

definition room :: "mk \<Rightarrow> bool" where
  "room s \<longleftrightarrow> nbl s \<le> 2 ^ 22 \<and> m_nindex s = m_nblk s * 8 \<and> m_reserved_blk s = 1 \<and> da s + (ia s + 1) div 8 + 1 < nbl s"

definition mie :: "mk \<Rightarrow> nat \<Rightarrow> u8 list" where
  "mie s k = slice (img s) (64 * (8 * nbl s - k - 1)) 64"

text \<open>\<open>agrees k d s s'\<close>: the index entries below \<open>k\<close>, the superblock and the first \<open>d\<close> data blocks are the same.\<close>

definition agrees :: "nat \<Rightarrow> nat \<Rightarrow> mk \<Rightarrow> mk \<Rightarrow> bool" where
  "agrees k d s s' \<longleftrightarrow> m_nblk s' = m_nblk s \<and> (\<forall>j < k. mie s' j = mie s j) \<and> (\<forall>i < 512 * (d + 1). img s' i = img s i) \<and>
     isize s \<le> isize s'"

lemma agrees_refl: "agrees k d s s"
  by (simp add: agrees_def)

lemma agrees_trans: "agrees k d s s1 \<Longrightarrow> agrees k d s1 s2 \<Longrightarrow> agrees k d s s2"
  by (auto simp: agrees_def)

lemma agrees_mono: "agrees k d s s' \<Longrightarrow> k' \<le> k \<Longrightarrow> d' \<le> d \<Longrightarrow> agrees k' d' s s'"
  by (auto simp: agrees_def)

lemma areas_arith:
  fixes d i n :: nat
  assumes "d + (i + 1) div 8 + 1 < n"
  shows "8 * (d + 1) + i + 1 \<le> 8 * n"
proof -
  obtain q where q: "q = (i + 1) div 8" by simp
  have "i + 1 < 8 + q * 8" unfolding q by (rule dividend_less_div_times) simp
  moreover have "d + q + 2 \<le> n" using assms unfolding q [symmetric] by simp
  ultimately show ?thesis by simp
qed

lemma room_areas:
  assumes "room s"
  shows "512 * (da s + 1) \<le> 64 * (8 * nbl s - ia s - 1)" and "ia s + 1 < 8 * nbl s"
proof -
  have "8 * (da s + 1) + ia s + 1 \<le> 8 * nbl s" using assms by (intro areas_arith) (simp add: room_def)
  then show "512 * (da s + 1) \<le> 64 * (8 * nbl s - ia s - 1)" "ia s + 1 < 8 * nbl s" by simp_all
qed

lemma index_offset:
  assumes "room s" and "k \<le> ia s"
  shows "unat ((m_nindex s - of_nat k - 1) * of_nat 64) = 64 * (8 * nbl s - k - 1)"
proof -
  have k: "k < 8 * nbl s" using room_areas(2) [OF assms(1)] assms(2) by linarith
  have n: "nbl s \<le> 4194304" "m_nindex s = of_nat (8 * nbl s)" using assms(1) by (simp_all add: room_def)
  have "m_nindex s - of_nat k - 1 = of_nat (8 * nbl s - k - 1)"
    using k unfolding n(2) by (simp add: of_nat_diff)
  then have "(m_nindex s - of_nat k - 1) * of_nat 64 = of_nat (64 * (8 * nbl s - k - 1))"
    by (simp only: of_nat_mult mult.commute)
  moreover have "64 * (8 * nbl s - k - 1) < 4294967296" using n(1) k by linarith
  ultimately show ?thesis by (simp only: unat_of_nat32)
qed


text \<open>Writing an index entry and writing a data block.\<close>

lemma write_elem_slice:
  assumes "off = unat (n * of_nat (length xs))" and "off' + m \<le> off \<or> off + length xs \<le> off'"
  shows "slice (img (write_elem n xs s)) off' m = slice (img s) off' m"
  using assms by (intro slice_eqI) (auto simp: write_elem_def Let_def slice_nth)

lemma write_elem_same:
  assumes "off = unat (n * of_nat (length xs))"
  shows "slice (img (write_elem n xs s)) off (length xs) = xs"
  using assms by (intro slice_eqI) (auto simp: write_elem_def Let_def)

lemma write_elem_fields [simp]:
  "m_nblk (write_elem n xs s) = m_nblk s" "m_nindex (write_elem n xs s) = m_nindex s"
  "m_reserved_blk (write_elem n xs s) = m_reserved_blk s" "m_da_blocks (write_elem n xs s) = m_da_blocks s"
  "m_ia_num (write_elem n xs s) = m_ia_num s" "isize s \<le> isize (write_elem n xs s)"
  "m_nblk (mk_write_index k xs s) = m_nblk s" "m_nindex (mk_write_index k xs s) = m_nindex s"
  "m_reserved_blk (mk_write_index k xs s) = m_reserved_blk s" "m_da_blocks (mk_write_index k xs s) = m_da_blocks s"
  "m_ia_num (mk_write_index k xs s) = m_ia_num s" "room (mk_write_index k xs s) = room s"
  "room (write_elem n xs s) = room s"
  by (simp_all add: write_elem_def mk_write_index_def Let_def room_def)

lemma mk_write_index_spec:
  assumes r: "room s" and k: "k \<le> ia s" and e: "length e = 64"
  shows "mie (mk_write_index (of_nat k) e s) k = e"
    and "j \<le> ia s \<Longrightarrow> j \<noteq> k \<Longrightarrow> mie (mk_write_index (of_nat k) e s) j = mie s j"
    and "agrees k (da s) s (mk_write_index (of_nat k) e s)"
proof -
  let ?s = "mk_write_index (of_nat k) e s"
  note off = index_offset [OF r k]
  show same: "mie ?s k = e"
    using write_elem_same [of _ "m_nindex s - of_nat k - 1" e s] off e by (simp add: mie_def mk_write_index_def)
  show other: "mie ?s j = mie s j" if "j \<le> ia s" "j \<noteq> k" for j
    unfolding mie_def mk_write_index_def
    using write_elem_slice [of _ "m_nindex s - of_nat k - 1" e "64 * (8 * nbl s - j - 1)" 64 s] off e that k
      room_areas(2) [OF r] by fastforce
  have "img ?s i = img s i" if "i < 512 * (da s + 1)" for i
  proof -
    have "i < 64 * (8 * nbl s - k - 1)" using that room_areas(1) [OF r] k by linarith
    then show ?thesis using off e by (auto simp: mk_write_index_def write_elem_def Let_def)
  qed
  then show "agrees k (da s) s ?s"
    using other k by (auto simp: agrees_def) (simp add: mk_write_index_def)
qed


text \<open>The check of \<^verbatim>\<open>inc_and_verify\<close> keeps the areas apart; at these sizes its sum does not wrap around.\<close>

lemma verify_room:
  assumes "verify s = Inr s'" and "nbl s \<le> 2 ^ 22" and "m_nindex s = m_nblk s * 8" and "m_reserved_blk s = 1"
    and "da s \<le> 2 ^ 23" and "ia s \<le> 2 ^ 26"
  shows "s' = s" and "room s"
proof -
  have f: "\<not> full s" "s' = s" using assms(1) by (auto simp: verify_def split: if_splits)
  then show "s' = s" by simp
  have i: "unat (m_ia_num s + 1) = ia s + 1" using assms(6) by (simp add: unat_word_ariths)
  have d: "(ia s + 1) div 8 \<le> 2 ^ 24" using assms(6) by simp
  have "unat (m_da_blocks s + ((m_ia_num s + 1) div 8 + 1)) = da s + ((ia s + 1) div 8 + 1)"
    using assms(5) d i by (simp add: unat_word_ariths unat_div)
  then show "room s" using f(1) assms(2-4) by (simp add: full_def room_def word_le_nat_alt)
qed

lemma room_bounds: "room s \<Longrightarrow> da s < 2 ^ 22" "room s \<Longrightarrow> ia s < 2 ^ 25"
  using room_areas [of s] by (auto simp: room_def)

lemma inc_da_room:
  assumes "room s" and "inc_da_blocks 1 s = Inr s'"
  shows "room s'" and "s' = s\<lparr>m_da_blocks := m_da_blocks s + 1\<rparr>" and "da s' = da s + 1"
proof -
  let ?s = "s\<lparr>m_da_blocks := m_da_blocks s + 1\<rparr>"
  have b: "da s < 2 ^ 22" "ia s < 2 ^ 25" using room_bounds [OF assms(1)] by simp_all
  have d: "unat (m_da_blocks s + 1) = da s + 1" using b(1) by (simp add: unat_word_ariths)
  have "s' = ?s \<and> room ?s"
    using verify_room [of ?s s'] assms b d by (simp add: inc_da_blocks_def room_def)
  then show "room s'" "s' = ?s" "da s' = da s + 1" using d by simp_all
qed

lemma inc_ia_room:
  assumes "room s" and "inc_ia_num (of_nat n) s = Inr s'" and "n \<le> 2 ^ 24"
  shows "room s'" and "s' = s\<lparr>m_ia_num := m_ia_num s + of_nat n\<rparr>" and "ia s' = ia s + n"
proof -
  let ?s = "s\<lparr>m_ia_num := m_ia_num s + of_nat n\<rparr>"
  have b: "da s < 2 ^ 22" "ia s < 2 ^ 25" using room_bounds [OF assms(1)] by simp_all
  have d: "unat (m_ia_num s + of_nat n) = ia s + n" using b(2) assms(3) by (simp add: unat_word_ariths)
  have "s' = ?s \<and> room ?s"
    using verify_room [of ?s s'] assms b d by (simp add: inc_ia_num_def room_def)
  then show "room s'" "s' = ?s" "ia s' = ia s + n" using d by simp_all
qed

lemma write_block_step:
  assumes r: "room s" and s1: "inc_da_blocks 1 (write_elem (m_da_blocks s + m_reserved_blk s) b s) = Inr s1" and b: "length b = 512"
  shows "room s1" and "m_ia_num s1 = m_ia_num s" and "da s1 = da s + 1" and "agrees (ia s + 1) (da s) s s1"
    and "slice (img s1) (512 * (da s + 1)) 512 = b"
proof -
  let ?w = "write_elem (m_da_blocks s + m_reserved_blk s) b s"
  have rw: "room ?w" using r by simp
  note i = inc_da_room [OF rw s1]
  show "room s1" "m_ia_num s1 = m_ia_num s" "da s1 = da s + 1" using i by simp_all
  have "da s < 4194304" using room_bounds [OF r] by simp
  then have off: "unat ((m_da_blocks s + m_reserved_blk s) * of_nat (length b)) = 512 * (da s + 1)"
    using r b by (simp add: room_def unat_word_ariths)
  show "slice (img s1) (512 * (da s + 1)) 512 = b" using write_elem_same [of _ _ b s, OF off [symmetric]] b i(2) by simp
  have "mie s1 j = mie s j" if "j < ia s + 1" for j
  proof -
    have "512 * (da s + 1) + length b \<le> 64 * (8 * nbl s - j - 1)"
      using room_areas(1) [OF i(1)] i(3) that b by (simp add: i(2))
    then show ?thesis using write_elem_slice [OF off [symmetric]] i(2) by (simp add: mie_def)
  qed
  moreover have "img s1 k = img s k" if "k < 512 * (da s + 1)" for k
    using that off i(2) by (auto simp: write_elem_def Let_def)
  ultimately show "agrees (ia s + 1) (da s) s s1" using i(2) by (simp add: agrees_def)
qed

lemma write_blocks_spec:
  assumes "room s" and "write_blocks xs s = Inr s'"
  shows "room s' \<and> m_ia_num s' = m_ia_num s \<and> da s' = da s + (length xs + 511) div 512 \<and> agrees (ia s + 1) (da s) s s' \<and>
    (\<forall>i < length xs. img s' (512 * (da s + 1) + i) = xs ! i)"
  using assms
proof (induction xs s arbitrary: s' rule: write_blocks.induct)
  case (1 xs s)
  show ?case
  proof (cases "xs = []")
    case True
    then show ?thesis using 1 by (simp add: write_blocks.simps agrees_refl)
  next
    case False
    obtain s1 where s1: "inc_da_blocks 1 (write_elem (m_da_blocks s + m_reserved_blk s) (pad BLKSZ xs) s) = Inr s1"
        "write_blocks (drop 512 xs) s1 = Inr s'"
      using "1.prems"(2) False by (auto simp: write_blocks.simps [of xs])
    have len: "length (pad BLKSZ xs) = 512" by (simp add: pad_def)
    note w = write_block_step [OF "1.prems"(1) s1(1) len]
    have ih: "room s'" "m_ia_num s' = m_ia_num s1" "da s' = da s1 + (length (drop 512 xs) + 511) div 512"
      "agrees (ia s1 + 1) (da s1) s1 s'" "\<forall>i < length (drop 512 xs). img s' (512 * (da s1 + 1) + i) = drop 512 xs ! i"
      using "1.IH" [OF False s1(1) w(1) s1(2)] by simp_all
    have n: "(length xs + 511) div 512 = 1 + (length (drop 512 xs) + 511) div 512"
      using False by (cases "length xs \<le> 512") (simp_all add: div_nat_eqI le_div_geq Suc_le_eq)
    have "img s' (512 * (da s + 1) + i) = xs ! i" if "i < length xs" for i
    proof (cases "i < 512")
      case True
      then have "img s' (512 * (da s + 1) + i) = img s1 (512 * (da s + 1) + i)"
        using ih(4) w(3) by (simp add: agrees_def)
      also have "\<dots> = pad BLKSZ xs ! i" using w(5) True slice_nth by metis
      finally show ?thesis using True that by (simp add: pad_def nth_append)
    next
      case False
      then show ?thesis using ih(5) [rule_format, of "i - 512"] that w(3) by (simp add: add.assoc)
    qed
    moreover have "agrees (ia s + 1) (da s) s s'"
      using agrees_trans [OF w(4) agrees_mono [OF ih(4)]] w(2,3) by simp
    ultimately show ?thesis using ih n w by simp
  qed
qed


section \<open>Files written\<close>

lemma length_pad [simp]: "length (pad n xs) = n"
  by (simp add: pad_def)

lemma mk_entry_fields:
  "length (mk_entry et ne bs be len g) = 64" "ie_type (mk_entry et ne bs be len g) = et"
  "ie_ne (mk_entry et ne bs be len g) = ne" "file_name (mk_entry et ne bs be len g) = pad 30 g"
  "bs < 2 ^ 32 \<Longrightarrow> file_blk_start (mk_entry et ne bs be len g) = of_nat bs"
  "len < 2 ^ 32 \<Longrightarrow> file_len (mk_entry et ne bs be len g) = of_nat len"
  "dir_name (mk_entry et ne bs be len g) = of_nat bs # drop 11 (mk_entry et ne bs be len g)"
proof -
  let ?e = "mk_entry et ne bs be len g"
  show "length ?e = 64" "ie_type ?e = et" "ie_ne ?e = ne" by (simp_all add: mk_entry_def ie_type_def ie_ne_def)
  show "file_name ?e = pad 30 g" by (simp add: mk_entry_def file_name_def)
  have d: "drop 10 ?e = to_le 8 bs @ to_le 8 be @ to_le 8 len @ pad 30 g" "drop 26 ?e = to_le 8 len @ pad 30 g"
    by (simp_all add: mk_entry_def)
  show "file_blk_start ?e = of_nat bs" if "bs < 2 ^ 32"
    using that by (simp add: file_blk_start_def field_def d le_nat_to_le)
  show "file_len ?e = of_nat len" if "len < 2 ^ 32"
    using that by (simp add: file_len_def field_def d le_nat_to_le)
  have "to_le 8 bs = of_nat bs # to_le 7 (bs div 256)" using to_le.simps(2) [of 7 bs] by (simp del: to_le.simps)
  then have "length (dir_name ?e) = 54" "drop 1 (dir_name ?e) = drop 11 ?e" "dir_name ?e ! 0 = of_nat bs"
    by (simp_all add: dir_name_def mk_entry_def)
  then show "dir_name ?e = of_nat bs # drop 11 ?e" by (cases "dir_name ?e") auto
qed

lemma write_conts_spec:
  assumes "room s" and "i + n + 1 \<le> ia s" and "write_conts name i n s = Inr s'"
  shows "room s' \<and> m_ia_num s' = m_ia_num s \<and> m_da_blocks s' = m_da_blocks s \<and>
    agrees (ia s - 1 - (i + n)) (da s) s s' \<and> mie s' (ia s - 1) = mie s (ia s - 1)"
  using assms
proof (induction n arbitrary: i s)
  case 0
  then show ?case by (simp add: agrees_refl)
next
  case (Suc n)
  define k where "k = ia s - 2 - i"
  let ?e = "pad IE_SIZE (drop (30 + IE_SIZE * i) name)"
  let ?s = "mk_write_index (of_nat k) ?e s"
  have k: "k \<le> ia s" "m_ia_num s - 2 - of_nat i = of_nat k" "k \<noteq> ia s - 1" "ia s - 1 - (i + Suc n) \<le> k"
    "ia s - 1 - (i + Suc n) = ia s - 1 - (Suc i + n)"
    using Suc.prems(2) by (auto simp: k_def of_nat_diff)
  note w = mk_write_index_spec [OF Suc.prems(1) k(1), of ?e]
  have "write_conts name (Suc i) n ?s = Inr s'" using Suc.prems(3) by (auto simp: k(2) split: if_splits)
  then have ih: "room s' \<and> m_ia_num s' = m_ia_num s \<and> m_da_blocks s' = m_da_blocks s \<and>
      agrees (ia s - 1 - (Suc i + n)) (da s) ?s s' \<and> mie s' (ia s - 1) = mie ?s (ia s - 1)"
    using Suc.IH [of ?s "Suc i"] Suc.prems(1,2) by simp
  moreover have "agrees (ia s - 1 - (Suc i + n)) (da s) s ?s" using agrees_mono [OF w(3) _ order_refl] k by simp
  moreover have "mie ?s (ia s - 1) = mie s (ia s - 1)" using w(2) k(3) by simp
  ultimately show ?case using agrees_trans unfolding k(5) by metis
qed


text \<open>
  What an entry of the image stands for: a directory, whose first field is zero, or the file \<open>g\<close> of the host
  with its bytes in the data area.
\<close>

definition is_dir_ent :: "u8 list \<Rightarrow> bool" where
  "is_dir_ent e \<longleftrightarrow> (\<exists>ne be len g. e = mk_entry IAT_DIR_ENT ne 0 be len g)"

definition is_file_ent :: "mk \<Rightarrow> u8 list \<Rightarrow> u8 list \<Rightarrow> u8 list \<Rightarrow> bool" where
  "is_file_ent s e g xs \<longleftrightarrow> (\<exists>ne bs be. e = mk_entry IAT_FILE_ENT ne bs be (length xs) g \<and>
     bs + (length xs + 511) div 512 \<le> da s \<and> slice (img s) (512 * (bs + 1)) (length xs) = xs)"

definition mk_inv :: "host \<Rightarrow> u8 list list \<Rightarrow> mk \<Rightarrow> u8 list list \<Rightarrow> bool" where
  "mk_inv h names s es \<longleftrightarrow> room s \<and> 0 < ia s \<and> 512 \<le> isize s \<and> index_chain (mie s) (ia s - 1) es \<and>
     (\<forall>e \<in> set es. is_dir_ent e \<or> (\<exists>g xs. g \<in> set names \<and> h g = Some (Host_reg xs) \<and> is_file_ent s e g xs)) \<and>
     (\<forall>g \<in> set names. \<forall>xs. h g = Some (Host_reg xs) \<longrightarrow> (\<exists>e \<in> set es. is_file_ent s e g xs))"

lemma mk_invD:
  assumes "mk_inv h names s es"
  shows "room s" and "0 < ia s" and "512 \<le> isize s" and "index_chain (mie s) (ia s - 1) es"
    and "x \<in> set es \<Longrightarrow> is_dir_ent x \<or> (\<exists>g xs. g \<in> set names \<and> h g = Some (Host_reg xs) \<and> is_file_ent s x g xs)"
    and "g \<in> set names \<Longrightarrow> h g = Some (Host_reg xs) \<Longrightarrow> \<exists>e \<in> set es. is_file_ent s e g xs"
  using assms unfolding mk_inv_def by blast+

lemma index_chain_cong: "index_chain ie k es \<Longrightarrow> \<forall>j \<le> k. ie' j = ie j \<Longrightarrow> index_chain ie' k es"
  by (induction es arbitrary: k) auto

lemma blocks_arith: "l \<le> 512 * q \<Longrightarrow> b + q \<le> d \<Longrightarrow> 512 * (b + 1) + l \<le> 512 * (d + 1 :: nat)"
  by simp

lemma is_file_ent_agrees:
  assumes "is_file_ent s e g xs" and "agrees k (da s) s s'" and "da s \<le> da s'"
  shows "is_file_ent s' e g xs"
proof -
  obtain ne bs be where e: "e = mk_entry IAT_FILE_ENT ne bs be (length xs) g" "bs + (length xs + 511) div 512 \<le> da s"
    "slice (img s) (512 * (bs + 1)) (length xs) = xs" using assms(1) by (auto simp: is_file_ent_def)
  have "length xs \<le> 512 * ((length xs + 511) div 512)" by simp
  then have b: "512 * (bs + 1) + length xs \<le> 512 * (da s + 1)" using e(2) by (rule blocks_arith)
  have "slice (img s') (512 * (bs + 1)) (length xs) = slice (img s) (512 * (bs + 1)) (length xs)"
    using b assms(2) by (intro slice_eqI) (simp_all add: agrees_def slice_nth)
  then have "slice (img s') (512 * (bs + 1)) (length xs) = xs" using e(3) by simp
  moreover have "bs + (length xs + 511) div 512 \<le> da s'" using e(2) assms(3) by (rule order_trans)
  ultimately show ?thesis using e(1) unfolding is_file_ent_def by blast
qed

text \<open>The common part of the two branches of \<^verbatim>\<open>write_file\<close>: the mark, the entry and its continuation entries.\<close>

lemma entry_written:
  assumes r: "room s3" and ia: "ia s3 = ia s + nie + 1" "0 < ia s" and e: "length e = 64"
    and a: "agrees (ia s) (da s) s s3" "da s \<le> da s3"
    and w: "write_conts name 0 nie (mk_write_index (m_ia_num s3 - 1) e s3) = Inr s'"
  shows "room s'" and "m_ia_num s' = m_ia_num s3" and "m_da_blocks s' = m_da_blocks s3" and "agrees (ia s) (da s) s s'"
    and "mie s' (ia s' - 1) = e" and "agrees (ia s) (da s3) s3 s'"
proof -
  define k where "k = ia s3 - 1"
  let ?s = "mk_write_index (of_nat k) e s3"
  have "1 \<le> ia s3" using ia by simp
  then have k: "k \<le> ia s3" "m_ia_num s3 - 1 = of_nat k" by (simp_all add: k_def of_nat_diff)
  note m = mk_write_index_spec [OF r k(1) e]
  have c: "room s' \<and> m_ia_num s' = m_ia_num s3 \<and> m_da_blocks s' = m_da_blocks s3 \<and>
      agrees (ia s3 - 1 - nie) (da s3) ?s s' \<and> mie s' (ia s3 - 1) = mie ?s (ia s3 - 1)"
    using write_conts_spec [of ?s 0 nie name s'] r ia w by (simp add: k(2))
  then show "room s'" "m_ia_num s' = m_ia_num s3" "m_da_blocks s' = m_da_blocks s3" by simp_all
  show "mie s' (ia s' - 1) = e" using c m(1) by (simp add: k_def)
  have i: "ia s3 - 1 - nie = ia s" "ia s \<le> k" using ia by (simp_all add: k_def)
  then have "agrees (ia s) (da s3) ?s s'" using c by simp
  with agrees_mono [OF m(3) i(2) order_refl] show t: "agrees (ia s) (da s3) s3 s'" by (rule agrees_trans)
  show "agrees (ia s) (da s) s s'" by (rule agrees_trans [OF a(1) agrees_mono [OF t order_refl a(2)]])
qed

lemma mk_inv_add:
  assumes inv: "mk_inv h names s es" and a: "agrees (ia s) (da s) s s'" "room s'" "da s \<le> da s'" "ia s' = ia s + nie + 1"
    and e: "mie s' (ia s' - 1) = e" "unat (ie_ne e) = nie" "ie_type e = IAT_DIR_ENT \<or> ie_type e = IAT_FILE_ENT"
    and d: "is_dir_ent e \<and> h g = Some Host_dir \<or> (\<exists>xs. h g = Some (Host_reg xs) \<and> is_file_ent s' e g xs)"
  shows "mk_inv h (names @ [g]) s' (e # es)"
proof -
  have old: "is_file_ent s' x g' xs" if "is_file_ent s x g' xs" for x g' xs
    by (rule is_file_ent_agrees [OF that a(1,3)])
  note i = mk_invD [OF inv]
  have "\<forall>j \<le> ia s - 1. mie s' j = mie s j" using a(1) i(2) by (simp add: agrees_def)
  then have "index_chain (mie s') (ia s - 1) es" by (rule index_chain_cong [OF i(4)])
  then have "index_chain (mie s') (ia s' - 1) (e # es)" using e a(4) i(2) by simp
  moreover have "512 \<le> isize s'" using i(3) a(1) by (simp add: agrees_def)
  moreover have "0 < ia s'" using a(4) by simp
  moreover have "is_dir_ent x \<or> (\<exists>g' xs. g' \<in> set (names @ [g]) \<and> h g' = Some (Host_reg xs) \<and> is_file_ent s' x g' xs)"
    if "x \<in> set (e # es)" for x
  proof (cases "x = e")
    case True
    then show ?thesis using d by auto
  next
    case False
    then have "is_dir_ent x \<or> (\<exists>g' xs. g' \<in> set names \<and> h g' = Some (Host_reg xs) \<and> is_file_ent s x g' xs)"
      using that i(5) by simp
    then show ?thesis
    proof
      assume "\<exists>g' xs. g' \<in> set names \<and> h g' = Some (Host_reg xs) \<and> is_file_ent s x g' xs"
      then obtain g' xs where "g' \<in> set names" "h g' = Some (Host_reg xs)" "is_file_ent s x g' xs" by blast
      then have "g' \<in> set (names @ [g]) \<and> h g' = Some (Host_reg xs) \<and> is_file_ent s' x g' xs" using old by simp
      then show ?thesis by blast
    qed simp
  qed
  moreover have "\<exists>x \<in> set (e # es). is_file_ent s' x g' xs"
    if g': "g' \<in> set (names @ [g])" "h g' = Some (Host_reg xs)" for g' xs
  proof (cases "g' \<in> set names")
    case True
    then obtain x where "x \<in> set es" "is_file_ent s x g' xs" using i(6) g'(2) by blast
    then show ?thesis using old by (intro bexI [of _ x]) simp_all
  next
    case False
    then have "g' = g" using g'(1) by simp
    then show ?thesis using d g'(2) by auto
  qed
  ultimately show ?thesis using a(2) unfolding mk_inv_def by blast
qed

lemma mark_moved:
  assumes r: "room s" and i: "inc_ia_num (of_nat (nie + 1)) s = Inr s1" and n: "nie \<le> 64"
  shows "room (mk_write_index (m_ia_num s1) mark s1)" and "ia (mk_write_index (m_ia_num s1) mark s1) = ia s + nie + 1"
    and "da (mk_write_index (m_ia_num s1) mark s1) = da s" and "agrees (ia s) (da s) s (mk_write_index (m_ia_num s1) mark s1)"
proof -
  have "nie + 1 \<le> 2 ^ 24" using n by simp
  note inc = inc_ia_room [OF r i this]
  have l: "length mark = 64" by (simp add: mark_def)
  let ?s = "mk_write_index (m_ia_num s1) mark s1"
  show "room ?s" "ia ?s = ia s + nie + 1" using inc by simp_all
  show d: "da ?s = da s" using inc(2) by simp
  have "agrees (ia s) (da s) s s1" using inc(2) by (simp add: agrees_def mie_def)
  moreover have "agrees (ia s1) (da s1) s1 ?s" using mk_write_index_spec(3) [OF inc(1) order_refl l] by simp
  then have "agrees (ia s) (da s) s1 ?s" using inc(2,3) by (auto intro: agrees_mono)
  ultimately show "agrees (ia s) (da s) s ?s" by (rule agrees_trans)
qed

lemma mk_write_file_dir:
  assumes inv: "mk_inv h names s es" and w: "mk_write_file h name s = Inr s'" and len: "length name < 4096"
    and h: "h name = Some Host_dir"
  shows "\<exists>e. mk_inv h (names @ [name]) s' (e # es) \<and> agrees 0 0 s s'"
proof -
  define nie where "nie = NIE_FILE (length name)"
  let ?e = "mk_entry IAT_DIR_ENT (of_nat nie) 0 0 0 name"
  have n: "nie \<le> 64" using len by (simp add: nie_def NIE_FILE_def)
  obtain s1 where s1: "inc_ia_num (of_nat (nie + 1)) s = Inr s1"
      "write_conts name 0 nie (mk_write_index (m_ia_num (mk_write_index (m_ia_num s1) mark s1) - 1) ?e (mk_write_index (m_ia_num s1) mark s1)) = Inr s'"
    using w unfolding mk_write_file_def h by (auto simp: nie_def [symmetric] Let_def)
  note i = mk_invD [OF inv]
  note m = mark_moved [OF i(1) s1(1) n]
  note e = entry_written [OF m(1,2) i(2) mk_entry_fields(1) m(4) _ s1(2)]
  have "unat (of_nat nie :: u8) = nie" using n by (simp add: unat_of_nat)
  then have "mk_inv h (names @ [name]) s' (?e # es)"
    using e m h by (intro mk_inv_add [OF inv, of s' nie]) (auto simp: mk_entry_fields is_dir_ent_def)
  moreover have "agrees 0 0 s s'" using e(4) m(3) by (auto intro: agrees_mono)
  ultimately show ?thesis by blast
qed

lemma mk_write_file_reg:
  assumes inv: "mk_inv h names s es" and w: "mk_write_file h name s = Inr s'" and len: "length name < 4096"
    and h: "h name = Some (Host_reg xs)"
  shows "\<exists>e. mk_inv h (names @ [name]) s' (e # es) \<and> agrees 0 0 s s'"
proof -
  define nie where "nie = NIE_FILE (length name)"
  have n: "nie \<le> 64" using len by (simp add: nie_def NIE_FILE_def)
  obtain s1 where s1: "inc_ia_num (of_nat (nie + 1)) s = Inr s1"
    using w unfolding mk_write_file_def h by (auto simp: nie_def [symmetric] Let_def)
  define s2 where "s2 = mk_write_index (m_ia_num s1) mark s1"
  obtain s3 where s3: "write_blocks xs s2 = Inr s3"
    using w s1 unfolding mk_write_file_def h by (auto simp: nie_def [symmetric] s2_def Let_def)
  define e where "e = mk_entry IAT_FILE_ENT (of_nat nie) (unat (scast (m_da_blocks s2) :: u64)) (unat (m_da_blocks s3 - 1)) (length xs) name"
  have "m_da_blocks s2 = m_da_blocks s1" by (simp add: s2_def)
  then have c: "write_conts name 0 nie (mk_write_index (m_ia_num s3 - 1) e s3) = Inr s'"
    using w s1 s3 unfolding mk_write_file_def h by (simp add: nie_def [symmetric] s2_def [symmetric] e_def Let_def)
  note i = mk_invD [OF inv]
  note m = mark_moved [OF i(1) s1 n, folded s2_def]
  have b: "room s3" "ia s3 = ia s + nie + 1" "da s3 = da s + (length xs + 511) div 512" "agrees (ia s2 + 1) (da s) s2 s3"
      "\<forall>i < length xs. img s3 (512 * (da s + 1) + i) = xs ! i"
    using write_blocks_spec [OF m(1) s3] m(2,3) by simp_all
  have "agrees (ia s) (da s) s s3" using agrees_trans [OF m(4) agrees_mono [OF b(4)]] m(2) by simp
  note ew = entry_written [OF b(1,2) i(2) _ this _ c]
  have l: "length e = 64" "da s \<le> da s3" using b(3) by (simp_all add: e_def mk_entry_fields)
  note ew = ew [OF l]
  have bs: "unat (scast (m_da_blocks s2) :: u64) = da s"
    using scast_small [of "m_da_blocks s2"] room_bounds(1) [OF m(1)] m(3) by simp
  have "slice (img s') (512 * (da s + 1)) (length xs) = xs"
  proof (rule slice_eqI)
    fix j
    assume j: "j < length xs"
    have "length xs \<le> 512 * ((length xs + 511) div 512)" by simp
    then have "512 * (da s + 1) + length xs \<le> 512 * (da s3 + 1)" using b(3) by (intro blocks_arith [where q = "(length xs + 511) div 512"]) simp_all
    then have "img s' (512 * (da s + 1) + j) = img s3 (512 * (da s + 1) + j)" using ew(6) j by (simp add: agrees_def)
    then show "img s' (512 * (da s + 1) + j) = xs ! j" using b(5) j by simp
  qed simp
  then have "is_file_ent s' e name xs"
    using b(3) ew(3) unfolding is_file_ent_def e_def bs by (intro exI conjI) simp_all
  moreover have "unat (of_nat nie :: u8) = nie" using n by (simp add: unat_of_nat)
  moreover have "ie_type e = IAT_FILE_ENT" "ie_ne e = of_nat nie" by (simp_all add: e_def mk_entry_fields)
  ultimately have "mk_inv h (names @ [name]) s' (e # es)"
    using ew b l(2) h by (intro mk_inv_add [OF inv, of s' nie]) simp_all
  moreover have "agrees 0 0 s s'" using ew(4) by (auto intro: agrees_mono)
  ultimately show ?thesis by blast
qed

lemma write_files_inv:
  assumes "mk_inv h names s es" and "write_files h fs s = Inr s'" and "\<forall>f \<in> set fs. length f < 4096"
  shows "\<exists>es'. mk_inv h (names @ fs) s' es' \<and> agrees 0 0 s s'"
  using assms
proof (induction fs arbitrary: names s es)
  case Nil
  then show ?case using agrees_refl by auto
next
  case (Cons f fs)
  then obtain s1 where s1: "mk_write_file h f s = Inr s1" "write_files h fs s1 = Inr s'" by auto
  then have "h f = Some Host_dir \<or> (\<exists>xs. h f = Some (Host_reg xs))"
    by (auto simp: mk_write_file_def split: option.splits host_file.splits)
  then obtain e where e: "mk_inv h (names @ [f]) s1 (e # es)" "agrees 0 0 s s1"
    using mk_write_file_dir [OF Cons.prems(1) s1(1)] mk_write_file_reg [OF Cons.prems(1) s1(1)] Cons.prems(3) by fastforce
  from Cons.IH [OF e(1) s1(2)] Cons.prems(3) agrees_trans [OF e(2)] show ?case by auto
qed


section \<open>The superblock\<close>

lemma poke_at_length [simp]: "off + length xs \<le> length bs \<Longrightarrow> length (poke_at off xs bs) = length bs"
  by (simp add: poke_at_def)

lemma bytes_poke_same: "off \<le> length bs \<Longrightarrow> n = length xs \<Longrightarrow> bytes off n (poke_at off xs bs) = xs"
  by (simp add: bytes_def poke_at_def)

lemma poke_at_nth:
  "off + length xs \<le> length bs \<Longrightarrow> i < length bs \<Longrightarrow>
    poke_at off xs bs ! i = (if off \<le> i \<and> i < off + length xs then xs ! (i - off) else bs ! i)"
  by (auto simp: poke_at_def nth_append)

lemma bytes_poke_other:
  assumes "off + length xs \<le> length bs" and "o' + n \<le> length bs" and "o' + n \<le> off \<or> off + length xs \<le> o'"
  shows "bytes o' n (poke_at off xs bs) = bytes o' n bs"
  using assms by (auto simp: bytes_def poke_at_nth intro!: nth_equalityI)

text \<open>What both programs need of a superblock.\<close>

definition sb_says :: "u8 list \<Rightarrow> nat \<Rightarrow> nat \<Rightarrow> bool" where
  "sb_says b n r \<longleftrightarrow> length b = 512 \<and> bytes 0x1ac 3 b = [83, 70, 83] \<and> bytes 0x1af 1 b = [0x10] \<and>
     bytes 0x1b0 8 b = to_le 8 n \<and> bytes 0x1b8 4 b = to_le 4 r \<and> calc_checksum b = 0"

lemma checksum_poke_other:
  assumes "off + length xs \<le> 0x1ac" and "length bs = 512"
  shows "calc_checksum (poke_at off xs bs) = calc_checksum bs"
  unfolding calc_checksum_def using assms by (intro arg_cong [where f = sum_list] map_cong) (auto simp: poke_at_nth)

lemma checksum_poke_last:
  assumes "length bs = 512" and "bs ! 0x1bd = 0"
  shows "calc_checksum (poke_at 0x1bd [x] bs) = calc_checksum bs + x"
proof -
  have u: "[0x1ac..<0x1be] = [0x1ac..<0x1bd] @ [0x1bd]" using upt_Suc_append [of "0x1ac" "0x1bd"] by simp
  have "map ((!) (poke_at 0x1bd [x] bs)) [0x1ac..<0x1bd] = map ((!) bs) [0x1ac..<0x1bd]"
    using assms(1) by (intro map_cong) (auto simp: poke_at_nth)
  moreover have "poke_at 0x1bd [x] bs ! 0x1bd = x" using assms(1) by (simp add: poke_at_nth)
  ultimately show ?thesis unfolding calc_checksum_def u using assms(2) by simp
qed

lemma init_sb_says:
  assumes "length (m_sb s) = 512"
  shows "sb_says (slice (img (init_sb s)) 0 512) (unat (m_nblk s)) (unat (m_reserved_blk s))"
    and "m_nblk (init_sb s) = m_nblk s" "m_nindex (init_sb s) = m_nindex s" "m_reserved_blk (init_sb s) = m_reserved_blk s"
    and "m_da_blocks (init_sb s) = m_da_blocks s" "512 \<le> isize (init_sb s)"
proof -
  define b where "b = m_sb (init_sb s)"
  have l: "length b = 512" using assms by (simp add: b_def init_sb_def Let_def write_elem_def)
  have i: "slice (img (init_sb s)) 0 512 = b"
    using write_elem_same [of 0 0 b] l by (simp add: b_def init_sb_def Let_def write_elem_def)
  have "bytes 0x1ac 3 b = [83, 70, 83]" "bytes 0x1af 1 b = [0x10]" "bytes 0x1b0 8 b = to_le 8 (unat (m_nblk s))"
      "bytes 0x1b8 4 b = to_le 4 (unat (m_reserved_blk s))"
    using assms by (simp_all add: b_def init_sb_def Let_def write_elem_def bytes_poke_other bytes_poke_same)
  moreover have "calc_checksum b = 0"
    using assms by (simp add: b_def init_sb_def Let_def write_elem_def checksum_poke_last poke_at_nth)
  ultimately show "sb_says (slice (img (init_sb s)) 0 512) (unat (m_nblk s)) (unat (m_reserved_blk s))"
    unfolding i sb_says_def using l by simp
  show "m_nblk (init_sb s) = m_nblk s" "m_nindex (init_sb s) = m_nindex s" "m_reserved_blk (init_sb s) = m_reserved_blk s"
    "m_da_blocks (init_sb s) = m_da_blocks s"
    by (simp_all add: init_sb_def Let_def)
  show "512 \<le> isize (init_sb s)" using l by (simp add: b_def init_sb_def Let_def write_elem_def)
qed


lemma init_index_room:
  assumes s1: "init_index s = Inr s1" and f: "nbl s \<le> 2 ^ 22" "m_nindex s = m_nblk s * 8" "m_reserved_blk s = 1" "m_da_blocks s = 0"
  shows "room s1" and "m_ia_num s1 = 1" and "m_da_blocks s1 = 0" and "m_nblk s1 = m_nblk s" and "agrees 0 0 s s1"
proof -
  let ?a = "s\<lparr>m_ia_num := 0\<rparr>"
  define id :: "u8 list" where
    "id = poke_at 12 [115, 102, 115, 45, 49, 46, 48, 0] (poke_at 4 (to_le 8 0) (poke_at 0 [1] (replicate 64 0)))"
  obtain t where t: "length id = 64" "inc_ia_num 1 (mk_write_index 0 id ?a) = Inr t" "s1 = mk_write_index (m_ia_num t) mark t"
    using s1 by (auto simp: init_index_def Let_def id_def)
  let ?w = "mk_write_index 0 id ?a"
  have v: "t = ?w\<lparr>m_ia_num := 1\<rparr>" "room t"
    using verify_room [of "?w\<lparr>m_ia_num := 1\<rparr>" t] t(2) f by (simp_all add: inc_ia_num_def)
  have ra: "room ?a" using v f by (simp add: room_def)
  have "agrees 0 0 s ?a" by (simp add: agrees_def)
  moreover have "agrees 0 0 ?a ?w" using mk_write_index_spec(3) [OF ra _ t(1), of 0] f(4) by simp
  moreover have "agrees 0 0 ?w t" by (simp add: agrees_def v(1))
  moreover have "agrees 0 0 t s1"
    using mk_write_index_spec(3) [OF v(2) order_refl, of mark] f(4) t(3) by (auto simp: mark_def v(1) intro: agrees_mono)
  ultimately show "agrees 0 0 s s1" by (meson agrees_trans)
  show "room s1" "m_ia_num s1 = 1" "m_da_blocks s1 = 0" "m_nblk s1 = m_nblk s"
    using v f(4) by (simp_all add: t(3))
qed

text \<open>The state after the root directory has been written.\<close>

lemma init_root_inv:
  assumes r: "room s1" "m_ia_num s1 = 1" "m_da_blocks s1 = 0" "512 \<le> isize s1" and s2: "init_root s1 = Inr s2"
  shows "\<exists>es. mk_inv h [] s2 es" and "agrees 0 0 s1 s2"
proof -
  define e where "e = mk_entry IAT_DIR_ENT 0 0 0 (snd (create_dot_dir_items 1 1)) [47]"
  let ?w = "mk_write_index 1 e s1"
  obtain t u where t: "inc_da_blocks 1 ?w = Inr t" "inc_ia_num 1 t = Inr u" "s2 = mk_write_index (m_ia_num u) mark u"
    using s2 r by (auto simp: init_root_def Let_def e_def)
  have rw: "room ?w" using r(1) by simp
  have le: "length e = 64" by (simp add: e_def mk_entry_fields)
  note w = mk_write_index_spec [OF r(1) _ le, of 1]
  note d = inc_da_room [OF rw t(1)]
  have i: "room u" "u = t\<lparr>m_ia_num := m_ia_num t + 1\<rparr>" using inc_ia_room [of t 1 u] d(1) t(2) by simp_all
  have u: "m_ia_num u = 2" "m_da_blocks u = 1" using i(2) d(2) r by simp_all
  have "ia u = 2" using u by simp
  note x = mk_write_index_spec [OF i(1), of 2 mark]
  have s2: "s2 = mk_write_index (of_nat 2) mark u" using t(3) u by simp
  have m: "mie s2 1 = e"
  proof -
    have "mie s2 1 = mie u 1" using x(2) [of 1] u by (simp add: s2 mark_def)
    also have "\<dots> = mie ?w 1" by (simp add: i(2) d(2) mie_def)
    finally show ?thesis using w(1) r(2) by simp
  qed
  have "unat (ie_ne e) = 0" "ie_type e = IAT_DIR_ENT" by (simp_all add: e_def mk_entry_fields)
  then have "index_chain (mie s2) 1 [e]" using m by simp
  moreover have "agrees 0 0 s1 ?w" using w(3) r(2) by (auto intro: agrees_mono)
  moreover have "agrees 0 0 ?w u" by (simp add: agrees_def i(2) d(2))
  moreover have "agrees 0 0 u s2" using x(3) u by (auto simp: s2 mark_def intro: agrees_mono)
  ultimately show a: "agrees 0 0 s1 s2" by (meson agrees_trans)
  have "is_dir_ent e" unfolding is_dir_ent_def e_def by blast
  then have "mk_inv h [] s2 [e]"
    using a r(4) i(1) u \<open>index_chain (mie s2) 1 [e]\<close> by (simp add: mk_inv_def agrees_def s2)
  then show "\<exists>es. mk_inv h [] s2 es" by blast
qed

section \<open>The image and its reader\<close>

lemma read_elem_block: "512 \<le> isize s \<Longrightarrow> read_elem 0 BLKSZ s = Inr (slice (img s) 0 512)"
  by (simp add: read_elem_def slice_def)

lemma update_sb_spec:
  assumes inv: "mk_inv h names s es" and sb: "sb_says (slice (img s) 0 512) n r" and u: "update_sb s = Inr s'"
  shows "mk_inv h names s' es" and "sb_says (slice (img s') 0 512) n r" and "m_nblk s' = m_nblk s"
    and "field 0x1a4 8 (slice (img s') 0 512) = 64 * ia s'"
proof -
  note i = mk_invD [OF inv]
  define b where "b = poke_at 0x1a4 (to_le 8 (unat (m_ia_num s * of_nat IE_SIZE)))
    (poke_at 0x19c (to_le 8 (da s)) (poke_at 0x194 (to_le 8 0) (slice (img s) 0 512)))"
  have s': "s' = write_elem 0 b (s\<lparr>m_sb := b\<rparr>)"
    using u by (simp add: update_sb_def read_elem_block [OF i(3)] Let_def b_def)
  have l: "length b = 512" by (simp add: b_def)
  have img: "img s' k = img s k" if "512 \<le> k" for k using that l by (simp add: s' write_elem_def)
  have f: "m_nblk s' = m_nblk s" "m_ia_num s' = m_ia_num s" "m_da_blocks s' = m_da_blocks s" "isize s \<le> isize s'"
    "room s'" using i(1) by (simp_all add: s' room_def) (simp add: write_elem_def)
  then show "m_nblk s' = m_nblk s" by simp
  have fe: "is_file_ent s' e g xs" if "is_file_ent s e g xs" for e g xs
  proof -
    have "slice (img s') (512 * (bs + 1)) n = slice (img s) (512 * (bs + 1)) n" for bs n
      by (rule slice_eqI) (simp_all add: img slice_nth)
    then show ?thesis using that by (simp add: is_file_ent_def f)
  qed
  have "mie s' k = mie s k" if "k \<le> ia s - 1" for k
  proof -
    have "512 \<le> 64 * (8 * nbl s - k - 1)" using room_areas(1) [OF i(1)] that i(2) by simp
    then show ?thesis unfolding mie_def f(1) by (intro slice_eqI) (simp_all add: img slice_nth)
  qed
  then have "index_chain (mie s') (ia s' - 1) es" unfolding f(2) by (intro index_chain_cong [OF i(4)]) simp
  moreover have "0 < ia s'" "512 \<le> isize s'" using i(2,3) f by simp_all
  ultimately show "mk_inv h names s' es"
    using f(5) i(5,6) fe unfolding mk_inv_def by blast
  have "slice (img s') 0 (length b) = b" unfolding s' by (rule write_elem_same) simp
  then have sl: "slice (img s') 0 512 = b" by (simp only: l)
  show "sb_says (slice (img s') 0 512) n r"
    using sb l unfolding sl sb_says_def by (simp add: b_def bytes_poke_other checksum_poke_other)
  have "unat (m_ia_num s * of_nat IE_SIZE) = 64 * ia s"
    using room_bounds(2) [OF i(1)] by (simp add: unat_word_ariths)
  moreover have "bytes 0x1a4 8 b = to_le 8 (unat (m_ia_num s * of_nat IE_SIZE))" by (simp add: b_def bytes_poke_same)
  moreover have "64 * ia s < 256 ^ 8" using room_bounds(2) [OF i(1)] by simp
  ultimately show "field 0x1a4 8 (slice (img s') 0 512) = 64 * ia s'"
    unfolding sl field_def f(2) by (simp add: bytes_def le_nat_to_le)
qed

lemma mk_main_spec:
  assumes m: "mk_main h nb files = Inr s" and nb: "unat nb \<le> 2 ^ 22" and len: "\<forall>f \<in> set files. length f < 4096"
  shows "\<exists>es. mk_inv h files s es \<and> m_nblk s = nb \<and> sb_says (slice (img s) 0 512) (unat nb) 1 \<and>
    field 0x1a4 8 (slice (img s) 0 512) = 64 * ia s"
proof -
  obtain s1 s2 s3 where s: "init_index (init_sb (mk_start nb)) = Inr s1" "init_root s1 = Inr s2" "write_files h files s2 = Inr s3"
      "update_sb s3 = Inr s"
    using m by (auto simp: mk_main_def)
  have "length (m_sb (mk_start nb)) = 512" by (simp add: mk_start_def)
  note sb = init_sb_says [OF this]
  have i1: "room s1" "m_ia_num s1 = 1" "m_da_blocks s1 = 0" "m_nblk s1 = nb" "agrees 0 0 (init_sb (mk_start nb)) s1"
    using init_index_room [OF s(1)] sb nb by (simp_all add: mk_start_def)
  have z: "512 \<le> isize s1" using i1(5) sb(6) by (simp add: agrees_def)
  obtain es2 where i2: "mk_inv h [] s2 es2" "agrees 0 0 s1 s2" using init_root_inv [OF i1(1-3) z s(2)] by blast
  obtain es where i3: "mk_inv h files s3 es" "agrees 0 0 s2 s3" using write_files_inv [OF i2(1) s(3) len] by auto
  have a: "agrees 0 0 (init_sb (mk_start nb)) s3" using i1(5) i2(2) i3(2) by (meson agrees_trans)
  then have "slice (img s3) 0 512 = slice (img (init_sb (mk_start nb))) 0 512"
    by (intro slice_eqI) (simp_all add: agrees_def slice_nth)
  then have "sb_says (slice (img s3) 0 512) (unat nb) 1" using sb(1) by (simp add: mk_start_def)
  moreover have "m_nblk s3 = nb" using a sb(2) by (simp add: agrees_def mk_start_def)
  ultimately show ?thesis using update_sb_spec [OF i3(1) _ s(4)] by auto
qed

text \<open>The RAM disk holds the image.\<close>

definition holds_image :: "mk \<Rightarrow> bio \<Rightarrow> bool" where
  "holds_image s b \<longleftrightarrow> disksize b = m_nblk s \<and> (\<forall>k < m_nblk s. sector b k = slice (img s) (512 * unat k) 512)"

lemma bytes_slice: "off + k \<le> n \<Longrightarrow> bytes off k (slice f a n) = slice f (a + off) k"
  by (rule nth_equalityI) (simp_all add: bytes_def slice_nth add.assoc)

lemma bytes_single:
  assumes "bytes off 1 b = [x]"
  shows "b ! off = x"
proof -
  obtain ys where d: "drop off b = x # ys" using assms by (cases "drop off b") (auto simp: bytes_def)
  then have "off < length b" by (metis drop_all list.distinct(1) not_le)
  then show ?thesis using d by (metis hd_drop_conv_nth list.sel(1))
qed

lemma check_sfs_image:
  assumes ok: "sfs_ok t" and img: "holds_image s (sbio t)" and r: "room s"
    and sb: "sb_says (slice (img s) 0 512) (nbl s) 1" and ia: "field 0x1a4 8 (slice (img s) 0 512) = 64 * ia s"
  obtains t1 where "check_sfs t = Inr t1" and "sfs_ok t1" and "holds_image s (sbio t1)" and "s_nblk t1 = m_nblk s"
    and "reserved_blk t1 = 1" and "ia_num t1 = m_ia_num s" and "junk t1 = junk t"
proof -
  let ?b = "slice (img s) 0 512"
  have "0 < nbl s" using r unfolding room_def by linarith
  then have "0 < m_nblk s" by (simp add: word_less_nat_alt)
  then have b: "sector (sbio t) 0 = ?b" "0 < disksize (sbio t)" using img by (auto simp: holds_image_def)
  obtain t' where t': "read_block 0 t = Inr (?b, t')" "keeps t t'" using read_blockE [OF ok b(2)] b(1) by auto
  note k = keepsD [OF t'(2)]
  have m: "sb_magic ?b = [83, 70, 83]" "sb_version ?b = 0x10"
    using sb bytes_single [of "0x1af" ?b] by (simp_all add: sb_says_def sb_magic_def sb_version_def)
  have f: "field 0x1b0 8 ?b = nbl s" "field 0x1b8 4 ?b = 1"
    using sb u32_less [of "m_nblk s"] by (simp_all add: sb_says_def field_def bytes_def le_nat_to_le)
  have i: "(ucast (sb_ia_size ?b div 64) :: u32) = m_ia_num s"
  proof -
    have "64 * ia s < 2 ^ 64" using room_bounds(2) [OF r] by simp
    then have "unat (sb_ia_size ?b) = 64 * ia s"
      unfolding sb_ia_size_def ia unat_of_nat by (intro mod_less) simp
    then have "unat (sb_ia_size ?b div 64) = ia s" by (simp add: unat_div)
    then show ?thesis using u32_less [of "m_ia_num s"] by (simp add: u32_eq_iff unat_ucast_32)
  qed
  have "check_sfs t = Inr (obtain_sb_info ?b t')" by (simp add: check_sfs_def t'(1) m)
  moreover have "sfs_ok (obtain_sb_info ?b t')" using k(1) by (simp add: obtain_sb_info_def sfs_ok_def)
  moreover have "holds_image s (sbio (obtain_sb_info ?b t'))" using img k by (simp add: obtain_sb_info_def holds_image_def)
  moreover have "s_nblk (obtain_sb_info ?b t') = m_nblk s" "reserved_blk (obtain_sb_info ?b t') = 1"
      "ia_num (obtain_sb_info ?b t') = m_ia_num s" "junk (obtain_sb_info ?b t') = junk t"
    using f i k unat_ucast_32 [of "ucast (m_nblk s)"] u32_less [of "m_nblk s"]
    by (simp_all add: obtain_sb_info_def sb_total_blk_def sb_resv_blk_def u32_eq_iff)
  ultimately show ?thesis by (rule that)
qed

lemma ie_at_image:
  assumes "holds_image s (sbio t)" and "s_nblk t = m_nblk s" and "k < 8 * nbl s" and "nbl s \<le> 2 ^ 22"
  shows "ie_at t k = mie s k"
proof -
  let ?n = "m_nblk s - of_nat (k div 8) - 1"
  have q: "k div 8 < nbl s" using assms(3) by (simp add: div_less_iff_less_mult)
  have "?n = of_nat (nbl s - k div 8 - 1)" using q by (simp add: of_nat_diff)
  then have u: "unat ?n = nbl s - k div 8 - 1" using assms(4) by simp
  then have "?n < m_nblk s" using q by (simp add: word_less_nat_alt)
  then have "sector (sbio t) ?n = slice (img s) (512 * (nbl s - k div 8 - 1)) 512"
    using assms(1) u by (simp add: holds_image_def)
  then have "ie_at t k = slice (img s) (512 * (nbl s - k div 8 - 1) + (512 - (k mod 8 + 1) * 64)) 64"
    by (simp add: ie_at_def assms(2) bytes_slice)
  moreover have "512 * (n - q - 1) + (512 - (r + 1) * 64) = 64 * (8 * n - (8 * q + r) - 1)" if "q < n" "r < 8" for n q r :: nat
    using that by (simp add: diff_mult_distrib2)
  then have "512 * (nbl s - k div 8 - 1) + (512 - (k mod 8 + 1) * 64) = 64 * (8 * nbl s - (8 * (k div 8) + k mod 8) - 1)"
    using q by simp
  ultimately show ?thesis by (simp only: mie_def mult_div_mod_eq)
qed


text \<open>A name without zeros is found in no directory entry and in the entries of names it is a prefix of.\<close>

lemma matches_dir:
  assumes "is_dir_ent e" and "f \<noteq> []" and "0 \<notin> set f"
  shows "\<not> matches t f e"
proof -
  obtain c f' where f: "f = c # f'" "c \<noteq> 0" using assms(2,3) by (cases f) auto
  obtain ne be len g where e: "e = mk_entry IAT_DIR_ENT ne 0 be len g" using assms(1) by (auto simp: is_dir_ent_def)
  have "ie_type e = IAT_DIR_ENT" unfolding e by (rule mk_entry_fields)
  moreover have "\<exists>xs. dir_name e = 0 # xs" unfolding e mk_entry_fields by simp
  ultimately show ?thesis using f by (auto simp: matches_def name_eq_def)
qed

lemma matches_file:
  assumes "is_file_ent s e g xs" and "0 \<notin> set f" and "length f \<le> 30"
  shows "matches t f e \<longleftrightarrow> take (length f) g = f"
proof -
  have "matches t f e \<longleftrightarrow> take (length f) (pad 30 g) = f"
    using assms(1,3) by (auto simp: is_file_ent_def matches_def mk_entry_fields name_eq_def)
  also have "\<dots> \<longleftrightarrow> take (length f) g = f"
  proof (cases "length f \<le> length g")
    case True
    then have "take (length f) (pad 30 g) = take (length f) g" using assms(3) by (simp add: pad_def min_def)
    then show ?thesis by simp
  next
    case False
    then have "length g < 30" using assms(3) by simp
    then have "pad 30 g ! length g = 0" by (simp add: pad_def nth_append)
    then have "take (length f) (pad 30 g) ! length g = 0" using False by simp
    then have "take (length f) (pad 30 g) \<noteq> f" using assms(2) False nth_mem [of "length g" f] by force
    moreover have "take (length f) g \<noteq> f" using False by (metis length_take min_def nat_less_le not_le)
    ultimately show ?thesis by simp
  qed
  finally show ?thesis .
qed

lemma find_image_file:
  assumes inv: "mk_inv h files s es" and f: "f \<in> set files" "h f = Some (Host_reg xs)" "f \<noteq> []" "0 \<notin> set f" "length f \<le> 30"
    and pre: "\<forall>g \<in> set files. take (length f) g = f \<longrightarrow> g = f"
  shows "\<exists>e. find (matches t f) es = Some e \<and> is_file_ent s e f xs"
proof -
  note i = mk_invD [OF inv]
  obtain e0 where "e0 \<in> set es" "is_file_ent s e0 f xs" using i(6) [OF f(1,2)] by blast
  then have "\<exists>e \<in> set es. matches t f e" using matches_file [OF _ f(4,5), of s e0 f xs] by auto
  then obtain e where e: "find (matches t f) es = Some e" "e \<in> set es" "matches t f e"
    by (cases "find (matches t f) es") (auto simp: find_None_iff find_Some_iff)
  then obtain g ys where g: "g \<in> set files" "h g = Some (Host_reg ys)" "is_file_ent s e g ys"
    using i(5) [OF e(2)] matches_dir [OF _ f(3,4)] by blast
  then have "g = f" using matches_file [OF g(3) f(4,5)] e(3) pre by blast
  then show ?thesis using e(1) g f(2) by auto
qed

lemma data_at_image:
  assumes "sfs_ok t" and img: "holds_image s (sbio t)" and "reserved_blk t = 1" and r: "room s"
    and bs: "bs + (n + 511) div 512 \<le> da s"
  shows "data_fits t (of_nat bs) n" and "data_at t (of_nat bs) n = slice (img s) (512 * (bs + 1)) n"
proof -
  have lt: "da s + 1 < nbl s" "nbl s \<le> 4194304" using r by (simp_all add: room_def)
  have u: "unat (of_nat bs + 1 + of_nat k :: u32) = bs + 1 + k" if "k \<le> (n + 511) div 512" for k
  proof -
    have "bs + 1 + k < 4294967296" using bs that lt by linarith
    then show ?thesis using unat_of_nat32 [of "bs + 1 + k"] by (simp add: algebra_simps)
  qed
  have d: "disksize (sbio t) = m_nblk s" using img by (simp add: holds_image_def)
  show "data_fits t (of_nat bs) n" using u [of 0] bs lt unfolding data_fits_def assms(3) d by simp
  have "sfsdev.run t (of_nat bs + 1) k = slice (img s) (512 * (bs + 1)) (512 * k)" if "k \<le> (n + 511) div 512" for k
    using that
  proof (induction k)
    case (Suc k)
    have "unat (of_nat bs + 1 + of_nat k :: u32) = bs + 1 + k" using u [of k] Suc.prems by simp
    moreover have "bs + 1 + k < nbl s" using bs Suc.prems lt by linarith
    ultimately have "sector (sbio t) (of_nat bs + 1 + of_nat k) = slice (img s) (512 * (bs + 1 + k)) 512"
      using img by (simp add: holds_image_def word_less_nat_alt)
    moreover have "sfsdev.run t (of_nat bs + 1) (Suc k) =
        sfsdev.run t (of_nat bs + 1) k @ sector (sbio t) (of_nat bs + 1 + of_nat k)"
      using sfsdev.run_add [of t "of_nat bs + 1" k 1] by (simp add: sfsdev.run_Suc)
    ultimately have "sfsdev.run t (of_nat bs + 1) (Suc k) =
        slice (img s) (512 * (bs + 1)) (512 * k) @ slice (img s) (512 * (bs + 1 + k)) 512"
      using Suc by simp
    also have "\<dots> = slice (img s) (512 * (bs + 1)) (512 * k + 512)"
      unfolding slice_add by (simp add: algebra_simps)
    finally show ?case by (simp add: add.commute)
  qed (simp add: slice_def)
  then have "data_at t (of_nat bs) n = take n (slice (img s) (512 * (bs + 1)) (512 * ((n + 511) div 512)))"
    by (simp add: data_at_def assms(3))
  also have "\<dots> = slice (img s) (512 * (bs + 1)) n" by (rule nth_equalityI) (simp_all add: slice_nth)
  finally show "data_at t (of_nat bs) n = slice (img s) (512 * (bs + 1)) n" .
qed


lemma image_read_back:
  assumes mk: "mk_main h nb files = Inr s" and nb: "unat nb \<le> 2 ^ 22" and len: "\<forall>g \<in> set files. length g < 4096"
    and f: "f \<in> set files" "h f = Some (Host_reg xs)" "f \<noteq> []" "0 \<notin> set f" "length f \<le> 30"
    and pre: "\<forall>g \<in> set files. take (length f) g = f \<longrightarrow> g = f"
    and t: "sfs_ok t" "holds_image s (sbio t)" and n: "unat n < 2 ^ 31"
  shows "\<exists>t'. bnd (check_sfs t) (sfs_read_file f dst n m) =
    Inr (int (min (length xs) (unat n)), poke (memset m dst 0 n) dst (take (unat n) xs), t')"
proof -
  obtain es where es: "mk_inv h files s es" "m_nblk s = nb" "sb_says (slice (img s) 0 512) (nbl s) 1"
      "field 0x1a4 8 (slice (img s) 0 512) = 64 * ia s"
    using mk_main_spec [OF mk nb len] by auto
  note i = mk_invD [OF es(1)]
  obtain t1 where t1: "check_sfs t = Inr t1" "sfs_ok t1" "holds_image s (sbio t1)" "s_nblk t1 = m_nblk s"
      "reserved_blk t1 = 1" "ia_num t1 = m_ia_num s"
    using check_sfs_image [OF t i(1) es(3,4)] by blast
  have a: "ia s + 1 < 8 * nbl s" "nbl s \<le> 4194304" using room_areas(2) [OF i(1)] nb es(2) by simp_all
  have "ia s - 1 < 8 * nbl s" "ia s - 1 < 2147483648" using a by auto
  then have fits: "index_fits t1 (ia s - 1)" using t1(3) by (simp add: index_fits_def t1(4) holds_image_def)
  have chain: "index_chain (ie_at t1) (ia s - 1) es"
    using a by (intro index_chain_cong [OF i(4)]) (simp add: ie_at_image [OF t1(3,4)])
  obtain e where e: "find (matches t1 f) es = Some e" "is_file_ent s e f xs"
    using find_image_file [OF es(1) f pre] by blast
  then obtain ne bs be where d: "e = mk_entry IAT_FILE_ENT ne bs be (length xs) f" "bs + (length xs + 511) div 512 \<le> da s"
      "slice (img s) (512 * (bs + 1)) (length xs) = xs" by (auto simp: is_file_ent_def)
  define k where "k = min (length xs) (unat n)"
  have das: "da s < 4194304" using room_bounds(1) [OF i(1)] by simp
  have small: "bs < 2 ^ 32" "length xs < 2 ^ 31"
    using d(2) das by auto
  have e': "ie_type e = IAT_FILE_ENT" "file_blk_start e = of_nat bs" "unat (file_len e) = length xs"
    using small by (simp_all add: d(1) mk_entry_fields unat_of_nat)
  have kb: "bs + (k + 511) div 512 \<le> da s" using d(2) div_le_mono [of "k + 511" "length xs + 511" 512] by (simp add: k_def)
  note da = data_at_image [OF t1(2,3,5) i(1) kb]
  have u: "(ucast (file_blk_start e) :: u32) = of_nat bs"
    using small(1) by (simp add: e'(2) u32_eq_iff unat_ucast_32 unat_of_nat)
  obtain t' where "sfs_read_file f dst n m t1 = Inr (int k, poke (memset m dst 0 n) dst (data_at t1 (of_nat bs) k), t')"
    using sfs_read_file_spec [OF t1(2) _ _ _ e(1) e'(1), of n k dst m] fits chain small(2) n i(2) da(1)
    by (auto simp: t1(6) e'(3) u k_def word_less_nat_alt)
  moreover have "slice (img s) (512 * (bs + 1)) k = take k (slice (img s) (512 * (bs + 1)) (length xs))"
    by (rule nth_equalityI) (simp_all add: slice_nth k_def)
  then have "data_at t1 (of_nat bs) k = take (unat n) xs" unfolding da(2) d(3) by (simp add: k_def min_def)
  ultimately show ?thesis using t1(1) by (simp add: k_def)
qed

section \<open>Properties\<close>

text \<open>A run on a directory and a file of three bytes, for an image of eight blocks, and a RAM disk with that image.\<close>

definition demo_host :: host where
  "demo_host f = (if f = [97, 98] then Some (Host_reg [1, 2, 3]) else if f = [100] then Some Host_dir else None)"

lemma demo_run: "\<exists>s. mk_main demo_host 8 [[100], [97, 98]] = Inr s"
proof -
  have v: "verify s = Inr s" if "m_nblk s = 8" "da s \<le> 2" "ia s \<le> 4" for s
  proof -
    have "unat (m_ia_num s + 1) = ia s + 1" using that(3) by (simp add: unat_word_ariths)
    then have "unat ((m_ia_num s + 1) div 8) = (ia s + 1) div 8" by (simp add: unat_div)
    then have "unat (m_da_blocks s + ((m_ia_num s + 1) div 8 + 1)) \<le> 3"
      using that by (simp add: unat_word_ariths)
    then show ?thesis using that(1) by (simp add: verify_def full_def word_le_nat_alt)
  qed
  let ?s0 = "init_sb (mk_start 8)"
  have f0: "m_nblk ?s0 = 8" "m_da_blocks ?s0 = 0" "512 \<le> isize ?s0"
    using init_sb_says [of "mk_start 8"] by (simp_all add: mk_start_def)
  obtain s1 where s1: "init_index ?s0 = Inr s1" "m_nblk s1 = 8" "m_da_blocks s1 = 0" "m_ia_num s1 = 1" "512 \<le> isize s1"
    using f0 by (simp add: init_index_def Let_def inc_ia_num_def v) (auto simp: mk_write_index_def write_elem_def Let_def)
  obtain s2 where s2: "init_root s1 = Inr s2" "m_nblk s2 = 8" "m_da_blocks s2 = 1" "m_ia_num s2 = 2" "512 \<le> isize s2"
    using s1 by (simp add: init_root_def Let_def inc_ia_num_def inc_da_blocks_def v) (auto simp: mk_write_index_def write_elem_def Let_def)
  obtain s3 where s3: "mk_write_file demo_host [100] s2 = Inr s3" "m_nblk s3 = 8" "m_da_blocks s3 = 1" "m_ia_num s3 = 3" "512 \<le> isize s3"
    using s2 by (simp add: mk_write_file_def demo_host_def NIE_FILE_def Let_def inc_ia_num_def v)
      (auto simp: mk_write_index_def write_elem_def Let_def)
  obtain s4 where s4: "mk_write_file demo_host [97, 98] s3 = Inr s4" "512 \<le> isize s4"
    using s3 by (simp add: mk_write_file_def demo_host_def NIE_FILE_def Let_def inc_ia_num_def inc_da_blocks_def v write_blocks.simps)
      (auto simp: mk_write_index_def write_elem_def Let_def)
  show ?thesis using s1(1) s2(1) s3(1) s4 by (simp add: mk_main_def update_sb_def read_elem_block Let_def)
qed

definition image_sfs :: "mk \<Rightarrow> sfs" where
  "image_sfs s = demo\<lparr>sbio := init_buffer (boot_bio\<lparr>ram := (\<lambda>a. img s (unat a)), hdstart := 0, disksize := m_nblk s\<rparr>)\<rparr>"

lemma image_sfs_holds:
  assumes "nbl s \<le> 2 ^ 22"
  shows "sfs_ok (image_sfs s)" and "holds_image s (sbio (image_sfs s))"
proof -
  let ?b = "boot_bio\<lparr>ram := (\<lambda>a. img s (unat a)), hdstart := 0, disksize := m_nblk s\<rparr>"
  have "length (fsbuf ?b) = NBUF" "disk_ok ?b" "MAJOR 0x100 = MEM_MAJOR"
    "\<forall>i < NBUF. b_flags (bget ?b i) = 0 \<and> length (b_data (bget ?b i)) = BUF_SIZE"
    using assms by (simp_all add: boot_bio_def disk_ok_def MAJOR_def bget_def)
  note i = init_cache [OF this]
  have "(ucast SFS_DEV :: u16) = 0x100" by (simp add: SFS_DEV_def MKDEV_def)
  then show "sfs_ok (image_sfs s)" using i(1,2) by (auto simp: sfs_ok_def ram_ok_def image_sfs_def)
  have "sector (init_buffer ?b) k = slice (img s) (512 * unat k) 512" if "k < m_nblk s" for k
  proof -
    have "unat k < 4194304" using that assms by (simp add: word_less_nat_alt)
    then have "unat (k * 512 + of_nat j) = 512 * unat k + j" if "j < 512" for j using that by (simp add: unat_word_ariths)
    then show ?thesis using i(3,4) by (intro nth_equalityI) (simp_all add: sector_def peek_def slice_nth)
  qed
  then show "holds_image s (sbio (image_sfs s))" using i(5) by (simp add: holds_image_def image_sfs_def)
qed

text \<open>
  C35. The image builder: when \<^verbatim>\<open>mk_sfs\<close> succeeds on an image of at most \<open>2 ^ 22\<close> blocks, the data area ends
  below the index area, both lie inside the image, and the checksum of the superblock is zero.
\<close>

theorem mk_areas_apart:
  assumes "mk_main h nb files = Inr s" and "unat nb \<le> 2 ^ 22" and "\<forall>g \<in> set files. length g < 4096"
  shows "512 * (1 + unat (m_da_blocks s)) \<le> 64 * (8 * unat nb - unat (m_ia_num s) - 1) \<and>
    unat (m_ia_num s) + 1 < 8 * unat nb \<and> calc_checksum (map (img s) [0..<512]) = 0"
proof -
  obtain es where es: "mk_inv h files s es" "m_nblk s = nb" "sb_says (slice (img s) 0 512) (unat nb) 1"
    using mk_main_spec [OF assms] by blast
  then show ?thesis using room_areas [OF mk_invD(1) [OF es(1)]] by (simp add: sb_says_def slice_def)
qed

theorem mk_areas_apart_witness:
  "\<exists>s. mk_main demo_host 8 [[100], [97, 98]] = Inr s \<and> unat (m_ia_num s) + 1 < 64 \<and>
     calc_checksum (map (img s) [0..<512]) = 0"
proof -
  obtain s where s: "mk_main demo_host 8 [[100], [97, 98]] = Inr s" using demo_run by blast
  show ?thesis using mk_areas_apart [OF s] s by auto
qed

end
