(* ===== verification/User_Prog.thy ===== *)
theory User_Prog
  imports Kern_Syscall
begin

text \<open>
  The user side: the stubs of \<^verbatim>\<open>lib/usys.S\<close>, the library routines of \<^verbatim>\<open>lib/utils.c\<close>, and the programs under \<^verbatim>\<open>user/\<close>. A program
  sees the kernel as the answers to its system calls; \<open>u_ans\<close> gives the answer to each call by its number, the calls are
  recorded in \<open>u_calls\<close> and what \<^verbatim>\<open>printf\<close> writes in \<open>u_out\<close>. Programs that run forever are given by one round of their loop.
\<close>

section \<open>Calls\<close>

datatype ucall =
  UOpen "u8 list" int | UCreat "u8 list" int | URead int int | UWrite int "u8 list" int | UClose int | UTicks
| UFork | UWait | UExit | UExec "u8 list" "u8 list list" | UStat "u8 list"

fun ucall_no :: "ucall \<Rightarrow> nat" where
  "ucall_no (UOpen _ _) = 1"
| "ucall_no (UCreat _ _) = 2"
| "ucall_no (URead _ _) = 3"
| "ucall_no (UWrite _ _ _) = 4"
| "ucall_no (UClose _) = 5"
| "ucall_no UTicks = 6"
| "ucall_no UFork = 7"
| "ucall_no UWait = 8"
| "ucall_no UExit = 9"
| "ucall_no (UExec _ _) = 10"
| "ucall_no (UStat _) = 11"

text \<open>An answer is the value returned and the bytes the kernel has stored for the caller.\<close>

record uenv =
  u_ans :: "nat \<Rightarrow> int \<times> u8 list"
  u_calls :: "ucall list"
  u_out :: "u8 list"

definition ucall :: "ucall \<Rightarrow> uenv \<Rightarrow> (int \<times> u8 list) \<times> uenv" where
  "ucall c u = (u_ans u (length (u_calls u)), u\<lparr>u_calls := u_calls u @ [c]\<rparr>)"

definition uprint :: "string \<Rightarrow> arg list \<Rightarrow> uenv \<Rightarrow> uenv" where
  "uprint fmt args u = u\<lparr>u_out := u_out u @ render (chars fmt) args\<rparr>"

text \<open>How a program goes on: it has called \<^verbatim>\<open>exit\<close>, another program has taken its place, or \<^verbatim>\<open>main\<close> has returned.\<close>

datatype fate = Goes | Exited | Replaced | Returned int

definition uexit :: "uenv \<Rightarrow> fate \<times> uenv" where
  "uexit u = (Exited, snd (ucall UExit u))"

section \<open>The library\<close>

partial_function (option) sleep_loop :: "u32 \<Rightarrow> u32 \<Rightarrow> uenv \<Rightarrow> uenv option" where
  "sleep_loop start lim u =
     (case ucall UTicks u of ((r, _), u1) \<Rightarrow>
        if lim < word_of_int r - start then Some u1 else sleep_loop start lim u1)"

definition sleep_sec :: "u32 \<Rightarrow> uenv \<Rightarrow> uenv option" where
  "sleep_sec sec u = (case ucall UTicks u of ((r, _), u1) \<Rightarrow> sleep_loop (word_of_int r) (sec * 100) u1)"

definition msleep :: "u32 \<Rightarrow> uenv \<Rightarrow> uenv option" where
  "msleep msec u =
     (case ucall UTicks u of ((r, _), u1) \<Rightarrow> sleep_loop (word_of_int r) (word_of_int (if sint msec < 0 then - (- sint msec div 10) else sint msec div 10)) u1)"

text \<open>\<^verbatim>\<open>gets\<close> keeps asking while there is no data; \<open>c\<close> is the variable the byte is read into.\<close>

partial_function (option) gets_loop :: "nat \<Rightarrow> nat \<Rightarrow> u8 \<Rightarrow> u8 list \<Rightarrow> uenv \<Rightarrow> (u8 list \<times> uenv) option" where
  "gets_loop n i c buf u =
     (if i + 1 < n
      then (case ucall (URead 0 1) u of ((r, bs), u1) \<Rightarrow>
              let c1 = (case bs of [] \<Rightarrow> c | b # _ \<Rightarrow> b)
              in if r = - 1 then gets_loop n i c1 buf u1
                 else if r = 0 then Some (buf[i := 0], u1)
                 else let buf1 = buf[i := c1]
                      in if c1 = 10 \<or> c1 = 13 then Some (buf1[i + 1 := 0], u1) else gets_loop n (i + 1) c1 buf1 u1)
      else Some (buf[i := 0], u))"

definition gets :: "u8 list \<Rightarrow> nat \<Rightarrow> uenv \<Rightarrow> (u8 list \<times> uenv) option" where
  "gets buf n u = gets_loop n 0 0 buf u"

section \<open>\<open>echo\<close>, \<open>cat\<close>, \<open>hello\<close>, \<open>init\<close> and \<open>todo\<close>\<close>

definition echo_main :: "u8 list list \<Rightarrow> uenv \<Rightarrow> fate \<times> uenv" where
  "echo_main argv u =
     uexit (fold (\<lambda>i u. let u1 = uprint ''%s'' [Str (argv ! i)] u
                        in if i + 1 < length argv then uprint '' '' [] u1 else uprint ''\<newline>'' [] u1)
              [1..<length argv] u)"

text \<open>\<open>buf\<close> is the buffer of 512 bytes; the kernel has stored the bytes it answers at its beginning.\<close>

definition filled :: "u8 list \<Rightarrow> u8 list \<Rightarrow> u8 list" where
  "filled bs buf = bs @ drop (length bs) buf"

partial_function (option) cat :: "int \<Rightarrow> u8 list \<Rightarrow> uenv \<Rightarrow> (u8 list \<times> uenv) option" where
  "cat fd buf u =
     (case ucall (URead fd 512) u of ((n, bs), u1) \<Rightarrow>
        if 0 < n then cat fd (filled bs buf) (snd (ucall (UWrite 1 (filled bs buf) n) u1))
        else Some (filled bs buf, u1))"

fun cat_files :: "u8 list list \<Rightarrow> u8 list \<Rightarrow> uenv \<Rightarrow> (fate \<times> uenv) option" where
  "cat_files [] buf u = Some (uexit u)"
| "cat_files (f # fs) buf u =
     (case ucall (UOpen f 0) (uprint ''debug cat: open %s\<newline>'' [Str f] u) of ((fd, _), u1) \<Rightarrow>
        if fd < 0 then Some (Returned (- 1), uprint ''Error, open failed\<newline>'' [] u1)
        else (case cat fd buf u1 of
                None \<Rightarrow> None
              | Some (buf1, u2) \<Rightarrow> cat_files fs buf1 (snd (ucall (UClose fd) u2))))"

definition cat_main :: "u8 list list \<Rightarrow> u8 list \<Rightarrow> uenv \<Rightarrow> (fate \<times> uenv) option" where
  "cat_main argv buf u = cat_files (tl argv) buf u"

definition hello_start :: "uenv \<Rightarrow> uenv option" where
  "hello_start u =
     (case sleep_sec 4 u of
        None \<Rightarrow> None
      | Some u1 \<Rightarrow>
          (case ucall (UStat (chars ''bin/hello'')) u1 of ((_, st), u2) \<Rightarrow>
             Some (uprint ''start hello: Hello, world\<newline>'' []
                    (uprint ''bin/hello size = |%d|\<newline>'' [Num (of_nat (field 8 4 st))] u2))))"

definition hello_round :: "uenv \<Rightarrow> uenv option" where
  "hello_round u = (case sleep_sec 60 u of None \<Rightarrow> None | Some u1 \<Rightarrow> Some (uprint ''hello %d..\<newline>'' [Num 0] u1))"

text \<open>A call of \<^verbatim>\<open>exec\<close> that succeeds does not come back.\<close>

definition uexec :: "u8 list \<Rightarrow> u8 list list \<Rightarrow> uenv \<Rightarrow> int option \<times> uenv" where
  "uexec path argv u = (case ucall (UExec path argv) u of ((r, _), u1) \<Rightarrow> (if r = 0 then None else Some r, u1))"

text \<open>\<open>child path fmt u\<close>: the program is replaced by another, or says that it failed and exits.\<close>

definition uchild :: "string \<Rightarrow> string \<Rightarrow> uenv \<Rightarrow> fate \<times> uenv" where
  "uchild path fmt u =
     (case uexec (chars path) [] u of
        (None, u1) \<Rightarrow> (Replaced, u1)
      | (Some r, u1) \<Rightarrow> uexit (uprint fmt [Num (word_of_int r)] u1))"

abbreviation U_RDWR :: int where "U_RDWR \<equiv> 2"
abbreviation MOTD_SZ :: nat where "MOTD_SZ \<equiv> 1024"

text \<open>\<^verbatim>\<open>%s\<close> prints the message up to its NUL; a message that fills the buffer has none, and the bytes after it follow.\<close>

definition init_start :: "u8 list \<Rightarrow> uenv \<Rightarrow> uenv option" where
  "init_start after u =
     (let motd = chars ''etc/motd''
      in case ucall (UOpen motd U_RDWR) u of ((fd0, _), u1) \<Rightarrow>
         (case ucall (UOpen motd U_RDWR) (uprint ''fd0 = %d\<newline>'' [Num (word_of_int fd0)] u1) of ((fd, _), u2) \<Rightarrow>
         (case ucall (URead fd (int MOTD_SZ)) (uprint ''fd = %d\<newline>'' [Num (word_of_int fd)] u2) of ((n, bs), u3) \<Rightarrow>
            sleep_sec 3 (uprint ''\<newline>%s\<newline>\<newline>''
              [Str (takeWhile (\<lambda>c. c \<noteq> 0) (filled bs (replicate MOTD_SZ 0) @ after))] u3))))"

partial_function (option) init_wait :: "int \<Rightarrow> uenv \<Rightarrow> uenv option" where
  "init_wait pid u =
     (case ucall UWait u of ((wpid, _), u1) \<Rightarrow>
        if 0 \<le> wpid \<and> wpid \<noteq> pid then init_wait pid (uprint ''dead task(pid = %d)!\<newline>'' [Num (word_of_int wpid)] u1)
        else Some u1)"

definition init_round :: "uenv \<Rightarrow> (fate \<times> uenv) option" where
  "init_round u =
     (case ucall UFork (uprint ''init: starting sh...\<newline>'' [] u) of ((pid, _), u1) \<Rightarrow>
        if pid < 0 then Some (uexit (uprint ''Error! init: fork() failed!\<newline>'' [] u1))
        else if pid = 0 then Some (uchild ''bin/hsh'' ''!! init: exec() failed. ret = %d\<newline>'' u1)
        else (case init_wait pid u1 of None \<Rightarrow> None | Some u2 \<Rightarrow> Some (Goes, u2)))"

definition todo_start :: "uenv \<Rightarrow> fate \<times> uenv" where
  "todo_start u =
     (case ucall UFork u of ((pid, _), u1) \<Rightarrow>
        if pid < 0 then uexit (uprint ''Error! fork() failed!\<newline>'' [] u1)
        else if pid = 0 then uchild ''bin/hsh'' ''!! exec() failed. ret = %d\<newline>'' (uprint (''I'' @ [CHR 0x27] @ ''m child\<newline>'') [] u1)
        else (case ucall UWait u1 of ((ret, _), u2) \<Rightarrow>
                (Goes, uprint (''I'' @ [CHR 0x27] @ ''m parent, ret = %d\<newline>'') [Num (word_of_int ret)] u2)))"

definition todo_round :: "u32 \<Rightarrow> uenv \<Rightarrow> (u32 \<times> uenv) option" where
  "todo_round i u = (case sleep_sec 15 u of None \<Rightarrow> None | Some u1 \<Rightarrow> Some (i + 1, uprint ''in todo: i = %d\<newline>'' [Num i] u1))"

section \<open>The shell\<close>

abbreviation HSH_MAXARGS :: nat where "HSH_MAXARGS \<equiv> 16"
abbreviation BUFZ :: nat where "BUFZ \<equiv> 1024"
abbreviation CMDBUF :: nat where "CMDBUF \<equiv> 32"

definition hsh_version :: "u8 list" where
  "hsh_version = chars ''V0.01-dev @ 2014-07-10''"

definition hsh_help :: "uenv \<Rightarrow> uenv" where
  "hsh_help = fold (\<lambda>fmt. uprint fmt [])
     [''    help'' @ [CHR 0x09] @ ''This help\<newline>'', ''    cat'' @ [CHR 0x09, CHR 0x09] @ ''Cat one or more file(s)\<newline>'',
      ''    echo'' @ [CHR 0x09] @ ''Echo one or more string(s)\<newline>'', ''    hello'' @ [CHR 0x09] @ ''Run Hello\<newline>'',
      ''    version'' @ [CHR 0x09] @ ''Get Hsh'' @ [CHR 0x27] @ ''s version info\<newline>'']"

definition get_hsh_version :: "uenv \<Rightarrow> uenv" where
  "get_hsh_version = uprint ''    hsh %s\<newline>'' [Str hsh_version]"

definition hsh_clean_screen :: "uenv \<Rightarrow> uenv" where
  "hsh_clean_screen = uprint (''(Run command '' @ [CHR 0x27] @ ''clr'' @ [CHR 0x27] @ '')\<newline>'') []"

text \<open>Positions in the line buffer stand for pointers; the string at a position ends before the next NUL.\<close>

definition blank :: "u8 \<Rightarrow> bool" where
  "blank c \<longleftrightarrow> c = 32 \<or> c = 9"

definition str_at :: "u8 list \<Rightarrow> nat \<Rightarrow> u8 list" where
  "str_at b i = takeWhile (\<lambda>c. c \<noteq> 0) (drop i b)"

definition strlen_at :: "u8 list \<Rightarrow> nat \<Rightarrow> nat res" where
  "strlen_at b i = (if 0 \<in> set (drop i b) then Inr (length (str_at b i)) else Inl (Fault ''strlen runs over the buffer''))"

definition str_forward :: "u8 list \<Rightarrow> nat \<Rightarrow> nat \<Rightarrow> nat \<times> nat" where
  "str_forward b start stop =
     (let s = start + length (takeWhile blank (take (stop - start) (drop start b)));
          p = s + length (takeWhile (\<lambda>c. \<not> blank c) (take (stop - s) (drop s b)))
      in (s, p))"

text \<open>\<open>str\<close> is the position \<^verbatim>\<open>str\<close>, \<open>p\<close> that of the word; \<open>argv\<close> the entries stored so far.\<close>

partial_function (option) split_loop ::
    "nat \<Rightarrow> nat \<Rightarrow> nat \<Rightarrow> nat \<Rightarrow> nat list \<Rightarrow> u8 list \<Rightarrow> uenv \<Rightarrow> (nat list \<times> u8 list \<times> uenv) res option" where
  "split_loop maxn q str p argv b u =
     (if \<not> p < q then Some (if maxn \<le> length argv then Inl (Fault ''xargv is full'') else Inr (argv, b, u))
      else let u1 = (if maxn \<le> length argv + 1 then uprint ''Too many arguments!\<newline>'' [] u else u)
           in if maxn \<le> length argv then Some (Inl (Fault ''xargv is full''))
              else if length b \<le> str then Some (Inl (Fault ''str runs over the buffer''))
              else let b1 = b[str := 0]
                   in case strlen_at b1 (str + 1) of
                        Inl e \<Rightarrow> Some (Inl e)
                      | Inr n \<Rightarrow>
                          (case str_forward b1 (str + 1) (str + 1 + n) of (p1, str1) \<Rightarrow>
                             split_loop maxn q str1 p1 (argv @ [p]) b1 u1))"

definition split_args :: "nat \<Rightarrow> u8 list \<Rightarrow> uenv \<Rightarrow> (nat list \<times> u8 list \<times> uenv) res" where
  "split_args maxn b u =
     bnd (strlen_at b 0) (\<lambda>n.
       case str_forward b 0 n of (p, str) \<Rightarrow> ended ''split_args'' (split_loop maxn n str p [] b u))"

definition check_xargv :: "u8 list list \<Rightarrow> uenv \<Rightarrow> uenv" where
  "check_xargv args u =
     uprint ''argc = %d\<newline>'' [Num (of_nat (length args))]
       (fold (\<lambda>i. uprint ''%d: %s\<newline>'' [Num (of_nat (i + 1)), Str (args ! i)]) [0..<length args] u)"

text \<open>A failed \<^verbatim>\<open>exec\<close> in the child goes on to \<^verbatim>\<open>wait\<close>, and the child stays in the loop of the shell.\<close>

definition run_cmd :: "u8 list \<Rightarrow> uenv \<Rightarrow> (fate \<times> u8 list \<times> uenv) res" where
  "run_cmd b u =
     bnd (split_args HSH_MAXARGS b (uprint (''(Run command '' @ [CHR 0x27] @ ''%s'' @ [CHR 0x27] @ '')\<newline>'') [Str (str_at b 0)] u)) (\<lambda>(ps, b1, u1).
       let argv = map (str_at b1) ps;
           rest = (\<lambda>u. (Goes, b1, snd (ucall UWait u)))
       in case ucall UFork (check_xargv argv u1) of ((pid, _), u2) \<Rightarrow>
            if pid = - 1 then (case uexit (uprint ''fork() failed\<newline>'' [] u2) of (f, u3) \<Rightarrow> Inr (f, b1, u3))
            else if pid = 0
            then if argv = [] then Inl (Fault ''strcpy from NULL'')
                 else if CMDBUF \<le> 4 + length (hd argv) then Inl (Fault ''cmdbuf is full'')
                 else (case uexec (chars ''bin/'' @ hd argv) argv u2 of
                         (None, u3) \<Rightarrow> Inr (Replaced, b1, u3)
                       | (Some r, u3) \<Rightarrow>
                           Inr (rest (uprint (''cmd '' @ [CHR 0x27] @ ''%s'' @ [CHR 0x27] @ '' failed\<newline>'') [Str (hd argv)] u3)))
            else Inr (rest u2))"

text \<open>One round of the shell on the line buffer.\<close>

definition hsh_cmd :: "u8 list \<Rightarrow> uenv \<Rightarrow> (fate \<times> u8 list \<times> uenv) res" where
  "hsh_cmd b u =
     (let cmd = str_at b 0
      in if cmd = chars ''help'' then Inr (Goes, b, hsh_help u)
         else if cmd = chars ''version'' then Inr (Goes, b, get_hsh_version u)
         else if cmd = chars ''clr'' then Inr (Goes, b, hsh_clean_screen u)
         else if begins cmd ''hello'' \<or> begins cmd ''cat'' \<or> begins cmd ''echo'' then run_cmd b u
         else if cmd \<noteq> [] then Inr (Goes, b, uprint (''command '' @ [CHR 0x27] @ ''%s'' @ [CHR 0x27] @ '' not found\<newline>'') [Str cmd] u)
         else Inr (Goes, b, u))"

definition hsh_round :: "u8 list \<Rightarrow> uenv \<Rightarrow> (fate \<times> u8 list \<times> uenv) res" where
  "hsh_round b u =
     (case gets b BUFZ (uprint ''hsh > '' [] u) of
        None \<Rightarrow> Inl (Hang ''gets'')
      | Some (b1, u1) \<Rightarrow>
          bnd (strlen_at b1 0) (\<lambda>n.
            if n = 0 then Inl (Fault ''buf[-1]'') else hsh_cmd (b1[n - 1 := 0]) u1))"

section \<open>The stubs and the table of the kernel agree\<close>

lemma ucall_no_bounds: "0 < ucall_no c \<and> ucall_no c < length (syscalls j)"
  by (cases c) (simp_all add: syscalls_def)

lemma ucall_no_handler:
  "syscalls j ! ucall_no (UOpen p f) = Some sys_open" "syscalls j ! ucall_no (UCreat p f) = Some sys_creat"
  "syscalls j ! ucall_no (URead fd n) = Some sys_read" "syscalls j ! ucall_no (UWrite fd bs n) = Some sys_write"
  "syscalls j ! ucall_no (UClose fd) = Some sys_close" "syscalls j ! ucall_no UTicks = Some sys_gticks"
  "syscalls j ! ucall_no UFork = Some sys_fork" "syscalls j ! ucall_no UWait = Some sys_wait"
  "syscalls j ! ucall_no UExit = Some (sys_exit (j_tp j))"
  "syscalls j ! ucall_no (UExec p as) = Some (sys_exec (j_hdr j) (j_pgdir j))" "syscalls j ! ucall_no (UStat p) = Some sys_stat"
  by (simp_all add: syscalls_def)

section \<open>Splitting a line\<close>

text \<open>The words of a line.\<close>

lemma words_dec: "dropWhile blank s \<noteq> [] \<Longrightarrow> length (dropWhile (\<lambda>c. \<not> blank c) (dropWhile blank s)) < length s"
proof -
  assume "dropWhile blank s \<noteq> []"
  then obtain x xs where x: "dropWhile blank s = x # xs" by (cases "dropWhile blank s") auto
  then have "\<not> blank x" by (metis hd_dropWhile list.discI list.sel(1))
  then have "length (dropWhile (\<lambda>c. \<not> blank c) (dropWhile blank s)) \<le> length xs"
    using x by (simp add: length_dropWhile_le)
  also have "\<dots> < length s" using x length_dropWhile_le [of blank s] by simp
  finally show ?thesis .
qed

function words :: "u8 list \<Rightarrow> u8 list list" where
  "words s =
     (let t = dropWhile blank s
      in if t = [] then [] else takeWhile (\<lambda>c. \<not> blank c) t # words (dropWhile (\<lambda>c. \<not> blank c) t))"
  by pat_completeness auto
termination words
  by (relation "measure length") (simp_all add: words_dec del: dropWhile_eq_Nil_conv)

declare words.simps [simp del]

lemma words_blank: "dropWhile blank s = [] \<Longrightarrow> words s = []"
  by (simp add: words.simps)

lemma words_word:
  assumes "w \<noteq> []" and "\<forall>c \<in> set w. \<not> blank c" and "t = [] \<or> blank (hd t)"
  shows "words (w @ t) = w # words t"
proof -
  have d: "dropWhile blank (w @ t) = w @ t" using assms(1,2) by (cases w) auto
  have "takeWhile (\<lambda>c. \<not> blank c) (w @ t) = w @ takeWhile (\<lambda>c. \<not> blank c) t"
    "dropWhile (\<lambda>c. \<not> blank c) (w @ t) = dropWhile (\<lambda>c. \<not> blank c) t"
    using assms(2) by (simp_all add: takeWhile_append2 dropWhile_append2)
  moreover have "takeWhile (\<lambda>c. \<not> blank c) t = []" "dropWhile (\<lambda>c. \<not> blank c) t = t"
    using assms(3) by (cases t; simp)+
  ultimately show ?thesis using d assms(1) by (simp add: words.simps [of "w @ t"])
qed

lemma words_skip: "\<forall>c \<in> set v. blank c \<Longrightarrow> words (v @ t) = words t"
  by (simp add: words.simps [of "v @ t"] words.simps [of t] dropWhile_append2)

text \<open>A line cut at its next word.\<close>

lemma next_word:
  obtains (none) "\<forall>c \<in> set t. blank c"
  | (word) v w t' where "t = v @ w @ t'" "\<forall>c \<in> set v. blank c" "w \<noteq> []" "\<forall>c \<in> set w. \<not> blank c" "t' = [] \<or> blank (hd t')"
proof (cases "dropWhile blank t")
  case Nil
  then show thesis using none by auto
next
  case (Cons x xs)
  let ?d = "dropWhile blank t"
  have x: "\<not> blank x" using Cons by (metis hd_dropWhile list.discI list.sel(1))
  show thesis
  proof (rule word)
    show "t = takeWhile blank t @ takeWhile (\<lambda>c. \<not> blank c) ?d @ dropWhile (\<lambda>c. \<not> blank c) ?d" by simp
    show "\<forall>c \<in> set (takeWhile blank t). blank c" by (auto dest: set_takeWhileD)
    show "takeWhile (\<lambda>c. \<not> blank c) ?d \<noteq> []" using Cons x by simp
    show "\<forall>c \<in> set (takeWhile (\<lambda>c. \<not> blank c) ?d). \<not> blank c" by (auto dest: set_takeWhileD)
    show "dropWhile (\<lambda>c. \<not> blank c) ?d = [] \<or> blank (hd (dropWhile (\<lambda>c. \<not> blank c) ?d))"
      using hd_dropWhile by blast
  qed
qed

lemma str_at_string: "0 \<notin> set s \<Longrightarrow> str_at (pre @ s @ 0 # rest) (length pre) = s"
  by (simp add: str_at_def) (induction s; auto)

lemma strlen_at_string: "0 \<notin> set s \<Longrightarrow> strlen_at (pre @ s @ 0 # rest) (length pre) = Inr (length s)"
  using str_at_string [of s pre rest] by (simp add: strlen_at_def)

lemma str_forward_word:
  assumes "\<forall>c \<in> set v. blank c" "w \<noteq> []" "\<forall>c \<in> set w. \<not> blank c" "t = [] \<or> blank (hd t)"
  shows "str_forward (pre @ (v @ w @ t) @ rest) (length pre) (length pre + length (v @ w @ t)) =
    (length pre + length v, length pre + length v + length w)"
proof -
  have 1: "takeWhile blank (v @ w @ t) = v" using assms(1-3) by (cases w) (simp_all add: takeWhile_append2)
  have 2: "takeWhile (\<lambda>c. \<not> blank c) (w @ t) = w"
    using assms(3,4) by (cases t) (simp_all add: takeWhile_append2)
  show ?thesis using 1 2 by (simp add: str_forward_def Let_def)
qed

lemma str_forward_blank:
  "\<forall>c \<in> set t. blank c \<Longrightarrow>
   str_forward (pre @ t @ rest) (length pre) (length pre + length t) = (length pre + length t, length pre + length t)"
proof -
  assume "\<forall>c \<in> set t. blank c"
  then have all: "takeWhile blank t = t" by simp
  show ?thesis by (simp add: str_forward_def all Let_def)
qed

lemma split_loop_end: "q \<le> p \<Longrightarrow> length argv < maxn \<Longrightarrow> split_loop maxn q str p argv b u = Some (Inr (argv, b, u))"
  by (simp add: split_loop.simps)

text \<open>The loop on a line whose next word is \<open>w\<close>: \<open>pre\<close> has been split already, \<open>t\<close> is what follows the word.\<close>

lemma split_loop_words:
  assumes "0 \<notin> set (w @ t)" and "w \<noteq> []" and "\<forall>c \<in> set w. \<not> blank c" and "t = [] \<or> blank (hd t)" and "0 \<in> set rest"
    and "length argv + length (words (w @ t)) < maxn"
  shows "\<exists>ps b'. split_loop maxn (length (pre @ w @ t)) (length (pre @ w)) (length pre) argv (pre @ (w @ t) @ 0 # rest) u =
      Some (Inr (argv @ ps, b', u)) \<and> map (str_at b') ps = words (w @ t) \<and> take (length pre) b' = pre \<and> length b' = length (pre @ (w @ t) @ 0 # rest)"
  using assms
proof (induction "length t" arbitrary: pre w t argv u rule: less_induct)
  case less
  let ?pre = "pre @ w @ [0]"
  have ws: "words (w @ t) = w # words t" by (rule words_word [OF less.prems(2-4)])
  have few: "\<not> maxn \<le> length argv + 1" using less.prems(6) ws by simp
  have w0: "0 \<notin> set w" using less.prems(1) by simp
  note step = split_loop.simps [of maxn "length (pre @ w @ t)" "length (pre @ w)" "length pre" argv "pre @ (w @ t) @ 0 # rest" u]
  show ?case
  proof (cases t)
    case Nil
    obtain r1 r2 where r: "rest = r1 @ 0 # r2" "0 \<notin> set r1" using split_list_first [OF less.prems(5)] by blast
    obtain p1 s1 where f: "str_forward (?pre @ r1 @ 0 # r2) (length ?pre) (length ?pre + length r1) = (p1, s1)"
      by (cases "str_forward (?pre @ r1 @ 0 # r2) (length ?pre) (length ?pre + length r1)")
    then have "length ?pre \<le> p1" by (auto simp: str_forward_def Let_def)
    then have "split_loop maxn (length (pre @ w)) s1 p1 (argv @ [length pre]) (?pre @ rest) u =
        Some (Inr (argv @ [length pre], ?pre @ rest, u))"
      using less.prems(6) Nil ws by (simp add: split_loop_end words_blank)
    then have "split_loop maxn (length (pre @ w @ t)) (length (pre @ w)) (length pre) argv (pre @ (w @ t) @ 0 # rest) u =
        Some (Inr (argv @ [length pre], ?pre @ rest, u))"
      using less.prems(2,6) Nil f strlen_at_string [OF r(2), of ?pre r2] ws r(1)
      by (subst step) (simp add: words_blank Let_def list_update_append)
    moreover have "str_at (?pre @ rest) (length pre) = w" using str_at_string [OF w0, of pre rest] by simp
    ultimately show ?thesis using ws Nil
      by (intro exI [of _ "[length pre]"] exI [of _ "?pre @ rest"]) (simp add: words_blank)
  next
    case (Cons x t1)
    have t1: "0 \<notin> set t1" using less.prems(1) Cons by simp
    have bx: "blank x" using less.prems(4) Cons by simp
    then have wt: "words t = words t1" using words_skip [of "[x]" t1] Cons by simp
    have len: "strlen_at (?pre @ t1 @ 0 # rest) (length ?pre) = Inr (length t1)" by (rule strlen_at_string [OF t1])
    have upd: "(pre @ (w @ t) @ 0 # rest)[length (pre @ w) := 0] = ?pre @ t1 @ 0 # rest"
      using Cons by (simp add: list_update_append)
    have go: "split_loop maxn (length (pre @ w @ t)) (length (pre @ w)) (length pre) argv (pre @ (w @ t) @ 0 # rest) u =
        (case str_forward (?pre @ t1 @ 0 # rest) (length ?pre) (length ?pre + length t1) of (p1, str1) \<Rightarrow>
           split_loop maxn (length (pre @ w @ t)) str1 p1 (argv @ [length pre]) (?pre @ t1 @ 0 # rest) u)"
      using less.prems(2,6) len upd ws Cons by (subst step) (simp add: Let_def)
    show ?thesis
    proof (cases rule: next_word [of t1])
      case none
      then have "words t1 = []" by (intro words_blank) simp
      then have "split_loop maxn (length (pre @ w @ t)) (length (pre @ w)) (length pre) argv (pre @ (w @ t) @ 0 # rest) u =
          Some (Inr (argv @ [length pre], ?pre @ t1 @ 0 # rest, u))"
        using go str_forward_blank [OF none, of ?pre "0 # rest"] less.prems(6) ws wt Cons
        by (simp add: split_loop_end)
      moreover have "str_at (?pre @ t1 @ 0 # rest) (length pre) = w"
        using str_at_string [OF w0, of pre "t1 @ 0 # rest"] by simp
      ultimately show ?thesis using ws wt \<open>words t1 = []\<close> Cons
        by (intro exI [of _ "[length pre]"] exI [of _ "?pre @ t1 @ 0 # rest"]) simp
    next
      case (word v w' t')
      have ws': "words t1 = words (w' @ t')" using words_skip [OF word(2), of "w' @ t'"] word(1) by simp
      have fw: "str_forward (?pre @ t1 @ 0 # rest) (length ?pre) (length ?pre + length t1) =
          (length (?pre @ v), length ((?pre @ v) @ w'))"
        using str_forward_word [OF word(2-5), of ?pre "0 # rest"] word(1) by simp
      have sh: "length t' < length t" using Cons word(1) by simp
      have n0: "0 \<notin> set (w' @ t')" using t1 word(1) by simp
      have room: "length (argv @ [length pre]) + length (words (w' @ t')) < maxn"
        using less.prems(6) ws wt ws' by simp
      obtain ps b' where ih: "split_loop maxn (length ((?pre @ v) @ w' @ t')) (length ((?pre @ v) @ w')) (length (?pre @ v))
            (argv @ [length pre]) ((?pre @ v) @ (w' @ t') @ 0 # rest) u = Some (Inr ((argv @ [length pre]) @ ps, b', u))"
          "map (str_at b') ps = words (w' @ t')" "take (length (?pre @ v)) b' = ?pre @ v"
          "length b' = length ((?pre @ v) @ (w' @ t') @ 0 # rest)"
        using less.hyps [OF sh n0 word(3-5) less.prems(5) room, of "?pre @ v" u] by blast
      obtain z where z: "b' = (pre @ w @ 0 # v) @ z" using ih(3) append_take_drop_id [of "length (?pre @ v)" b'] by simp metis
      have "str_at b' (length pre) = w" using str_at_string [OF w0, of pre "v @ z"] z by simp
      moreover have "split_loop maxn (length (pre @ w @ t)) (length (pre @ w)) (length pre) argv (pre @ (w @ t) @ 0 # rest) u =
          Some (Inr (argv @ length pre # ps, b', u))"
        using go fw ih(1) word(1) Cons by simp
      ultimately show ?thesis using ih(2,4) ws wt ws' z word(1) Cons
        by (intro exI [of _ "length pre # ps"] exI [of _ b']) simp
    qed
  qed
qed

lemma split_args_ok:
  assumes "0 \<notin> set s" and "0 \<in> set rest" and "length (words s) < maxn"
  shows "\<exists>ps b'. split_args maxn (s @ 0 # rest) u = Inr (ps, b', u) \<and> map (str_at b') ps = words s"
proof -
  have len: "strlen_at (s @ 0 # rest) 0 = Inr (length s)" using strlen_at_string [OF assms(1), of "[]"] by simp
  show ?thesis
  proof (cases rule: next_word [of s])
    case none
    then have "words s = []" by (intro words_blank) simp
    then show ?thesis using str_forward_blank [OF none, of "[]" "0 # rest"] len assms(3)
      by (simp add: split_args_def split_loop_end)
  next
    case (word v w t)
    have ws: "words s = words (w @ t)" using words_skip [OF word(2), of "w @ t"] word(1) by simp
    have n0: "0 \<notin> set (w @ t)" using assms(1) word(1) by simp
    have room: "length ([] :: nat list) + length (words (w @ t)) < maxn" using assms(3) ws by simp
    from split_loop_words [OF n0 word(3-5) assms(2) room, of v u] ws
    show ?thesis using str_forward_word [OF word(2-5), of "[]" "0 # rest"] len word(1)
      by (auto simp: split_args_def)
  qed
qed

lemma uprint_sel [simp]: "u_calls (uprint f as u) = u_calls u" "u_ans (uprint f as u) = u_ans u"
  by (simp_all add: uprint_def)

lemma fold_sel:
  assumes "\<And>i u. u_calls (h i u) = u_calls u" and "\<And>i u. u_ans (h i u) = u_ans u"
  shows "u_calls (fold h xs u) = u_calls u" "u_ans (fold h xs u) = u_ans u"
  by (induction xs arbitrary: u) (simp_all add: assms)

lemma check_xargv_sel [simp]: "u_calls (check_xargv as u) = u_calls u" "u_ans (check_xargv as u) = u_ans u"
  unfolding check_xargv_def by (simp_all add: fold_sel)

text \<open>\<^verbatim>\<open>sleep\<close> returns when some later answer of the clock is late enough, at the first such answer.\<close>

lemma sleep_loop_ends:
  assumes "lim < word_of_int (fst (u_ans u (length (u_calls u) + k))) - start"
    and "\<And>j. j < k \<Longrightarrow> \<not> lim < word_of_int (fst (u_ans u (length (u_calls u) + j))) - start"
  shows "sleep_loop start lim u = Some (u\<lparr>u_calls := u_calls u @ replicate (Suc k) UTicks\<rparr>)"
  using assms
proof (induction k arbitrary: u)
  case 0
  then show ?case by (cases "u_ans u (length (u_calls u))") (simp add: sleep_loop.simps ucall_def)
next
  case (Suc k)
  let ?u = "u\<lparr>u_calls := u_calls u @ [UTicks]\<rparr>"
  have "sleep_loop start lim ?u = Some (?u\<lparr>u_calls := u_calls ?u @ replicate (Suc k) UTicks\<rparr>)"
    by (rule Suc.IH) (use Suc.prems(1) Suc.prems(2) [of "Suc j" for j] in simp_all)
  then show ?case using Suc.prems(2) [of 0]
    by (cases "u_ans u (length (u_calls u))") (simp add: sleep_loop.simps [of start lim u] ucall_def)
qed

section \<open>Property\<close>

text \<open>
  C39. The shell runs the command of a line. For a line of at most fifteen words, the first of which is short enough for the
  buffer of the path, \<^verbatim>\<open>run_cmd\<close> calls \<^verbatim>\<open>fork\<close> and then, in the child, \<^verbatim>\<open>exec\<close> with the program \<^verbatim>\<open>bin/\<close> and the first word and with
  exactly the words of the line as arguments; when \<^verbatim>\<open>exec\<close> comes back the child waits like the parent. When \<^verbatim>\<open>fork\<close> fails the
  shell exits.
\<close>

theorem shell_runs_words:
  assumes "0 \<notin> set s" and "0 \<in> set rest" and "words s \<noteq> []" and "length (words s) < HSH_MAXARGS" and "length (hd (words s)) < 28"
    and "n = length (u_calls u)"
  shows "\<exists>f b' u'. run_cmd (s @ 0 # rest) u = Inr (f, b', u') \<and>
    u_calls u' = u_calls u @ UFork #
      (if fst (u_ans u n) = - 1 then [UExit]
       else if fst (u_ans u n) = 0
       then UExec (chars ''bin/'' @ hd (words s)) (words s) # (if fst (u_ans u (n + 1)) = 0 then [] else [UWait])
       else [UWait])"
proof -
  let ?u = "uprint (''(Run command '' @ [CHR 0x27] @ ''%s'' @ [CHR 0x27] @ '')\<newline>'') [Str (str_at (s @ 0 # rest) 0)] u"
  obtain ps b' where sp: "split_args HSH_MAXARGS (s @ 0 # rest) ?u = Inr (ps, b', ?u)" "map (str_at b') ps = words s"
    using split_args_ok [OF assms(1,2,4)] by blast
  show ?thesis
    unfolding run_cmd_def sp(1) bnd_Inr prod.case
    using assms(3,5,6)
    by (cases "u_ans u n"; cases "u_ans u (Suc n)") (simp add: sp(2) Let_def ucall_def uexec_def uexit_def)
qed

theorem shell_runs_words_witness:
  "\<exists>f b' u'. run_cmd (chars ''echo  my chunix'' @ [0, 0]) \<lparr>u_ans = (\<lambda>_. (0, [])), u_calls = [], u_out = []\<rparr> = Inr (f, b', u') \<and>
     u_calls u' = [UFork, UExec (chars ''bin/echo'') [chars ''echo'', chars ''my'', chars ''chunix'']]"
proof -
  have w: "words (chars ''echo  my chunix'') = [chars ''echo'', chars ''my'', chars ''chunix'']"
    by (simp add: chars_def words.simps blank_def)
  then show ?thesis
    using shell_runs_words [of "chars ''echo  my chunix''" "[0]" 0 "\<lparr>u_ans = (\<lambda>_. (0, [])), u_calls = [], u_out = []\<rparr>"]
    by (simp add: chars_def)
qed

end
