(* ===== verification/Boot_Loader.thy ===== *)
theory Boot_Loader
  imports Kern_Exec
begin

text \<open>
  The boot loader \<^verbatim>\<open>boot/main.c\<close>, which reads the kernel from the disk behind the boot sector, and \<^verbatim>\<open>tools/mkboot.c\<close>, which makes
  the boot sector. \<open>st\<close> is what the status port of the controller answers to each question and \<open>sect\<close> the sectors of the
  disk; the controller delivers the sector whose number has been written to its registers.
\<close>

section \<open>Reading sectors\<close>

abbreviation BSECT :: u32 where "BSECT \<equiv> 512"
abbreviation ELFHDR :: u32 where "ELFHDR \<equiv> 0x10000"

partial_function (option) waitdisk :: "(nat \<Rightarrow> u8) \<Rightarrow> nat \<Rightarrow> nat option" where
  "waitdisk st k = (if st k AND 0xC0 \<noteq> 0x40 then waitdisk st (k + 1) else Some (k + 1))"

text \<open>The sector number the controller takes from its four registers: 28 bits.\<close>

definition lba :: "u8 \<Rightarrow> u8 \<Rightarrow> u8 \<Rightarrow> u8 \<Rightarrow> u32" where
  "lba r3 r4 r5 r6 = ucast r3 OR push_bit 8 (ucast r4) OR push_bit 16 (ucast r5) OR push_bit 24 (ucast (r6 AND 0x0F))"

definition readsect :: "(nat \<Rightarrow> u8) \<Rightarrow> (u32 \<Rightarrow> u8 list) \<Rightarrow> u32 \<Rightarrow> u32 \<Rightarrow> nat \<times> mem \<Rightarrow> (nat \<times> mem) option" where
  "readsect st sect dst offset = (\<lambda>(k, m).
     case waitdisk st k of
       None \<Rightarrow> None
     | Some k1 \<Rightarrow>
         let n = lba (ucast offset) (ucast (drop_bit 8 offset)) (ucast (drop_bit 16 offset)) (ucast (drop_bit 24 offset OR 0xE0))
         in (case waitdisk st k1 of None \<Rightarrow> None | Some k2 \<Rightarrow> Some (k2, poke m dst (sect n))))"

partial_function (option) readseg_loop ::
    "(nat \<Rightarrow> u8) \<Rightarrow> (u32 \<Rightarrow> u8 list) \<Rightarrow> u32 \<Rightarrow> u32 \<Rightarrow> u32 \<Rightarrow> nat \<times> mem \<Rightarrow> (nat \<times> mem) option" where
  "readseg_loop st sect va end_va offset s =
     (if va < end_va
      then (case readsect st sect va offset s of
              None \<Rightarrow> None
            | Some s1 \<Rightarrow> readseg_loop st sect (va + BSECT) end_va (offset + 1) s1)
      else Some s)"

definition readseg :: "(nat \<Rightarrow> u8) \<Rightarrow> (u32 \<Rightarrow> u8 list) \<Rightarrow> u32 \<Rightarrow> u32 \<Rightarrow> u32 \<Rightarrow> nat \<times> mem \<Rightarrow> (nat \<times> mem) option" where
  "readseg st sect va count offset s =
     readseg_loop st sect (va - offset mod BSECT) (va + count) (offset div BSECT + 1) s"

section \<open>Loading the kernel\<close>

definition ph_pa :: "mem \<Rightarrow> u32 \<Rightarrow> u32" where "ph_pa m p = ld32 m (p + 12)"

primrec boot_segments :: "(nat \<Rightarrow> u8) \<Rightarrow> (u32 \<Rightarrow> u8 list) \<Rightarrow> nat \<Rightarrow> u32 \<Rightarrow> nat \<times> mem \<Rightarrow> (nat \<times> mem) option" where
  "boot_segments st sect 0 ph s = Some s"
| "boot_segments st sect (Suc n) ph s =
     (let m = snd s; pa = ph_pa m ph
      in case readseg st sect pa (ph_filesize m ph) (ph_offset m ph) s of
           None \<Rightarrow> None
         | Some (k, m1) \<Rightarrow>
             let fsz = ph_filesize m1 ph; msz = ph_memsize m1 ph;
                 m2 = (if fsz < msz then stosb m1 (pa + fsz) 0 (msz - fsz) else m1)
             in boot_segments st sect n (ph + 32) (k, m2))"

text \<open>The entry point and the memory when it is called; without a kernel the loader loops.\<close>

definition bootmain :: "(nat \<Rightarrow> u8) \<Rightarrow> (u32 \<Rightarrow> u8 list) \<Rightarrow> mem \<Rightarrow> (u32 \<times> mem) res" where
  "bootmain st sect m0 =
     (case readseg st sect ELFHDR (BSECT * 8) 0 (0, m0) of
        None \<Rightarrow> Inl (Hang ''waitdisk'')
      | Some (k, m) \<Rightarrow>
          if e_magic m ELFHDR \<noteq> ELF_MAGIC then Inl (Hang ''bad'')
          else let ph = ELFHDR + e_phoff m ELFHDR
               in case boot_segments st sect (ph_count ph (e_phnum m ELFHDR)) ph (k, m) of
                    None \<Rightarrow> Inl (Hang ''waitdisk'')
                  | Some (_, m1) \<Rightarrow> Inr (e_entry m1 ELFHDR, m1))"

section \<open>The boot sector\<close>

text \<open>\<^verbatim>\<open>mkboot\<close> on the bytes of its file; \<open>None\<close> when \<^verbatim>\<open>stat\<close> fails, whose result -1 is taken as a size.\<close>

definition get_file_size :: "u8 list option \<Rightarrow> int" where
  "get_file_size f = (case f of None \<Rightarrow> - 1 | Some bs \<Rightarrow> int (length bs))"

definition mkboot :: "u8 list option \<Rightarrow> int \<times> u8 list option" where
  "mkboot f =
     (let size = get_file_size f; old = (case f of None \<Rightarrow> [] | Some bs \<Rightarrow> bs)
      in if 510 < size then (- 1, f) else (0, Some (old @ replicate (nat (510 - size)) 0 @ [0x55, 0xaa])))"

section \<open>Lemmas\<close>

lemma mkboot_sector: "length bs \<le> 510 \<Longrightarrow>
  \<exists>out. mkboot (Some bs) = (0, Some out) \<and> length out = 512 \<and> take (length bs) out = bs \<and> drop 510 out = [0x55, 0xaa]"
  by (simp add: mkboot_def get_file_size_def Let_def)

lemma lba_offset:
  fixes n :: u32
  assumes "n < 2 ^ 28"
  shows "lba (ucast n) (ucast (drop_bit 8 n)) (ucast (drop_bit 16 n)) (ucast (drop_bit 24 n OR 0xE0)) = n"
proof (rule bit_eqI)
  fix k
  have hi: "\<not> bit n k" if "28 \<le> k"
  proof -
    have "unat n < 2 ^ 28" using assms by (simp add: word_less_nat_alt)
    also have "\<dots> \<le> 2 ^ k" using that by (intro power_increasing) simp_all
    finally have "\<not> bit (unat n) k" by (simp add: bit_iff_odd)
    then show ?thesis by (auto simp: bit_unsigned_iff)
  qed
  have m: "(0x0F :: int) = mask 4" "(0xE0 :: int) = push_bit 5 (mask 3)"
    by (simp_all add: mask_eq_exp_minus_1)
  have c: "bit (0x0F :: int) j \<longleftrightarrow> j < 4" "bit (0xE0 :: int) j \<longleftrightarrow> 5 \<le> j \<and> j < 8" for j
    unfolding m by (auto simp: bit_simps)
  show "bit (lba (ucast n) (ucast (drop_bit 8 n)) (ucast (drop_bit 16 n)) (ucast (drop_bit 24 n OR 0xE0))) k = bit n k"
    using hi unfolding lba_def
    by (cases "k < 8"; cases "k < 16"; cases "k < 24"; cases "k < 28") (auto simp: bit_simps c)
qed

definition ready_again :: "(nat \<Rightarrow> u8) \<Rightarrow> bool" where
  "ready_again st \<longleftrightarrow> (\<forall>k. \<exists>j \<ge> k. st j AND 0xC0 = 0x40)"

lemma waitdisk_ends: "ready_again st \<Longrightarrow> \<exists>j. waitdisk st k = Some j"
proof -
  assume "ready_again st"
  then obtain j where "j \<ge> k" "st j AND 0xC0 = 0x40" by (auto simp: ready_again_def)
  then show ?thesis
  proof (induction "j - k" arbitrary: k)
    case 0
    then show ?case by (simp add: waitdisk.simps)
  next
    case (Suc n)
    then have "\<exists>i. waitdisk st (k + 1) = Some i" by (intro Suc.hyps(1)) auto
    then show ?case using waitdisk.simps [of st k] by auto
  qed
qed

lemma readsect_reads:
  assumes "ready_again st" and "offset < 2 ^ 28"
  shows "\<exists>k1. readsect st sect dst offset (k, m) = Some (k1, poke m dst (sect offset))"
proof -
  obtain k1 where k1: "waitdisk st k = Some k1" using waitdisk_ends [OF assms(1)] by blast
  obtain k2 where "waitdisk st k1 = Some k2" using waitdisk_ends [OF assms(1)] by blast
  with k1 show ?thesis using lba_offset [OF assms(2)] by (simp add: readsect_def)
qed

text \<open>The byte at a position of the disk.\<close>

definition disk_byte :: "(u32 \<Rightarrow> u8 list) \<Rightarrow> nat \<Rightarrow> u8" where
  "disk_byte sect n = sect (of_nat (n div 512)) ! (n mod 512)"

text \<open>Reading \<open>n\<close> sectors from \<open>offset\<close> on, each 512 bytes further in memory.\<close>

lemma readseg_loop_reads:
  assumes "ready_again st" and "\<And>i. length (sect i) = 512" and "unat va + 512 * n < 2 ^ 32" and "unat offset + n \<le> 2 ^ 28"
    and "unat end_va \<le> unat va + 512 * n" and "n = 0 \<or> unat va + 512 * (n - 1) < unat end_va"
  shows "\<exists>k1 m1. readseg_loop st sect va end_va offset (k, m) = Some (k1, m1) \<and>
    (\<forall>i < 512 * n. m1 (va + of_nat i) = disk_byte sect (512 * unat offset + i)) \<and>
    (\<forall>x. 512 * n \<le> unat (x - va) \<longrightarrow> m1 x = m x)"
  using assms(3-)
proof (induction n arbitrary: va offset k m)
  case 0
  then have "\<not> va < end_va" by (simp add: word_less_nat_alt)
  then show ?case by (simp add: readseg_loop.simps)
next
  case (Suc n)
  have lt: "va < end_va" using Suc.prems(4) by (simp add: word_less_nat_alt)
  have off: "offset < 2 ^ 28" using Suc.prems(2) by (simp add: word_less_nat_alt)
  have va: "unat (va + BSECT) = unat va + 512" using Suc.prems(1) by (simp add: unat_word_ariths)
  have o1: "unat (offset + 1) = unat offset + 1" using Suc.prems(2) by (simp add: unat_word_ariths)
  obtain k1 where r: "readsect st sect va offset (k, m) = Some (k1, poke m va (sect offset))"
    using readsect_reads [OF assms(1) off] by blast
  obtain k2 m2 where ih: "readseg_loop st sect (va + BSECT) end_va (offset + 1) (k1, poke m va (sect offset)) = Some (k2, m2)"
      "\<forall>i < 512 * n. m2 (va + BSECT + of_nat i) = disk_byte sect (512 * unat (offset + 1) + i)"
      "\<forall>x. 512 * n \<le> unat (x - (va + BSECT)) \<longrightarrow> m2 x = poke m va (sect offset) x"
    using Suc.IH [of "va + BSECT" "offset + 1" k1 "poke m va (sect offset)"] Suc.prems va o1
    by (cases n) auto
  have low: "m2 (va + of_nat i) = disk_byte sect (512 * unat offset + i)" if i: "i < 512 * Suc n" for i
  proof (cases "i < 512")
    case True
    have u: "unat (of_nat i :: u32) = i" using True by (simp add: unat_of_nat)
    have "unat (of_nat i - BSECT) = 2 ^ 32 + i - 512"
      using True u by (simp add: unat_sub_if' word_le_nat_alt)
    then have "512 * n \<le> unat (va + of_nat i - (va + BSECT))" using Suc.prems(1) by simp
    then have "m2 (va + of_nat i) = poke m va (sect offset) (va + of_nat i)" using ih(3) by blast
    then show ?thesis using True u assms(2) by (simp add: poke_def disk_byte_def)
  next
    case False
    then have "va + of_nat i = va + BSECT + of_nat (i - 512)" by (simp add: of_nat_diff)
    moreover have "i - 512 < 512 * n" using i False by simp
    moreover have "512 * unat (offset + 1) + (i - 512) = 512 * unat offset + i" using o1 False by simp
    ultimately show ?thesis using ih(2) by metis
  qed
  have out: "m2 x = m x" if x: "512 * Suc n \<le> unat (x - va)" for x
  proof -
    have "BSECT \<le> x - va" using x by (simp add: word_le_nat_alt)
    then have "unat (x - (va + BSECT)) = unat (x - va) - 512"
      using unat_sub [of BSECT "x - va"] by (simp add: diff_diff_eq)
    then have "m2 x = poke m va (sect offset) x" using ih(3) x by simp
    then show ?thesis using x assms(2) by (simp add: poke_def)
  qed
  show ?case using low out lt r ih(1) by (simp add: readseg_loop.simps [of st sect va])
qed

lemma unat_plus1: "unat (x :: u32) + 1 < 4294967296 \<Longrightarrow> unat (x + 1) = unat x + 1"
  by (simp add: unat_word_ariths)

lemma ceil_512: "a \<le> 512 * ((a + 511) div 512)" "512 * ((a + 511) div 512) < a + 512" for a :: nat
  using div_mult_mod_eq [of "a + 511" 512] mod_less_divisor [of 512 "a + 511"] by linarith+

section \<open>Property\<close>

text \<open>
  C40. The loader puts a segment of the disk image where it belongs. On a disk whose controller becomes ready again and
  again, with sectors of 512 bytes, \<^verbatim>\<open>readseg\<close> returns, and the \<^verbatim>\<open>count\<close> bytes from \<^verbatim>\<open>va\<close> on are the bytes of the image from
  \<^verbatim>\<open>offset\<close> on, where the image begins at sector 1. Memory below the sector that holds the first byte is not changed, and
  neither is memory from the end of the last sector on; a part of a sector before \<^verbatim>\<open>va\<close> and behind the end may be overwritten.
\<close>

theorem readseg_loads:
  assumes "ready_again st" and "\<And>i. length (sect i) = 512" and "0 < unat count"
    and "unat (offset mod BSECT) \<le> unat va" and "unat va + unat count + 512 < 2 ^ 32" and "unat offset + unat count + 1024 \<le> 2 ^ 32"
  shows "\<exists>k1 m1. readseg st sect va count offset (k, m) = Some (k1, m1) \<and>
    (\<forall>i < unat count. m1 (va + of_nat i) = disk_byte sect (512 + unat offset + i)) \<and>
    (\<forall>x. unat x < unat va - unat (offset mod BSECT) \<or> unat va + unat count + 511 \<le> unat x \<longrightarrow> m1 x = m x)"
proof -
  define r where "r = unat (offset mod BSECT)"
  define va0 where "va0 = va - offset mod BSECT"
  define n where "n = (r + unat count + 511) div 512"
  have r: "r < 512" "unat offset = 512 * unat (offset div BSECT) + r"
    by (simp_all add: r_def unat_mod unat_div)
  have va0: "unat va0 = unat va - r" using assms(4) by (simp add: va0_def r_def unat_sub word_le_nat_alt)
  have le: "r \<le> unat va" using assms(4) by (simp add: r_def)
  have en: "unat (va + count) = unat va + unat count" using assms(5) by (simp add: unat_word_ariths)
  have n: "r + unat count \<le> 512 * n" "512 * n < r + unat count + 512"
    using ceil_512 [of "r + unat count"] by (simp_all only: n_def)
  have n0: "0 < n" using n(1) assms(3) by (cases n) simp_all
  have o1: "unat (offset div BSECT + 1) = unat (offset div BSECT) + 1"
    by (rule unat_plus1) (use u32_less [of offset] r(2) in linarith)
  have bounds: "unat offset + unat count + 1024 \<le> 4294967296" "unat va + unat count + 512 < 4294967296"
    using assms(5,6) by simp_all
  have "unat (offset div BSECT + 1) + n \<le> 268435456" unfolding o1 using r n bounds(1) by linarith
  then have room: "unat (offset div BSECT + 1) + n \<le> 2 ^ 28" by simp
  have fit0: "unat va0 + 512 * n < 4294967296" using va0 le n bounds(2) by linarith
  then have fit: "unat va0 + 512 * n < 2 ^ 32" by simp
  have end1: "unat (va + count) \<le> unat va0 + 512 * n" using en va0 le n by linarith
  have end2: "n = 0 \<or> unat va0 + 512 * (n - 1) < unat (va + count)" using en va0 le n n0 by linarith
  obtain k1 m1 where l: "readseg_loop st sect va0 (va + count) (offset div BSECT + 1) (k, m) = Some (k1, m1)"
      "\<forall>i < 512 * n. m1 (va0 + of_nat i) = disk_byte sect (512 * unat (offset div BSECT + 1) + i)"
      "\<forall>x. 512 * n \<le> unat (x - va0) \<longrightarrow> m1 x = m x"
    using readseg_loop_reads [where sect = sect and k = k and m = m, OF assms(1) assms(2) fit room end1 end2] by blast
  have "m1 (va + of_nat i) = disk_byte sect (512 + unat offset + i)" if i: "i < unat count" for i
  proof -
    have "va + of_nat i = va0 + of_nat (r + i)" by (simp add: va0_def r_def)
    moreover have "r + i < 512 * n" using i n(1) by simp
    moreover have "512 * unat (offset div BSECT + 1) + (r + i) = 512 + unat offset + i" using o1 r(2) by linarith
    ultimately show ?thesis using l(2) by metis
  qed
  moreover have "m1 x = m x" if x: "unat x < unat va - r \<or> unat va + unat count + 511 \<le> unat x" for x
  proof -
    have "512 * n \<le> unat (x - va0)"
    proof (cases "unat x < unat va0")
      case True
      then have "unat (x - va0) = 4294967296 + unat x - unat va0" by (simp add: unat_sub_if' word_le_nat_alt)
      then show ?thesis using fit0 by linarith
    next
      case False
      then have "unat (x - va0) = unat x - unat va0" by (intro unat_sub) (simp add: word_le_nat_alt)
      then show ?thesis using False x va0 le n by linarith
    qed
    then show ?thesis using l(3) by blast
  qed
  moreover have "readseg st sect va count offset (k, m) = Some (k1, m1)" using l(1) by (simp add: readseg_def va0_def)
  ultimately show ?thesis unfolding r_def by blast
qed

text \<open>A ready disk whose sectors hold their number in every byte.\<close>

theorem readseg_loads_witness:
  "\<exists>k1 m1. readseg (\<lambda>_. 0x40) (\<lambda>n. replicate 512 (ucast n)) 0x100000 1000 0x1F0 (0, \<lambda>_. 0) = Some (k1, m1) \<and>
     m1 0x100000 = 1 \<and> m1 0x100010 = 2 \<and> m1 0x200000 = 0"
proof -
  let ?sect = "\<lambda>n :: u32. replicate 512 (ucast n :: u8)"
  have ok: "ready_again (\<lambda>_. 0x40)" by (auto simp: ready_again_def)
  have "\<exists>k1 m1. readseg (\<lambda>_. 0x40) ?sect 0x100000 1000 0x1F0 (0, \<lambda>_. 0) = Some (k1, m1) \<and>
      (\<forall>i < unat (1000 :: u32). m1 (0x100000 + of_nat i) = disk_byte ?sect (512 + unat (0x1F0 :: u32) + i)) \<and>
      (\<forall>x. unat x < unat (0x100000 :: u32) - unat ((0x1F0 :: u32) mod BSECT) \<or>
        unat (0x100000 :: u32) + unat (1000 :: u32) + 511 \<le> unat x \<longrightarrow> m1 x = 0)"
    by (rule readseg_loads [OF ok]) simp_all
  then obtain k1 m1 where m: "readseg (\<lambda>_. 0x40) ?sect 0x100000 1000 0x1F0 (0, \<lambda>_. 0) = Some (k1, m1)"
    "\<And>i. i < unat (1000 :: u32) \<Longrightarrow> m1 (0x100000 + of_nat i) = disk_byte ?sect (512 + unat (0x1F0 :: u32) + i)"
    "\<And>x. unat (0x100000 :: u32) + unat (1000 :: u32) + 511 \<le> unat x \<Longrightarrow> m1 x = 0"
    by blast
  have "m1 0x100000 = 1" using m(2) [of 0] by (simp add: disk_byte_def)
  moreover have "m1 0x100010 = 2" using m(2) [of 16] by (simp add: disk_byte_def)
  moreover have "m1 0x200000 = 0" by (rule m(3)) simp
  ultimately show ?thesis using m(1) by blast
qed

end
