(* ===== verification/Kern_Main.thy ===== *)
theory Kern_Main
  imports Kern_Desc Kern_Exec
begin

text \<open>
  The start of the kernel: \<^verbatim>\<open>kern/init.c\<close> with the tables of the multiboot loader (\<^verbatim>\<open>inc/multiboot.h\<close>, \<^verbatim>\<open>kern/multiboot.c\<close>). The
  initialisation of every component is called in the order of \<^verbatim>\<open>main\<close>. As the file is written no task is created and the
  interrupts stay off: \<^verbatim>\<open>main\<close> ends in \<^verbatim>\<open>wheel\<close>.
\<close>

section \<open>The boot page table\<close>

abbreviation PTE_PS :: u32 where "PTE_PS \<equiv> 0x80"

definition entrypgdir :: "u32 list" where
  "entrypgdir = (replicate 1024 0)[0 := PTE_P OR PTE_W OR PTE_PS, 512 := PTE_P OR PTE_W OR PTE_PS]"

text \<open>The loader's tables are at low addresses, which this table maps to the same page as the kernel addresses.\<close>

definition low :: "mem \<Rightarrow> mem" where
  "low m = (\<lambda>a. m (P2V a))"

section \<open>The tables of the loader\<close>

definition mem_lower :: "mem \<Rightarrow> u32 \<Rightarrow> u32" where "mem_lower m p = ld32 (low m) (p + 4)"
definition mem_upper :: "mem \<Rightarrow> u32 \<Rightarrow> u32" where "mem_upper m p = ld32 (low m) (p + 8)"
definition mods_count :: "mem \<Rightarrow> u32 \<Rightarrow> u32" where "mods_count m p = ld32 (low m) (p + 20)"
definition mods_addr :: "mem \<Rightarrow> u32 \<Rightarrow> u32" where "mods_addr m p = ld32 (low m) (p + 24)"
definition mod_start :: "mem \<Rightarrow> u32 \<Rightarrow> u32" where "mod_start m q = ld32 (low m) q"
definition mod_end :: "mem \<Rightarrow> u32 \<Rightarrow> u32" where "mod_end m q = ld32 (low m) (q + 4)"
definition mod_cmdline :: "mem \<Rightarrow> u32 \<Rightarrow> u32" where "mod_cmdline m q = ld32 (low m) (q + 8)"

text \<open>A line with a string of the loader's in it.\<close>

definition print_low :: "string \<Rightarrow> mem \<Rightarrow> u32 \<Rightarrow> cons \<Rightarrow> cons res" where
  "print_low before m a c =
     (case put_str (low m) a (kprint before [] c) of
        None \<Rightarrow> Inl (Hang ''string without end'')
      | Some c1 \<Rightarrow> Inr (kprint ''\<newline>'' [] c1))"

text \<open>The words of the information structure that are printed, by their offset; a tab or a newline follows each.\<close>

definition mb_words :: "(string \<times> nat \<times> string) list" where
  "mb_words =
     [(''Flags  : %x'', 0, [CHR 0x09, CHR 0x09]), (''Mem Low: %x'', 4, [CHR 0x09]), (''Mem High: %x'', 8, ''\<newline>''),
      (''Boot dev: %x'', 12, [CHR 0x09]), (''cmdline: %x'', 16, [CHR 0x09]), (''Mods cnt: %x'', 20, ''\<newline>''),
      (''Mod Addr: %x'', 24, [CHR 0x09]), (''Syms num: %x'', 28, [CHR 0x09]), (''Sym size: %x'', 32, ''\<newline>''),
      (''Sym addr: %x'', 36, [CHR 0x09]), (''Sym shdx: %x'', 40, [CHR 0x09]), (''mmap len: %x'', 44, ''\<newline>''),
      (''mmap Ad: %x'', 48, [CHR 0x09]), (''Drv leng: %x'', 52, [CHR 0x09]), (''Drv Addr: %x'', 56, ''\<newline>''),
      (''Config table: %x'', 60, [CHR 0x09]), (''Loader: %x'', 64, [CHR 0x09]), (''APM tbl:  %x'', 68, ''\<newline>''),
      (''VBE ctrl: %x'', 72, [CHR 0x09]), (''VBE info: %x'', 76, [CHR 0x09])]"

definition mb_halves :: "(string \<times> nat \<times> string) list" where
  "mb_halves =
     [(''VBE mode: %x'', 80, ''\<newline>''), (''VBE seg: %x'', 82, [CHR 0x09]), (''VBE off: %x'', 84, [CHR 0x09]),
      (''VBE len: %x'', 86, ''\<newline>'')]"

text \<open>The loop over the modules: the start is read 32 bytes further for each, the end 8 bytes.\<close>

definition show_module :: "mem \<Rightarrow> u32 \<Rightarrow> nat \<Rightarrow> cons \<Rightarrow> cons" where
  "show_module m q i =
     kprint ''Module %d is at %x:%x\<newline>''
       [Num (of_nat (i + 1)), Num (ld32 (low m) (q + 4 * (8 * of_nat i))), Num (ld32 (low m) (q + 8 * of_nat i + 4))]"

definition dump_multiboot :: "mem \<Rightarrow> u32 \<Rightarrow> cons \<Rightarrow> cons res" where
  "dump_multiboot m p c =
     (let c1 = kprint ''Multiboot Header at %x:\<newline>'' [Num p] c;
          c2 = fold (\<lambda>(fmt, off, sep). kprint (fmt @ sep) [Num (ld32 (low m) (p + of_nat off))]) mb_words c1;
          c3 = fold (\<lambda>(fmt, off, sep). kprint (fmt @ sep) [Num (ucast (ld16 (low m) (p + of_nat off)))]) mb_halves c2
      in bnd (print_low ''Started with: '' m (ld32 (low m) (p + 16)) (kprint ''\<newline>'' [] c3)) (\<lambda>c4.
         bnd (print_low ''Booted from: '' m (ld32 (low m) (p + 64)) c4) (\<lambda>c5.
         let c6 = kprint ''%dkB higher memory '' [Num (mem_upper m p)] (kprint ''%dkB lower memory\<newline>'' [Num (mem_lower m p)] c5);
             c7 = kprint ''Found %d module(s).\<newline>'' [Num (mods_count m p)] (kprint ''(%dMB)\<newline>'' [Num (mem_upper m p div 1024)] c6)
         in Inr (fold (show_module m (mods_addr m p)) [0..<unat (mods_count m p)] c7))))"

section \<open>\<open>main\<close>\<close>

definition init_8259A :: "cons \<Rightarrow> cons" where
  "init_8259A = fold (\<lambda>(port, v). cons_outb port v)
     [(0x20, 0x11), (0xa0, 0x11), (0x21, 0x20), (0xa1, 0x28), (0x21, 0x04), (0xa1, 0x02), (0x21, 0x01), (0xa1, 0x01),
      (0x21, 0xfb), (0xa1, 0xff)]"

abbreviation MBT_BOOTLOADER_MAGIC :: u32 where "MBT_BOOTLOADER_MAGIC \<equiv> 0x2BADB002"

text \<open>What the machine presents: registers, the addresses the linker fixes, and what ports and the clock answer.\<close>

record boot_in =
  b_eax :: u32
  b_mboot :: u32
  b_end :: u32
  b_data :: u32
  b_isr :: "u32 list"
  b_cmos :: "u32 \<Rightarrow> u8"
  b_imr :: u8
  b_imr2 :: u8
  b_imr3 :: u8
  b_lsr :: u8
  b_clock :: cmos
  b_century :: u8
  b_junk :: int

record sysinit =
  i_cons :: cons
  i_mm :: mm
  i_tabs :: dtabs
  i_bio :: bio
  i_time :: tm
  i_root :: "(cons \<times> bio) fs_node"

text \<open>Up to the memory: where the free memory begins and how much there is.\<close>

definition check_loader :: "boot_in \<Rightarrow> mem \<Rightarrow> cons \<Rightarrow> (u32 \<times> u32 \<times> cons) res" where
  "check_loader b m c0 =
     (let c1 = kprint ''%s\<newline>'' [Str (chars ''Welcome to ChuniX! :)\<newline>'')] (cons_init c0); p = b_mboot b
      in if b_eax b \<noteq> MBT_BOOTLOADER_MAGIC then Inl (Hang ''Grub is needed for booting ChuniX'')
         else let c2 = kprint ''mm upper: %d\<newline>'' [Num (mem_upper m p)] (kprint ''mm lower: %d\<newline>'' [Num (mem_lower m p)] c1);
                  q = mods_addr m p;
                  c3 = kprint ''mod end: %x\<newline>'' [Num (mod_end m q)] (kprint ''mod start: %x\<newline>'' [Num (mod_start m q)] c2);
                  sz = mem_upper m p + 1024;
                  start = (if P2V (mod_end m q) < b_end b then b_end b else P2V (mod_end m q))
              in bnd (print_low ''mod cmdline: '' m (mod_cmdline m q) c3) (\<lambda>c4.
                 bnd (dump_multiboot m p (settextcolor 12 0 (kprint ''mm_start: %x, mm_size: %d KB\<newline>'' [Num start, Num sz] c4))) (\<lambda>c5.
                 Inr (start, sz, resettextcolor c5))))"

text \<open>
  The RAM disk is in the kernel's memory, so the block layer starts on that memory. The messages of \<^verbatim>\<open>init_memhd\<close> and
  \<^verbatim>\<open>mem_init1\<close> are printed here.
\<close>

definition kern_main :: "boot_in \<Rightarrow> mm \<Rightarrow> dtabs \<Rightarrow> bio \<Rightarrow> cons \<Rightarrow> sysinit res" where
  "kern_main b mm0 t0 d0 c0 =
     bnd (check_loader b (mem mm0) c0) (\<lambda>(start, sz, c1).
     let q = mods_addr (mem mm0) (b_mboot b);
         d1 = init_memhd (P2V (mod_start (mem mm0) q)) (mod_end (mem mm0) q - mod_start (mem mm0) q) d0;
         c2 = kprint ''memhd starts from %x, size = %d sectors\<newline>'' [Num (hdstart d1), Num (disksize d1)] c1
     in bnd (mem_init1 (b_cmos b) start sz mm0) (\<lambda>mm1.
        let c3 = kprint ''memory size: %d KB\<newline>\<newline>'' [Num (memsz mm1)] c2
        in bnd (setupkvm (b_data b) mm1) (\<lambda>mm2.
           bnd (mem_init2 mm2) (\<lambda>mm3.
           let t1 = init_idt (b_isr b) (init_gdt t0);
               c4 = init_serial (b_lsr b) (b_imr3 b) (init_keyboard (b_imr2 b) (install_timer 100 (b_imr b) (init_8259A c3)))
           in case get_time (b_clock b) (b_century b) (b_junk b) 0 c4 of
                None \<Rightarrow> Inl (Hang ''read_rtc'')
              | Some ((tm, _), c5) \<Rightarrow>
                  let d2 = init_buffer (init_hd (d1\<lparr>ram := mem mm3\<rparr>))
                  in bnd (init_ext2 mm3 (c5, d2)) (\<lambda>(p, nd, mm4, s).
                     bnd (open_fs nd p 0 s) (\<lambda>(c6, d3).
                     Inr \<lparr>i_cons = c6, i_mm = mm4, i_tabs = t1, i_bio = d3, i_time = tm, i_root = nd\<rparr>))))))"

text \<open>\<^verbatim>\<open>main\<close> with \<open>n\<close> rounds of the endless loop in \<^verbatim>\<open>wheel\<close>.\<close>

definition main_run :: "nat \<Rightarrow> boot_in \<Rightarrow> mm \<Rightarrow> dtabs \<Rightarrow> bio \<Rightarrow> cons \<Rightarrow> (nat \<times> cons) res" where
  "main_run n b mm0 t0 d0 c0 = bnd (kern_main b mm0 t0 d0 c0) (\<lambda>s. wheel_run n 0 (i_cons s))"

section \<open>Lemmas\<close>

text \<open>The boot table maps both the low addresses and those of the kernel to the first 4 MB, and nothing else.\<close>

lemma entrypgdir_entries:
  "i < 1024 \<Longrightarrow> entrypgdir ! i = (if i = 0 \<or> i = unat (drop_bit 22 KERNBASE) then PTE_P OR PTE_W OR PTE_PS else 0)"
  by (simp add: entrypgdir_def nth_list_update)

text \<open>A run never lasts five rounds: it ends before \<^verbatim>\<open>wheel\<close> is reached, or by the index that leaves its array there.\<close>

lemma main_never_settles: "\<exists>e. main_run 5 b mm0 t0 d0 c0 = Inl e"
  by (cases "kern_main b mm0 t0 d0 c0") (auto simp: main_run_def wheel_overruns)

text \<open>The kernel starts only if the clock is read to the end.\<close>

lemma main_needs_clock:
  assumes "kern_main b mm0 t0 d0 c0 = Inr s"
  shows "read_rtc (b_clock b) (b_century b) (b_junk b) 0 \<noteq> None"
  using assms by (auto simp: kern_main_def get_time_def Let_def split: option.splits)

end
