(* ===== verification/Spec2Isabelle.thy ===== *)
theory Spec2Isabelle
  imports Kern_Chunks Kern_Desc Kern_Inv Fs_Minix Tools_Mksfs User_Prog Boot_Loader Kern_Main
begin

text \<open>
  Verification of ChuniX, a small 32-bit x86 operating system (C and assembler sources under \<^verbatim>\<open>src/\<close>).

  \<^bold>\<open>Parts.\<close> The boot loader (\<^verbatim>\<open>src/boot\<close>) loads the kernel. The kernel (\<^verbatim>\<open>src/kern\<close>) has physical pages and page tables, a heap,
  descriptor tables, traps and system calls, tasks with a round-robin scheduler, \<^verbatim>\<open>exec\<close>, a clock and a monitor. The
  drivers (\<^verbatim>\<open>src/drv\<close>) are console, serial line, keyboard, IDE disk and RAM disk. The file systems (\<^verbatim>\<open>src/fs\<close>) stand
  on a buffer cache over the two disks: SFS, a beginning of ext2 and one of Minix, with a layer of callbacks in front. User programs
  (\<^verbatim>\<open>src/user\<close>) use the stubs of \<^verbatim>\<open>src/lib\<close>. Tools on the host (\<^verbatim>\<open>src/tools\<close>) build the boot sector and the SFS image.
  A trap saves the registers, and the dispatcher calls a driver's handler or a system call. These work on tasks, address spaces and files.
  A task that waits for a buffer or for input sleeps in the scheduler, which the handlers of the drivers wake.

  \<^bold>\<open>Values and effects.\<close> Machine integers are words of their width, C \<^verbatim>\<open>int\<close> without overflow is \<^typ>\<open>int\<close>, memory is a
  function from 32-bit addresses to bytes. Global variables of a file are a record that the operations take and return. A result is a value or
  one of: a panic, a fault (an access the C standard leaves undefined), a loop that does not end, falling asleep, or leaving a program.
  Writes to ports are logged. What a device answers is a parameter, a function of the number of reads where it may change.

  \<^bold>\<open>Theories\<close>, with the sources they model and what their lemmas show.
  \<^item> \<^verbatim>\<open>Chunix_Base\<close>: words, results, memory with 8- and 32-bit accesses, the collections of simplification rules.
  \<^item> \<^verbatim>\<open>Kern_String\<close>: \<^verbatim>\<open>kern/string.c\<close> (and its copy in \<^verbatim>\<open>lib\<close>). Overlapping copies are right; a copied string is the same string.
  \<^item> \<^verbatim>\<open>Kern_Mm\<close>: \<^verbatim>\<open>kern/mm.c\<close>, \<^verbatim>\<open>inc/mmu.h\<close>. The free list as a locale for allocators, interpreted on \<^verbatim>\<open>kalloc_page\<close> and \<^verbatim>\<open>kfree_page\<close>;
    pages handed out are distinct.
  \<^item> \<^verbatim>\<open>Kern_Paging\<close>: the page-table operations of \<^verbatim>\<open>mm.c\<close> against the translation of addresses: what is mapped, unmapped, copied to
    another address space, and the map of the kernel.
  \<^item> \<^verbatim>\<open>Kern_Heap\<close>, \<^verbatim>\<open>Kern_Chunks\<close>: \<^verbatim>\<open>kern/heap.c\<close>. First, the operations on headers in memory; then their refinement of a list of chunks:
    first fit, merging of neighbours, the return of the whole heap.
  \<^item> \<^verbatim>\<open>Fifo\<close>: the contract of a queue, which the circular input buffer and the disk queue fulfil.
  \<^item> \<^verbatim>\<open>Drv_Disk\<close>: \<^verbatim>\<open>drv/hd.c\<close>, \<^verbatim>\<open>drv/memhd.c\<close>, \<^verbatim>\<open>inc/buf.h\<close>. Requests complete in order; the RAM disk changes exactly one sector.
  \<^item> \<^verbatim>\<open>Fs_Buffer\<close>, \<^verbatim>\<open>Fs_Block\<close>: \<^verbatim>\<open>fs/buffer.c\<close>. The ring of buffers and its order of use, the cache invariant, reading and writing through it;
    then the contract of a block device that file systems rely on.
  \<^item> \<^verbatim>\<open>Drv_Console\<close>, \<^verbatim>\<open>Drv_Keyboard\<close>: \<^verbatim>\<open>drv/console.c\<close>, \<^verbatim>\<open>drv/serial.c\<close>, \<^verbatim>\<open>kern/spinlock.c\<close>, \<^verbatim>\<open>drv/keyboard.c\<close>, \<^verbatim>\<open>inc/kbd.h\<close>. The screen stays in bounds,
    input arrives in order, the scan codes of a text arrive as the text.
  \<^item> \<^verbatim>\<open>Kern_Printf\<close>: \<^verbatim>\<open>kern/printf.c\<close> and \<^verbatim>\<open>lib/printf.c\<close>. The interpreter of formats equals a reference rendering.
  \<^item> \<^verbatim>\<open>Kern_Switch\<close>: \<^verbatim>\<open>kern/isr.s\<close>, \<^verbatim>\<open>kern/swtch.S\<close> on registers and stack.
  \<^item> \<^verbatim>\<open>Kern_Task\<close>: \<^verbatim>\<open>kern/task.c\<close>, \<^verbatim>\<open>kern/task.h\<close>, \<^verbatim>\<open>kern/sched.c\<close>. The list of tasks, fairness, sleeping, exit and wait.
  \<^item> \<^verbatim>\<open>Fs_Sfs\<close>: \<^verbatim>\<open>fs/sfs/sfs.c\<close>, \<^verbatim>\<open>inc/fs_sfs.h\<close>. Lookup refines a search in a list of entries; open and read deliver the file.
  \<^item> \<^verbatim>\<open>Fs_Vfs\<close>: \<^verbatim>\<open>fs/fs.c\<close>, \<^verbatim>\<open>fs/file.c\<close>, \<^verbatim>\<open>fs/sysfile.c\<close>, \<^verbatim>\<open>fs/ext2/ext2.c\<close>. Dispatch on callbacks; the superblock of ext2.
  \<^item> \<^verbatim>\<open>Fs_Minix\<close>: \<^verbatim>\<open>fs/minix/fs_minix.c\<close>. Inodes, blocks, reading of files, path lookup.
  \<^item> \<^verbatim>\<open>Tools_Mksfs\<close>: \<^verbatim>\<open>tools/mk_sfs.c\<close>. The areas of an image stay apart; below, what it writes the kernel reads back.
  \<^item> \<^verbatim>\<open>Kern_Desc\<close>: \<^verbatim>\<open>kern/descriptor.c\<close>. Every descriptor and gate decodes to what it was made of.
  \<^item> \<^verbatim>\<open>Kern_Clock\<close>: \<^verbatim>\<open>kern/get_time.c\<close>, \<^verbatim>\<open>kern/time.c\<close>. When reading the clock ends; the timer interrupt.
  \<^item> \<^verbatim>\<open>Kern_Tools\<close>: \<^verbatim>\<open>kern/tools.c\<close>. Input of lines and the monitor.
  \<^item> \<^verbatim>\<open>Kern_Exec\<close>, \<^verbatim>\<open>Kern_Syscall\<close>: \<^verbatim>\<open>kern/exec.c\<close>, \<^verbatim>\<open>kern/syscall.c\<close>, \<^verbatim>\<open>kern/trap.c\<close>. The state of the whole kernel, memory as a program sees it, the eleven
    system calls and the dispatcher.
  \<^item> \<^verbatim>\<open>Kern_Inv\<close>: the type invariant of the whole kernel, kept by every trap.
  \<^item> \<^verbatim>\<open>User_Prog\<close>: \<^verbatim>\<open>lib/utils.c\<close>, \<^verbatim>\<open>lib/usys.S\<close> and the programs of \<^verbatim>\<open>user\<close>. The shell runs the words of a line.
  \<^item> \<^verbatim>\<open>Boot_Loader\<close>: \<^verbatim>\<open>boot/main.c\<close>, \<^verbatim>\<open>tools/mkboot.c\<close>. The loader puts the image where it belongs.
  \<^item> \<^verbatim>\<open>Kern_Main\<close>: \<^verbatim>\<open>kern/init.c\<close>, \<^verbatim>\<open>kern/multiboot.c\<close>. All initialisations in their order.

  \<^bold>\<open>Loops.\<close> A loop that always ends is a total function. One that may not end (a search along links in memory, a string without
  end, waiting for a device) is a partial function where not ending is \<^const>\<open>None\<close>; the lemmas show that it returns under the stated conditions.
  The walk along the list of tasks in \<^verbatim>\<open>Kern_Task\<close> and the ring of buffers are of this kind. Loops meant to be endless (\<^verbatim>\<open>init\<close>, the shell,
  the monitor, the wheel) are given by one round, or by a number of rounds.

  \<^bold>\<open>Not modelled.\<close> The first instructions (\<^verbatim>\<open>boot/boot.S\<close>, \<^verbatim>\<open>kern/entry.S\<close>, \<^verbatim>\<open>lib/entry.S\<close>), which set up the processor; headers with
  declarations only; the routines that only print or that nothing calls (\<^verbatim>\<open>dump_heap\<close> and the tests of the heap, \<^verbatim>\<open>dump_ext2\<close>, \<^verbatim>\<open>test_fs\<close>, \<^verbatim>\<open>delay\<close>,
  the lookup routines of \<^verbatim>\<open>mk_sfs.c\<close>). In \<^verbatim>\<open>Kern_Task\<close> and \<^verbatim>\<open>Fs_Sfs\<close> the messages printed are left out. Interrupts are
  whole steps: one does not interrupt another handler.
\<close>

section \<open>The image builder and the file system\<close>

text \<open>
  C5. Round trip between the host and the kernel: a file \<^verbatim>\<open>mk_sfs\<close> has put into an image is read back by the
  kernel. When the RAM disk holds the image, mounting it and reading the file by its name delivers its bytes,
  cut to the size of the buffer. The name has at most 30 characters and no other file of the image has a
  name that starts with it.
\<close>

theorem mk_sfs_read_back:
  assumes "mk_main h nb files = Inr s" and "unat nb \<le> 2 ^ 22" and "\<forall>g \<in> set files. length g < 4096"
    and "f \<in> set files" and "h f = Some (Host_reg xs)" and "f \<noteq> []" and "0 \<notin> set f" and "length f \<le> 30"
    and "\<forall>g \<in> set files. take (length f) g = f \<longrightarrow> g = f"
    and "sfs_ok t" and "holds_image s (sbio t)" and "unat n < 2 ^ 31"
  shows "\<exists>t'. bnd (check_sfs t) (sfs_read_file f dst n m) =
    Inr (int (min (length xs) (unat n)), poke (memset m dst 0 n) dst (take (unat n) xs), t')"
  by (rule image_read_back [OF assms])

theorem mk_sfs_read_back_witness:
  "\<exists>s t'. mk_main demo_host 8 [[100], [97, 98]] = Inr s \<and>
     bnd (check_sfs (image_sfs s)) (sfs_read_file [97, 98] 0x9000 10 (\<lambda>_. 7)) =
       Inr (3, poke (memset (\<lambda>_. 7) 0x9000 0 10) 0x9000 [1, 2, 3], t')"
proof -
  obtain s where s: "mk_main demo_host 8 [[100], [97, 98]] = Inr s" using demo_run by blast
  have "m_nblk s = 8" using mk_main_spec [OF s] by auto
  then have i: "sfs_ok (image_sfs s)" "holds_image s (sbio (image_sfs s))" by (simp_all add: image_sfs_holds)
  show ?thesis
    using mk_sfs_read_back [OF s, of "[97, 98]" "[1, 2, 3]" "image_sfs s" 10 "0x9000" "\<lambda>_. 7"] i s
    by (simp add: demo_host_def)
qed

end
